(* ===== verification/Prelude.thy ===== *)
theory Prelude
  imports Main "HOL-Library.Word" "HOL-Library.Monad_Syntax"
begin

text \<open>
  The shared part of the development: the names of the machine types the C++ code
  uses, the option-valued results of operations that may abort, and the generic list
  and option lemmas several components need.

  A result of type \<open>'a option\<close> is \<open>None\<close> where the program aborts (a failed
  \<open>assert\<close>, which stays active in both build types of the repository's CMake file) or,
  where a theory says so, where a loop or recursion does not return.
\<close>

type_synonym byte = "8 word"
type_synonym bytes = "8 word list"
type_synonym u16 = "16 word"
type_synonym u32 = "32 word"
type_synonym u64 = "64 word"

named_theorems list_slice \<open>slices of lists: take, drop and append\<close>
named_theorems abort_simps \<open>operations that may abort, with their guards\<close>

text \<open>The C \<open>assert\<close>.\<close>

definition assert_that :: "bool \<Rightarrow> unit option" where
  "assert_that b = (if b then Some () else None)"

lemma assert_that_Some [abort_simps]: "(assert_that b = Some u) = b"
  by (simp add: assert_that_def)

lemma assert_that_bind [abort_simps]:
  "(assert_that b \<bind> f = Some r) = (b \<and> f () = Some r)"
  by (simp add: assert_that_def)

lemma assert_that_True [simp]: "b \<Longrightarrow> assert_that b \<bind> f = f ()"
  by (simp add: assert_that_def)

lemma assert_that_False [simp]: "\<not> b \<Longrightarrow> assert_that b \<bind> f = None"
  by (simp add: assert_that_def)

subsection \<open>Overwriting a stretch of an array\<close>

text \<open>\<open>std::copy\<close> or \<open>memcpy\<close> of \<open>d\<close> to position \<open>i\<close> of the array \<open>b\<close>.\<close>

definition overwrite :: "'a list \<Rightarrow> nat \<Rightarrow> 'a list \<Rightarrow> 'a list" where
  "overwrite b i d = take i b @ d @ drop (i + length d) b"

lemma length_overwrite [simp]:
  "i + length d \<le> length b \<Longrightarrow> length (overwrite b i d) = length b"
  by (simp add: overwrite_def)

lemma take_overwrite [list_slice]:
  "n \<le> i \<Longrightarrow> i \<le> length b \<Longrightarrow> take n (overwrite b i d) = take n b"
  by (simp add: overwrite_def min_def)

lemma drop_overwrite [list_slice]:
  "i + length d \<le> n \<Longrightarrow> i \<le> length b \<Longrightarrow> drop n (overwrite b i d) = drop n b"
  by (simp add: overwrite_def min_def)

lemma slice_overwrite [list_slice]:
  "i \<le> length b \<Longrightarrow> take (length d) (drop i (overwrite b i d)) = d"
  by (simp add: overwrite_def min_def)

lemma nth_overwrite_outside [list_slice]:
  assumes "i + length d \<le> length b" and "j < i \<or> i + length d \<le> j" and "j < length b"
  shows "overwrite b i d ! j = b ! j"
  using assms by (auto simp: overwrite_def nth_append min_def)

subsection \<open>Slices\<close>

lemma take_drop_split [list_slice]:
  "i \<le> j \<Longrightarrow> take (j - i) (drop i xs) @ drop j xs = drop i xs"
  by (metis append_take_drop_id drop_drop le_add_diff_inverse2)

lemma take_eq_length: "take (length p) xs = p \<Longrightarrow> length p \<le> length xs"
  by (metis length_take min.cobounded1)

lemma take_drop_nths:
  "i + n \<le> length xs \<Longrightarrow> take n (drop i xs) = map (\<lambda>k. xs ! (i + k)) [0..<n]"
  by (rule nth_equalityI) auto

subsection \<open>Searching a list for a pattern\<close>

text \<open>
  The position of the first occurrence of \<open>pat\<close>: \<open>std::string::find\<close>,
  \<open>std::search\<close> and, for a one-element pattern, \<open>memchr\<close>.
\<close>

fun find_sub :: "'a list \<Rightarrow> 'a list \<Rightarrow> nat option" where
  "find_sub pat [] = (if pat = [] then Some 0 else None)"
| "find_sub pat (c # s) =
     (if take (length pat) (c # s) = pat then Some 0 else map_option Suc (find_sub pat s))"

lemma find_sub_Some:
  "find_sub pat s = Some i \<Longrightarrow> i + length pat \<le> length s \<and> take (length pat) (drop i s) = pat"
  by (induction pat s arbitrary: i rule: find_sub.induct)
     (auto split: if_splits dest: take_eq_length)

lemma find_sub_least:
  "find_sub pat s = Some i \<Longrightarrow> j < i \<Longrightarrow> take (length pat) (drop j s) \<noteq> pat"
proof (induction pat s arbitrary: i j rule: find_sub.induct)
  case (1 pat)
  then show ?case by (simp split: if_splits)
next
  case (2 pat c s)
  then show ?case by (cases j) (auto split: if_splits)
qed

lemma find_sub_None: "find_sub pat s = None \<Longrightarrow> take (length pat) (drop j s) \<noteq> pat"
proof (induction pat s arbitrary: j rule: find_sub.induct)
  case (1 pat)
  then show ?case by (simp split: if_splits)
next
  case (2 pat c s)
  then show ?case by (cases j) (auto split: if_splits)
qed

lemma find_sub_None_iff: "(find_sub pat s = None) = (\<forall>j. take (length pat) (drop j s) \<noteq> pat)"
  using find_sub_None find_sub_Some by (cases "find_sub pat s") blast+

text \<open>A piece that ends before the first occurrence does not contain the pattern.\<close>

lemma find_sub_before:
  assumes "find_sub pat s = Some i" and "pat \<noteq> []"
  shows "find_sub pat (take i s) = None"
proof -
  have "take (length pat) (drop j (take i s)) \<noteq> pat" for j
  proof
    assume eq: "take (length pat) (drop j (take i s)) = pat"
    then have "length pat \<le> length (drop j (take i s))" by (rule take_eq_length)
    then have le: "length pat \<le> i - j" by simp
    with assms(2) have "j < i" by (cases pat) auto
    from eq le have "take (length pat) (drop j s) = pat"
      by (simp add: drop_take min_absorb1)
    with find_sub_least [OF assms(1) \<open>j < i\<close>] show False by contradiction
  qed
  then show ?thesis by (simp add: find_sub_None_iff)
qed

subsection \<open>Related lists\<close>

lemma list_all2_exists: "\<forall>x \<in> set xs. \<exists>y. R x y \<Longrightarrow> \<exists>ys. list_all2 R xs ys"
proof (induction xs)
  case Nil
  show ?case by (intro exI [of _ "[]"]) simp
next
  case (Cons x xs)
  then obtain y ys where "R x y" "list_all2 R xs ys" by auto
  then show ?case by (intro exI [of _ "y # ys"]) simp
qed

subsection \<open>Iterating a step that may fail\<close>

fun iterate :: "('s \<Rightarrow> 's option) \<Rightarrow> nat \<Rightarrow> 's \<Rightarrow> 's option" where
  "iterate step 0 s = Some s"
| "iterate step (Suc n) s = (case step s of None \<Rightarrow> None | Some s' \<Rightarrow> iterate step n s')"

lemma iterate_Suc_last:
  "iterate step (Suc n) s = (case iterate step n s of None \<Rightarrow> None | Some s' \<Rightarrow> step s')"
proof (induction n arbitrary: s)
  case 0
  show ?case by (cases "step s") auto
next
  case (Suc n)
  show ?case
  proof (cases "step s")
    case None
    then show ?thesis by simp
  next
    case (Some s')
    with Suc [of s'] show ?thesis by simp
  qed
qed

end
