(* ===== verification/StringUtils.thy ===== *)
theory StringUtils
  imports Prelude
begin

text \<open>
  The string helpers of \<open>src/base/StringUtils.cpp\<close>: trimming, case conversion,
  splitting and file-name decomposition. A \<open>std::string\<close> is a \<open>string\<close> (a list
  of bytes); \<open>str_find\<close> and \<open>last_of\<close> model \<open>std::string::find\<close> and
  \<open>find_last_of\<close> with a one-character set, with \<open>None\<close> for \<open>npos\<close>.
\<close>

subsection \<open>The library calls\<close>

definition str_find :: "string \<Rightarrow> string \<Rightarrow> nat \<Rightarrow> nat option" where
  "str_find s pat pos =
     (if pos \<le> length s then map_option ((+) pos) (find_sub pat (drop pos s)) else None)"

fun last_of :: "char \<Rightarrow> string \<Rightarrow> nat option" where
  "last_of c [] = None"
| "last_of c (x # xs) =
     (case last_of c xs of Some i \<Rightarrow> Some (Suc i) | None \<Rightarrow> if x = c then Some 0 else None)"

subsection \<open>Trimming\<close>

text \<open>The two loops that move \<open>pos\<close>.\<close>

function trimLeft_pos :: "string \<Rightarrow> string \<Rightarrow> nat \<Rightarrow> nat" where
  "trimLeft_pos str chars pos =
     (if pos < length str \<and> str ! pos \<in> set chars then trimLeft_pos str chars (Suc pos) else pos)"
  by pat_completeness auto
termination
  by (relation "measure (\<lambda>(str, chars, pos). length str - pos)") auto

fun trimRight_pos :: "string \<Rightarrow> string \<Rightarrow> nat \<Rightarrow> nat" where
  "trimRight_pos str chars pos =
     (if 0 < pos \<and> str ! (pos - 1) \<in> set chars then trimRight_pos str chars (pos - 1) else pos)"

declare trimLeft_pos.simps [simp del] trimRight_pos.simps [simp del]

definition trimLeft :: "string \<Rightarrow> string \<Rightarrow> string" where
  "trimLeft str chars = drop (trimLeft_pos str chars 0) str"

definition trimRight :: "string \<Rightarrow> string \<Rightarrow> string" where
  "trimRight str chars = take (trimRight_pos str chars (length str)) str"

definition trim :: "string \<Rightarrow> string \<Rightarrow> string" where
  "trim str chars = trimLeft (trimRight str chars) chars"

definition trimSpaces :: "string \<Rightarrow> string" where
  "trimSpaces str = trim str '' ''"

definition trimLeftSpaces :: "string \<Rightarrow> string" where
  "trimLeftSpaces str = trimLeft str '' ''"

definition trimRightSpaces :: "string \<Rightarrow> string" where
  "trimRightSpaces str = trimRight str '' ''"

subsection \<open>Case conversion\<close>

definition lower_char :: "char \<Rightarrow> char" where
  "lower_char c =
     (let n = (of_char c :: nat) in if 65 \<le> n \<and> n \<le> 90 then char_of (n + 32) else c)"

definition upper_char :: "char \<Rightarrow> char" where
  "upper_char c =
     (let n = (of_char c :: nat) in if 97 \<le> n \<and> n \<le> 122 then char_of (n - 32) else c)"

definition toLower :: "string \<Rightarrow> string" where
  "toLower str = map lower_char str"

definition toUpper :: "string \<Rightarrow> string" where
  "toUpper str = map upper_char str"

subsection \<open>Splitting\<close>

text \<open>
  The loop of \<open>split\<close>: \<open>end\<close> is always \<open>str.find(delimiter, start)\<close>, so the model
  recomputes it. \<open>None\<close> is a loop that never ends.
\<close>

partial_function (option) split_loop ::
    "string \<Rightarrow> string \<Rightarrow> nat \<Rightarrow> string list \<Rightarrow> string list option" where
  "split_loop str delim start result =
     (case str_find str delim start of
        None \<Rightarrow> Some (if start < length str then result @ [drop start str] else result)
      | Some e \<Rightarrow>
          split_loop str delim (e + length delim) (result @ [take (e - start) (drop start str)]))"

definition split :: "string \<Rightarrow> string \<Rightarrow> string list option" where
  "split str delim = split_loop str delim 0 []"

subsection \<open>File names\<close>

definition getFileName :: "string \<Rightarrow> string" where
  "getFileName filePath =
     (case last_of (CHR ''/'') filePath of None \<Rightarrow> filePath | Some pos \<Rightarrow> drop (pos + 1) filePath)"

definition getFileNameWithoutExt :: "string \<Rightarrow> string" where
  "getFileNameWithoutExt filePath =
     (let fileName = getFileName filePath
      in case last_of (CHR ''.'') fileName of None \<Rightarrow> fileName | Some pos \<Rightarrow> take pos fileName)"

definition getFileExt :: "string \<Rightarrow> string" where
  "getFileExt filePath =
     (let fileName = getFileName filePath
      in case last_of (CHR ''.'') fileName of None \<Rightarrow> [] | Some pos \<Rightarrow> drop (pos + 1) fileName)"

definition getFilePath :: "string \<Rightarrow> string" where
  "getFilePath filePath =
     (case last_of (CHR ''/'') filePath of None \<Rightarrow> ''.'' | Some pos \<Rightarrow> take pos filePath)"

subsection \<open>Facts about the library calls\<close>

lemma last_of_Some:
  "last_of c s = Some i \<Longrightarrow> i < length s \<and> s ! i = c \<and> c \<notin> set (drop (Suc i) s)"
proof (induction s arbitrary: i)
  case Nil
  then show ?case by simp
next
  case (Cons x xs)
  show ?case
  proof (cases "last_of c xs")
    case None
    then have "c \<notin> set xs"
    proof (induction xs)
      case (Cons y ys)
      then show ?case by (auto split: option.splits if_splits)
    qed simp
    with Cons.prems None show ?thesis by (auto split: if_splits)
  next
    case (Some j)
    with Cons.IH [OF Some] Cons.prems show ?thesis by auto
  qed
qed

lemma last_of_None: "(last_of c s = None) = (c \<notin> set s)"
  by (induction s) (auto split: option.splits)


subsection \<open>Trimming equals its reference\<close>

lemma trimLeft_pos_drop:
  "pos \<le> length str \<Longrightarrow>
     drop (trimLeft_pos str chars pos) str = dropWhile (\<lambda>c. c \<in> set chars) (drop pos str)"
proof (induction str chars pos rule: trimLeft_pos.induct)
  case (1 str chars pos)
  show ?case
  proof (cases "pos < length str")
    case True
    with 1 show ?thesis
      by (simp add: trimLeft_pos.simps [of str chars pos] Cons_nth_drop_Suc [OF True, symmetric])
  next
    case False
    with "1.prems" have "pos = length str" by simp
    then show ?thesis by (simp add: trimLeft_pos.simps [of str chars "length str"])
  qed
qed

lemma trimLeft_dropWhile: "trimLeft str chars = dropWhile (\<lambda>c. c \<in> set chars) str"
  by (simp add: trimLeft_def trimLeft_pos_drop)

lemma trimRight_pos_take:
  "pos \<le> length str \<Longrightarrow>
     take (trimRight_pos str chars pos) str
       = rev (dropWhile (\<lambda>c. c \<in> set chars) (rev (take pos str)))"
proof (induction str chars pos rule: trimRight_pos.induct)
  case (1 str chars pos)
  show ?case
  proof (cases pos)
    case 0
    then show ?thesis by (simp add: trimRight_pos.simps [of str chars 0])
  next
    case (Suc p)
    with 1 show ?thesis
      by (simp add: trimRight_pos.simps [of str chars "Suc p"] take_Suc_conv_app_nth)
  qed
qed

lemma trimRight_dropWhile:
  "trimRight str chars = rev (dropWhile (\<lambda>c. c \<in> set chars) (rev str))"
  by (simp add: trimRight_def trimRight_pos_take)

text \<open>
  Trimming on both sides removes a prefix and a suffix made of the given characters
  only, and the text that is left neither starts nor ends with one of them.
\<close>

lemma trim_spec:
  "\<exists>l r. str = l @ trim str chars @ r \<and> set l \<subseteq> set chars \<and> set r \<subseteq> set chars
     \<and> (trim str chars = [] \<or>
        hd (trim str chars) \<notin> set chars \<and> last (trim str chars) \<notin> set chars)"
proof -
  let ?P = "\<lambda>c. c \<in> set chars"
  let ?s = "trimRight str chars"
  let ?r = "rev (takeWhile ?P (rev str))"
  let ?l = "takeWhile ?P ?s"
  have str: "str = ?s @ ?r"
    by (metis rev_append rev_rev_ident takeWhile_dropWhile_id trimRight_dropWhile)
  have s: "?s = ?l @ trim str chars"
    by (simp add: trim_def trimLeft_dropWhile)
  have hd_ok: "trim str chars = [] \<or> hd (trim str chars) \<notin> set chars"
    using hd_dropWhile [of ?P ?s] by (auto simp: trim_def trimLeft_dropWhile)
  have "last ?s \<notin> set chars" if "?s \<noteq> []"
    using that hd_dropWhile [of ?P "rev str"]
    by (auto simp: trimRight_dropWhile last_rev)
  with s have last_ok: "trim str chars = [] \<or> last (trim str chars) \<notin> set chars"
    by (metis append_is_Nil_conv last_appendR)
  have sets: "set ?l \<subseteq> set chars" "set ?r \<subseteq> set chars"
    by (auto dest: set_takeWhileD)
  have "str = ?l @ trim str chars @ ?r"
    using str s by (metis append.assoc)
  with sets hd_ok last_ok show ?thesis by blast
qed

lemma toLower_idem: "toLower (toLower str) = toLower str"
  by (auto simp: toLower_def lower_char_def Let_def)

subsection \<open>Splitting\<close>

lemma str_find_at:
  assumes "str_find str delim start = Some e"
  shows "start \<le> e" and "e + length delim \<le> length str"
    and "drop start str = take (e - start) (drop start str) @ delim @ drop (e + length delim) str"
    and "find_sub delim (drop start str) = Some (e - start)"
proof -
  from assms obtain i where i: "find_sub delim (drop start str) = Some i" "e = start + i"
    and st: "start \<le> length str"
    by (auto simp: str_find_def split: if_splits)
  from find_sub_Some [OF i(1)] st i(2) have
    b: "i + length delim \<le> length str - start" and
    d: "take (length delim) (drop i (drop start str)) = delim" by auto
  show "start \<le> e" using i by simp
  show "e + length delim \<le> length str" using b st i(2) by simp
  show "find_sub delim (drop start str) = Some (e - start)" using i by simp
  have "drop start str = take i (drop start str) @ drop i (drop start str)"
    by (rule append_take_drop_id [symmetric])
  also have "drop i (drop start str) = delim @ drop (i + length delim) (drop start str)"
    using d by (metis add.commute append_take_drop_id drop_drop)
  finally show "drop start str
      = take (e - start) (drop start str) @ delim @ drop (e + length delim) str"
    using i(2) by (simp add: add.commute add.left_commute)
qed

definition split_shape :: "string \<Rightarrow> string \<Rightarrow> string list \<Rightarrow> string \<Rightarrow> bool" where
  "split_shape delim s ps t \<longleftrightarrow>
     s = concat (map (\<lambda>p. p @ delim) ps) @ t \<and> find_sub delim t = None
     \<and> (\<forall>p \<in> set ps. find_sub delim p = None)"

lemma split_loop_shape:
  assumes "delim \<noteq> []" and "start \<le> length str"
  shows "\<exists>ps t. split_loop str delim start res = Some (res @ ps @ (if t = [] then [] else [t]))
           \<and> split_shape delim (drop start str) ps t"
  using assms(2)
proof (induction "length str - start" arbitrary: start res rule: less_induct)
  case less
  show ?case
  proof (cases "str_find str delim start")
    case None
    with less.prems have "find_sub delim (drop start str) = None"
      by (simp add: str_find_def)
    then have "split_shape delim (drop start str) [] (drop start str)"
      by (simp add: split_shape_def)
    moreover have "split_loop str delim start res
        = Some (res @ [] @ (if drop start str = [] then [] else [drop start str]))"
      using None by (simp add: split_loop.simps)
    ultimately show ?thesis by blast
  next
    case (Some e)
    note at = str_find_at [OF Some]
    let ?p = "take (e - start) (drop start str)"
    let ?start = "e + length delim"
    have "0 < length delim" using assms(1) by simp
    then have dec: "length str - ?start < length str - start"
      using at(1,2) by linarith
    obtain ps t where
      r: "split_loop str delim ?start (res @ [?p])
            = Some ((res @ [?p]) @ ps @ (if t = [] then [] else [t]))"
      and sh: "split_shape delim (drop ?start str) ps t"
      using less.hyps [OF dec at(2), of "res @ [?p]"] by blast
    have "split_loop str delim start res
            = Some (res @ (?p # ps) @ (if t = [] then [] else [t]))"
      using r Some by (simp add: split_loop.simps [of str delim start res])
    moreover have "split_shape delim (drop start str) (?p # ps) t"
      using sh at(3) find_sub_before [OF at(4) assms(1)] by (simp add: split_shape_def)
    ultimately show ?thesis by blast
  qed
qed

text \<open>
  With a nonempty delimiter \<open>split\<close> returns, and its pieces, each followed by the
  delimiter, and then the rest give the input back; no piece contains the delimiter, and
  only a nonempty rest becomes a last piece (so one trailing delimiter is dropped).
\<close>

lemma split_pieces:
  assumes "delim \<noteq> []"
  shows "\<exists>ps t. split str delim = Some (ps @ (if t = [] then [] else [t]))
           \<and> str = concat (map (\<lambda>p. p @ delim) ps) @ t
           \<and> find_sub delim t = None \<and> list_all (\<lambda>p. find_sub delim p = None) ps"
  using split_loop_shape [OF assms, of 0 str "[]"]
  by (auto simp: split_def split_shape_def list_all_iff)

lemma split_pieces_witness:
  "split ''a,b,'' '','' = Some [''a'', ''b''] \<and>
   (\<exists>ps t. split ''a,b,'' '','' = Some (ps @ (if t = [] then [] else [t]))
      \<and> ''a,b,'' = concat (map (\<lambda>p. p @ '','') ps) @ t
      \<and> find_sub '','' t = None \<and> list_all (\<lambda>p. find_sub '','' p = None) ps)"
proof
  show "split ''a,b,'' '','' = Some [''a'', ''b'']"
    by (simp add: split_def split_loop.simps str_find_def)
  show "\<exists>ps t. split ''a,b,'' '','' = Some (ps @ (if t = [] then [] else [t]))
      \<and> ''a,b,'' = concat (map (\<lambda>p. p @ '','') ps) @ t
      \<and> find_sub '','' t = None \<and> list_all (\<lambda>p. find_sub '','' p = None) ps"
    by (rule split_pieces) simp
qed

lemma split_loop_empty_delim:
  assumes "split_loop str delim start res = Some r"
  shows "\<not> (delim = [] \<and> start \<le> length str)"
proof (rule split_loop.raw_induct
    [where P = "\<lambda>str delim start res r. \<not> (delim = [] \<and> start \<le> length str)", OF _ assms])
  fix f :: "string \<Rightarrow> string \<Rightarrow> nat \<Rightarrow> string list \<Rightarrow> string list option"
    and str delim start res r
  assume IH: "\<And>str delim start res r.
      f str delim start res = Some r \<Longrightarrow> \<not> (delim = [] \<and> start \<le> length str)"
    and eq: "(case str_find str delim start of
        None \<Rightarrow> Some (if start < length str then res @ [drop start str] else res)
      | Some e \<Rightarrow> f str delim (e + length delim) (res @ [take (e - start) (drop start str)]))
        = Some r"
  show "\<not> (delim = [] \<and> start \<le> length str)"
  proof
    assume d: "delim = [] \<and> start \<le> length str"
    then have "str_find str delim start = Some start"
      by (cases "drop start str") (auto simp: str_find_def)
    with eq d have "f str [] start (res @ [[]]) = Some r" by simp
    from IH [OF this] d show False by simp
  qed
qed

text \<open>
  With an empty delimiter the loop of \<open>split\<close> never ends, whatever the text:
  \<open>find\<close> succeeds at \<open>start\<close> each time and \<open>start\<close> never moves.
\<close>

lemma split_empty_delimiter_diverges: "split str [] = None"
  using split_loop_empty_delim [of str "[]" 0 "[]"]
  by (cases "split_loop str [] 0 []") (auto simp: split_def)

subsection \<open>File names\<close>

text \<open>
  Directory and file name give the path back, and so do base name and extension for
  the file name; a path without a slash has directory \<open>.\<close> and is its own file name,
  and a name without a dot has an empty extension.
\<close>

lemma file_path_recompose:
  "p = (if CHR ''/'' \<in> set p then getFilePath p @ ''/'' @ getFileName p else getFileName p)
   \<and> (CHR ''/'' \<in> set p \<or> getFilePath p = ''.'')
   \<and> CHR ''/'' \<notin> set (getFileName p)
   \<and> getFileName p = getFileNameWithoutExt p @
        (if CHR ''.'' \<in> set (getFileName p) then ''.'' @ getFileExt p else [])
   \<and> CHR ''.'' \<notin> set (getFileExt p)"
proof -
  have rec: "s = take i s @ [c] @ drop (Suc i) s" "c \<notin> set (drop (Suc i) s)"
    if "last_of c s = Some i" for c s i
    using last_of_Some [OF that] by (auto simp: id_take_nth_drop)
  have path: "p = (if CHR ''/'' \<in> set p then getFilePath p @ ''/'' @ getFileName p
        else getFileName p) \<and> CHR ''/'' \<notin> set (getFileName p)
        \<and> (CHR ''/'' \<in> set p \<or> getFilePath p = ''.'')"
  proof (cases "last_of (CHR ''/'') p")
    case None
    then show ?thesis using last_of_None [of "CHR ''/''" p]
      by (simp add: getFileName_def getFilePath_def)
  next
    case (Some i)
    then have "CHR ''/'' \<in> set p" by (metis last_of_None option.distinct(1))
    with Some rec [OF Some] show ?thesis by (simp add: getFileName_def getFilePath_def)
  qed
  have ext: "getFileName p = getFileNameWithoutExt p @
        (if CHR ''.'' \<in> set (getFileName p) then ''.'' @ getFileExt p else [])
        \<and> CHR ''.'' \<notin> set (getFileExt p)"
  proof (cases "last_of (CHR ''.'') (getFileName p)")
    case None
    then show ?thesis using last_of_None [of "CHR ''.''" "getFileName p"]
      by (simp add: getFileNameWithoutExt_def getFileExt_def)
  next
    case (Some i)
    then have "CHR ''.'' \<in> set (getFileName p)" by (metis last_of_None option.distinct(1))
    with Some rec [OF Some] show ?thesis
      by (simp add: getFileNameWithoutExt_def getFileExt_def)
  qed
  from path ext show ?thesis by blast
qed

end
