(* ===== verification/MsgBuffer.thy ===== *)
theory MsgBuffer
  imports Prelude
begin

unbundle bit_operations_syntax

text \<open>
  The growable byte buffer of \<open>src/network/base/MsgBuffer.h\<close> and \<open>MsgBuffer.cpp\<close>:
  a vector of bytes with a reader and a writer index. Pointers into the vector are
  indices. An operation whose \<open>assert\<close> fails returns \<open>None\<close>. The second half shows
  that the class implements a byte queue and instantiates the queue interface on it.
\<close>

subsection \<open>State\<close>

record msgbuffer =
  buffer :: bytes
  readerIndex :: nat
  writerIndex :: nat

definition kCheapPrepend :: nat where
  "kCheapPrepend = 8"

definition kInitialSize :: nat where
  "kInitialSize = 1024"

definition kCRLF :: bytes where
  "kCRLF = [13, 10]"

definition new_MsgBuffer :: "nat \<Rightarrow> msgbuffer" where
  "new_MsgBuffer initialSize =
     \<lparr>buffer = replicate (kCheapPrepend + initialSize) 0,
      readerIndex = kCheapPrepend, writerIndex = kCheapPrepend\<rparr>"

definition swap_buffers :: "msgbuffer \<Rightarrow> msgbuffer \<Rightarrow> msgbuffer \<times> msgbuffer" where
  "swap_buffers b rhs =
     (b\<lparr>buffer := buffer rhs, readerIndex := readerIndex rhs, writerIndex := writerIndex rhs\<rparr>,
      rhs\<lparr>buffer := buffer b, readerIndex := readerIndex b, writerIndex := writerIndex b\<rparr>)"

definition readableBytes :: "msgbuffer \<Rightarrow> nat" where
  "readableBytes b = writerIndex b - readerIndex b"

definition writableBytes :: "msgbuffer \<Rightarrow> nat" where
  "writableBytes b = length (buffer b) - writerIndex b"

definition prependableBytes :: "msgbuffer \<Rightarrow> nat" where
  "prependableBytes b = readerIndex b"

text \<open>\<open>peek\<close> is a pointer to the first readable byte: the bytes found from there on.\<close>

definition peek :: "msgbuffer \<Rightarrow> bytes" where
  "peek b = drop (readerIndex b) (buffer b)"

subsection \<open>Searching\<close>

text \<open>Positions are indices into the vector; \<open>None\<close> inside is the null pointer.\<close>

definition findCRLF :: "msgbuffer \<Rightarrow> nat option" where
  "findCRLF b =
     map_option ((+) (readerIndex b)) (find_sub kCRLF (take (readableBytes b) (peek b)))"

definition findCRLF_from :: "msgbuffer \<Rightarrow> nat \<Rightarrow> nat option option" where
  "findCRLF_from b start = do {
     assert_that (readerIndex b \<le> start);
     assert_that (start \<le> writerIndex b);
     Some (map_option ((+) start)
       (find_sub kCRLF (take (writerIndex b - start) (drop start (buffer b)))))
   }"

definition findEOL :: "msgbuffer \<Rightarrow> nat option" where
  "findEOL b =
     map_option ((+) (readerIndex b)) (find_sub [10] (take (readableBytes b) (peek b)))"

definition findEOL_from :: "msgbuffer \<Rightarrow> nat \<Rightarrow> nat option option" where
  "findEOL_from b start = do {
     assert_that (readerIndex b \<le> start);
     assert_that (start \<le> writerIndex b);
     Some (map_option ((+) start)
       (find_sub [10] (take (writerIndex b - start) (drop start (buffer b)))))
   }"

subsection \<open>Retrieving\<close>

definition retrieveAll :: "msgbuffer \<Rightarrow> msgbuffer" where
  "retrieveAll b = b\<lparr>readerIndex := kCheapPrepend, writerIndex := kCheapPrepend\<rparr>"

definition retrieve :: "msgbuffer \<Rightarrow> nat \<Rightarrow> msgbuffer option" where
  "retrieve b len = do {
     assert_that (len \<le> readableBytes b);
     Some (if len < readableBytes b then b\<lparr>readerIndex := readerIndex b + len\<rparr>
           else retrieveAll b)
   }"

definition retrieveUntil :: "msgbuffer \<Rightarrow> nat \<Rightarrow> msgbuffer option" where
  "retrieveUntil b stop = do {
     assert_that (readerIndex b \<le> stop);
     assert_that (stop \<le> writerIndex b);
     retrieve b (stop - readerIndex b)
   }"

definition retrieveInt64 :: "msgbuffer \<Rightarrow> msgbuffer option" where
  "retrieveInt64 b = retrieve b 8"

definition retrieveInt32 :: "msgbuffer \<Rightarrow> msgbuffer option" where
  "retrieveInt32 b = retrieve b 4"

definition retrieveInt16 :: "msgbuffer \<Rightarrow> msgbuffer option" where
  "retrieveInt16 b = retrieve b 2"

definition retrieveInt8 :: "msgbuffer \<Rightarrow> msgbuffer option" where
  "retrieveInt8 b = retrieve b 1"

definition retrieveAsString :: "msgbuffer \<Rightarrow> nat \<Rightarrow> (bytes \<times> msgbuffer) option" where
  "retrieveAsString b len = do {
     assert_that (len \<le> readableBytes b);
     let result = take len (peek b);
     b' \<leftarrow> retrieve b len;
     Some (result, b')
   }"

definition retrieveAllAsString :: "msgbuffer \<Rightarrow> (bytes \<times> msgbuffer) option" where
  "retrieveAllAsString b = retrieveAsString b (readableBytes b)"

text \<open>
  The cast to \<open>int\<close> keeps 32 bits; a negative result, converted back to \<open>size_t\<close>,
  makes the string constructor throw (\<open>None\<close>).
\<close>

definition toStringPiece :: "msgbuffer \<Rightarrow> bytes option" where
  "toStringPiece b =
     (let n = sint (of_nat (readableBytes b) :: 32 word)
      in if n < 0 then None else Some (take (nat n) (peek b)))"

subsection \<open>Writing\<close>

text \<open>\<open>std::vector::resize\<close>.\<close>

definition vec_resize :: "bytes \<Rightarrow> nat \<Rightarrow> bytes" where
  "vec_resize xs n = take n xs @ replicate (n - length xs) 0"

definition makeSpace :: "msgbuffer \<Rightarrow> nat \<Rightarrow> msgbuffer option" where
  "makeSpace b len =
     (if writableBytes b + prependableBytes b < len + kCheapPrepend
      then Some (b\<lparr>buffer := vec_resize (buffer b) (writerIndex b + len)\<rparr>)
      else do {
        assert_that (kCheapPrepend < readerIndex b);
        let readable = readableBytes b;
        let b' = b\<lparr>buffer := overwrite (buffer b) kCheapPrepend (take readable (peek b)),
                   readerIndex := kCheapPrepend,
                   writerIndex := kCheapPrepend + readable\<rparr>;
        assert_that (readable = readableBytes b');
        Some b'
      })"

definition ensureWritableBytes :: "msgbuffer \<Rightarrow> nat \<Rightarrow> msgbuffer option" where
  "ensureWritableBytes b len = do {
     b' \<leftarrow> (if writableBytes b < len then makeSpace b len else Some b);
     assert_that (len \<le> writableBytes b');
     Some b'
   }"

definition hasWritten :: "msgbuffer \<Rightarrow> nat \<Rightarrow> msgbuffer option" where
  "hasWritten b len = do {
     assert_that (len \<le> writableBytes b);
     Some (b\<lparr>writerIndex := writerIndex b + len\<rparr>)
   }"

text \<open>
  A write of the bytes \<open>d\<close> at \<open>beginWrite\<close>, reported by \<open>hasWritten\<close>. If they do not fit, the
  memory behind the vector is overwritten and then the assertion fails.
\<close>

definition write_direct :: "msgbuffer \<Rightarrow> bytes \<Rightarrow> msgbuffer option" where
  "write_direct b d =
     map_option (\<lambda>b1. b\<lparr>buffer := overwrite (buffer b) (writerIndex b) d, writerIndex := writerIndex b1\<rparr>)
       (hasWritten b (length d))"

definition unwrite :: "msgbuffer \<Rightarrow> nat \<Rightarrow> msgbuffer option" where
  "unwrite b len = do {
     assert_that (len \<le> readableBytes b);
     Some (b\<lparr>writerIndex := writerIndex b - len\<rparr>)
   }"

definition append_bytes :: "msgbuffer \<Rightarrow> bytes \<Rightarrow> msgbuffer option" where
  "append_bytes b d = do {
     b' \<leftarrow> ensureWritableBytes b (length d);
     hasWritten (b'\<lparr>buffer := overwrite (buffer b') (writerIndex b') d\<rparr>) (length d)
   }"

definition prepend :: "msgbuffer \<Rightarrow> bytes \<Rightarrow> msgbuffer option" where
  "prepend b d = do {
     assert_that (length d \<le> prependableBytes b);
     let r = readerIndex b - length d;
     Some (b\<lparr>readerIndex := r, buffer := overwrite (buffer b) r d\<rparr>)
   }"

definition shrink :: "msgbuffer \<Rightarrow> nat \<Rightarrow> msgbuffer option" where
  "shrink b reserve = do {
     other \<leftarrow> ensureWritableBytes (new_MsgBuffer kInitialSize) (readableBytes b + reserve);
     piece \<leftarrow> toStringPiece b;
     other' \<leftarrow> append_bytes other piece;
     Some (fst (swap_buffers b other'))
   }"

subsection \<open>Integers in network byte order\<close>

text \<open>
  \<open>to_mem\<close> is the memory image of an integer on the little-endian hosts the program
  is built for and \<open>of_mem\<close> reads one back (the two directions of \<open>memcpy\<close>);
  \<open>htobe\<close> is the byte swap of \<open>htobe16\<close>, \<open>htobe32\<close> and \<open>htobe64\<close> there. A signed
  integer is its bit pattern.
\<close>

definition to_mem :: "'a::len word \<Rightarrow> bytes" where
  "to_mem x = map (\<lambda>i. ucast (drop_bit (8 * i) x)) [0..<LENGTH('a) div 8]"

fun of_mem :: "bytes \<Rightarrow> 'a::len word" where
  "of_mem [] = 0"
| "of_mem (b # bs) = ucast b OR push_bit 8 (of_mem bs)"

definition htobe :: "'a::len word \<Rightarrow> 'a word" where
  "htobe x = of_mem (rev (to_mem x))"

definition appendInt64 :: "msgbuffer \<Rightarrow> u64 \<Rightarrow> msgbuffer option" where
  "appendInt64 b x = append_bytes b (to_mem (htobe x))"

definition appendInt32 :: "msgbuffer \<Rightarrow> u32 \<Rightarrow> msgbuffer option" where
  "appendInt32 b x = append_bytes b (to_mem (htobe x))"

definition appendInt16 :: "msgbuffer \<Rightarrow> u16 \<Rightarrow> msgbuffer option" where
  "appendInt16 b x = append_bytes b (to_mem (htobe x))"

definition appendInt8 :: "msgbuffer \<Rightarrow> byte \<Rightarrow> msgbuffer option" where
  "appendInt8 b x = append_bytes b [x]"

definition peekInt64 :: "msgbuffer \<Rightarrow> u64 option" where
  "peekInt64 b = do {
     assert_that (8 \<le> readableBytes b);
     Some (htobe (of_mem (take 8 (peek b))))
   }"

definition peekInt32 :: "msgbuffer \<Rightarrow> u32 option" where
  "peekInt32 b = do {
     assert_that (4 \<le> readableBytes b);
     Some (htobe (of_mem (take 4 (peek b))))
   }"

definition peekInt16 :: "msgbuffer \<Rightarrow> u16 option" where
  "peekInt16 b = do {
     assert_that (2 \<le> readableBytes b);
     Some (htobe (of_mem (take 2 (peek b))))
   }"

definition peekInt8 :: "msgbuffer \<Rightarrow> byte option" where
  "peekInt8 b = do {
     assert_that (1 \<le> readableBytes b);
     Some (hd (peek b))
   }"

definition readInt64 :: "msgbuffer \<Rightarrow> (u64 \<times> msgbuffer) option" where
  "readInt64 b = do { result \<leftarrow> peekInt64 b; b' \<leftarrow> retrieveInt64 b; Some (result, b') }"

definition readInt32 :: "msgbuffer \<Rightarrow> (u32 \<times> msgbuffer) option" where
  "readInt32 b = do { result \<leftarrow> peekInt32 b; b' \<leftarrow> retrieveInt32 b; Some (result, b') }"

definition readInt16 :: "msgbuffer \<Rightarrow> (u16 \<times> msgbuffer) option" where
  "readInt16 b = do { result \<leftarrow> peekInt16 b; b' \<leftarrow> retrieveInt16 b; Some (result, b') }"

definition readInt8 :: "msgbuffer \<Rightarrow> (byte \<times> msgbuffer) option" where
  "readInt8 b = do { result \<leftarrow> peekInt8 b; b' \<leftarrow> retrieveInt8 b; Some (result, b') }"

definition prependInt64 :: "msgbuffer \<Rightarrow> u64 \<Rightarrow> msgbuffer option" where
  "prependInt64 b x = prepend b (to_mem (htobe x))"

definition prependInt32 :: "msgbuffer \<Rightarrow> u32 \<Rightarrow> msgbuffer option" where
  "prependInt32 b x = prepend b (to_mem (htobe x))"

definition prependInt16 :: "msgbuffer \<Rightarrow> u16 \<Rightarrow> msgbuffer option" where
  "prependInt16 b x = prepend b (to_mem (htobe x))"

definition prependInt8 :: "msgbuffer \<Rightarrow> byte \<Rightarrow> msgbuffer option" where
  "prependInt8 b x = prepend b [x]"

subsection \<open>Reading from a descriptor\<close>

text \<open>
  \<open>readv\<close> is a parameter: given the number of bytes offered it fails with an error
  number or delivers bytes. The first \<open>writable\<close> of them land in the buffer, the rest
  in \<open>extrabuf\<close>. The result is the return value, the saved error number if one is
  saved, and the buffer.
\<close>

definition extrabuf_size :: nat where
  "extrabuf_size = 65536"

text \<open>The space described by the iovec array: the side buffer only joins small buffers.\<close>

definition readFd_space :: "msgbuffer \<Rightarrow> nat" where
  "readFd_space b =
     (if writableBytes b < extrabuf_size then writableBytes b + extrabuf_size
      else writableBytes b)"

definition readFd ::
    "(nat \<Rightarrow> int + bytes) \<Rightarrow> msgbuffer \<Rightarrow> (int \<times> int option \<times> msgbuffer) option" where
  "readFd readv b =
     (let writable = writableBytes b
      in case readv (readFd_space b) of
           Inl err \<Rightarrow> Some (-1, Some err, b)
         | Inr d \<Rightarrow>
             let n = length d;
                 b' = b\<lparr>buffer := overwrite (buffer b) (writerIndex b) (take writable d)\<rparr>
             in if n \<le> writable
                then Some (int n, None, b'\<lparr>writerIndex := writerIndex b + n\<rparr>)
                else do {
                  b'' \<leftarrow> append_bytes (b'\<lparr>writerIndex := length (buffer b')\<rparr>) (drop writable d);
                  Some (int n, None, b'')
                })"

subsection \<open>The queue interface\<close>

text \<open>
  What the users of a byte buffer rely on: bytes go in at the back, come out at the
  front, and asking for more than there is aborts. The lemmas of the locale are about
  any implementation.
\<close>

locale byte_queue =
  fixes inv :: "'b \<Rightarrow> bool"
    and content :: "'b \<Rightarrow> bytes"
    and put :: "'b \<Rightarrow> bytes \<Rightarrow> 'b option"
    and consume :: "'b \<Rightarrow> nat \<Rightarrow> 'b option"
  assumes put_ok: "inv b \<Longrightarrow> \<exists>b'. put b d = Some b' \<and> inv b' \<and> content b' = content b @ d"
    and consume_ok: "inv b \<Longrightarrow> n \<le> length (content b) \<Longrightarrow>
      \<exists>b'. consume b n = Some b' \<and> inv b' \<and> content b' = drop n (content b)"
    and consume_abort: "inv b \<Longrightarrow> length (content b) < n \<Longrightarrow> consume b n = None"
begin

fun put_all :: "'b \<Rightarrow> bytes list \<Rightarrow> 'b option" where
  "put_all b [] = Some b"
| "put_all b (d # ds) = (case put b d of None \<Rightarrow> None | Some b' \<Rightarrow> put_all b' ds)"

lemma put_all_ok:
  "inv b \<Longrightarrow> \<exists>b'. put_all b ds = Some b' \<and> inv b' \<and> content b' = content b @ concat ds"
proof (induction ds arbitrary: b)
  case Nil
  then show ?case by simp
next
  case (Cons d ds)
  from put_ok [OF Cons.prems, of d] obtain b1
    where b1: "put b d = Some b1" "inv b1" "content b1 = content b @ d" by blast
  from Cons.IH [OF b1(2)] b1 show ?case by auto
qed

text \<open>The content does not depend on how a stream was cut into pieces.\<close>

lemma segmentation:
  assumes "inv b" and "inv c" and "content b = content c" and "concat ds = concat es"
    and "put_all b ds = Some b'" and "put_all c es = Some c'"
  shows "content b' = content c'"
  using put_all_ok [OF assms(1), of ds] put_all_ok [OF assms(2), of es] assms(3-6) by auto

text \<open>A complete frame at the front can be taken off, and what follows it is left.\<close>

lemma frame_first:
  assumes "inv b" and "content b = f @ r"
  shows "\<exists>b'. consume b (length f) = Some b' \<and> inv b' \<and> content b' = r"
  using consume_ok [OF assms(1), of "length f"] assms(2) by auto

lemma put_consume:
  assumes "inv b"
  shows "\<exists>b1 b2. put b d = Some b1 \<and> consume b1 (length (content b)) = Some b2
           \<and> inv b2 \<and> content b2 = d"
proof -
  from put_ok [OF assms] obtain b1
    where "put b d = Some b1" "inv b1" "content b1 = content b @ d" by blast
  with frame_first [of b1 "content b" d] show ?thesis by blast
qed

end

subsection \<open>The class implements the interface\<close>

definition buf_inv :: "msgbuffer \<Rightarrow> bool" where
  "buf_inv b \<longleftrightarrow> readerIndex b \<le> writerIndex b \<and> writerIndex b \<le> length (buffer b)"

definition content :: "msgbuffer \<Rightarrow> bytes" where
  "content b = take (readableBytes b) (peek b)"

lemmas buf_defs = readableBytes_def writableBytes_def prependableBytes_def peek_def

lemma new_MsgBuffer_inv [simp]: "buf_inv (new_MsgBuffer n)" "content (new_MsgBuffer n) = []"
  by (simp_all add: buf_inv_def new_MsgBuffer_def content_def buf_defs)

lemma length_content [simp]: "buf_inv b \<Longrightarrow> length (content b) = readableBytes b"
  by (auto simp: buf_inv_def content_def buf_defs)

lemma content_update:
  "content (b\<lparr>buffer := bs, readerIndex := r, writerIndex := w\<rparr>) = take (w - r) (drop r bs)"
  by (simp add: content_def buf_defs)

lemma take_peek:
  "n \<le> readableBytes b \<Longrightarrow> take n (peek b) = take n (content b)"
  by (simp add: content_def min_absorb1)

lemma retrieveAll_inv:
  "buf_inv b \<Longrightarrow> kCheapPrepend \<le> length (buffer b) \<Longrightarrow>
     buf_inv (retrieveAll b) \<and> content (retrieveAll b) = []"
  by (simp add: buf_inv_def retrieveAll_def content_def buf_defs)

text \<open>The vector never becomes shorter than the prepend area.\<close>

definition buf_ok :: "msgbuffer \<Rightarrow> bool" where
  "buf_ok b \<longleftrightarrow> buf_inv b \<and> kCheapPrepend \<le> length (buffer b)"

lemma buf_okD [simp]: "buf_ok b \<Longrightarrow> buf_inv b"
  by (simp add: buf_ok_def)

lemma new_MsgBuffer_ok [simp]: "buf_ok (new_MsgBuffer n)"
  by (simp add: buf_ok_def) (simp add: new_MsgBuffer_def)

lemma retrieve_ok:
  assumes "buf_ok b" and "n \<le> readableBytes b"
  shows "\<exists>b'. retrieve b n = Some b' \<and> buf_ok b' \<and> content b' = drop n (content b)"
proof (cases "n < readableBytes b")
  case True
  let ?b = "b\<lparr>readerIndex := readerIndex b + n\<rparr>"
  have "buf_ok ?b" using assms True by (auto simp: buf_ok_def buf_inv_def buf_defs)
  moreover have "content ?b = drop n (content b)"
    by (simp add: content_def buf_defs drop_take add.commute)
  ultimately show ?thesis using True assms(2) by (simp add: retrieve_def)
next
  case False
  with assms(2) have "n = readableBytes b" by simp
  with assms(1) retrieveAll_inv [of b] show ?thesis
    by (simp add: retrieve_def buf_ok_def retrieveAll_def)
qed

lemma retrieve_abort: "readableBytes b < n \<Longrightarrow> retrieve b n = None"
  by (simp add: retrieve_def)

lemma vec_resize_grow:
  "length xs \<le> n \<Longrightarrow> vec_resize xs n = xs @ replicate (n - length xs) 0"
  by (simp add: vec_resize_def)

text \<open>
  Making space: growing when the free space at both ends is too small, moving the
  content to the front otherwise. The \<open>assert\<close> on the reader index never fails.
\<close>

lemma makeSpace_ok:
  assumes "buf_ok b" and "writableBytes b < len"
  shows "\<exists>b'. makeSpace b len = Some b' \<and> buf_ok b' \<and> content b' = content b
           \<and> len \<le> writableBytes b'"
proof (cases "writableBytes b + prependableBytes b < len + kCheapPrepend")
  case True
  let ?b = "b\<lparr>buffer := vec_resize (buffer b) (writerIndex b + len)\<rparr>"
  have buf: "buffer ?b = buffer b @ replicate (writerIndex b + len - length (buffer b)) 0"
    using assms(2) by (simp add: vec_resize_grow buf_defs)
  with assms have "buf_ok ?b" "content ?b = content b" "len \<le> writableBytes ?b"
    by (auto simp: buf_ok_def buf_inv_def content_def buf_defs)
  with True show ?thesis by (simp add: makeSpace_def)
next
  case False
  let ?r = "readableBytes b"
  let ?b = "b\<lparr>buffer := overwrite (buffer b) kCheapPrepend (content b),
              readerIndex := kCheapPrepend, writerIndex := kCheapPrepend + ?r\<rparr>"
  from assms have inv: "buf_inv b" and len8: "kCheapPrepend \<le> length (buffer b)"
    by (simp_all add: buf_ok_def)
  from False assms(2) have r: "kCheapPrepend < readerIndex b"
    by (simp add: buf_defs)
  have lenb: "length (content b) = ?r" using inv by simp
  have fits: "kCheapPrepend + ?r \<le> length (buffer b)"
    using inv r unfolding buf_inv_def readableBytes_def by linarith
  have lb: "length (buffer ?b) = length (buffer b)"
    using fits lenb by simp
  have "buf_ok ?b" using fits len8 lb by (simp add: buf_ok_def buf_inv_def)
  moreover have "content ?b = content b"
    using slice_overwrite [OF len8, of "content b"] lenb by (simp add: content_update)
  moreover have "len \<le> writableBytes ?b"
    using False r lb inv by (simp add: buf_defs buf_inv_def)
  moreover have "makeSpace b len = Some ?b"
    using False r by (simp add: makeSpace_def Let_def) (simp add: content_def buf_defs)
  ultimately show ?thesis by blast
qed

lemma ensureWritableBytes_ok:
  assumes "buf_ok b"
  shows "\<exists>b'. ensureWritableBytes b len = Some b' \<and> buf_ok b' \<and> content b' = content b
           \<and> len \<le> writableBytes b'"
proof (cases "writableBytes b < len")
  case True
  from makeSpace_ok [OF assms True] obtain b'
    where "makeSpace b len = Some b'" "buf_ok b'" "content b' = content b"
      "len \<le> writableBytes b'" by blast
  with True show ?thesis by (simp add: ensureWritableBytes_def)
next
  case False
  with assms show ?thesis by (simp add: ensureWritableBytes_def)
qed

lemma write_at_end:
  assumes "buf_ok b" and "length d \<le> writableBytes b"
  defines "b' \<equiv> b\<lparr>buffer := overwrite (buffer b) (writerIndex b) d,
                     writerIndex := writerIndex b + length d\<rparr>"
  shows "buf_ok b' \<and> content b' = content b @ d"
proof
  from assms have i: "readerIndex b \<le> writerIndex b" "writerIndex b + length d \<le> length (buffer b)"
      "kCheapPrepend \<le> length (buffer b)"
    by (auto simp: buf_ok_def buf_inv_def buf_defs)
  then show "buf_ok b'" by (simp add: b'_def buf_ok_def buf_inv_def)
  have "content b' = take (writerIndex b - readerIndex b + length d)
          (drop (readerIndex b) (take (writerIndex b) (buffer b)) @ d
             @ drop (writerIndex b + length d) (buffer b))"
    using i by (simp add: b'_def content_def buf_defs overwrite_def add.commute)
  also have "\<dots> = content b @ d"
    using i by (simp add: content_def buf_defs drop_take)
  finally show "content b' = content b @ d" .
qed

lemma write_direct_ok:
  assumes "buf_ok b" and "length d \<le> writableBytes b"
  shows "\<exists>b'. write_direct b d = Some b' \<and> buf_ok b' \<and> content b' = content b @ d
     \<and> b' = b\<lparr>buffer := overwrite (buffer b) (writerIndex b) d, writerIndex := writerIndex b + length d\<rparr>"
  using write_at_end [OF assms] assms(2) by (simp add: write_direct_def hasWritten_def)

lemma append_bytes_ok:
  assumes "buf_ok b"
  shows "\<exists>b'. append_bytes b d = Some b' \<and> buf_ok b' \<and> content b' = content b @ d"
proof -
  from ensureWritableBytes_ok [OF assms, of "length d"] obtain b1
    where b1: "ensureWritableBytes b (length d) = Some b1" "buf_ok b1" "content b1 = content b"
      "length d \<le> writableBytes b1" by blast
  then have "length d \<le> writableBytes (b1\<lparr>buffer := overwrite (buffer b1) (writerIndex b1) d\<rparr>)"
    by (auto simp: buf_ok_def buf_inv_def writableBytes_def)
  with write_at_end [OF b1(2,4)] b1(1,3) show ?thesis
    by (simp add: append_bytes_def hasWritten_def)
qed

interpretation mb: byte_queue buf_ok content append_bytes retrieve
  by unfold_locales (auto simp: append_bytes_ok retrieve_ok retrieve_abort)


subsection \<open>Byte order\<close>

lemma length_to_mem: "length (to_mem (x :: 'a::len word)) = LENGTH('a) div 8"
  by (simp add: to_mem_def)

lemma bit_of_mem:
  "bit (of_mem bs :: 'a::len word) n =
     (n < LENGTH('a) \<and> n div 8 < length bs \<and> bit (bs ! (n div 8)) (n mod 8))"
proof (induction bs arbitrary: n)
  case Nil
  then show ?case by simp
next
  case (Cons b bs)
  show ?case
  proof (cases "n < 8")
    case True
    then show ?thesis by (auto simp: bit_simps)
  next
    case False
    then have "\<not> bit b n" by (auto dest: bit_imp_le_length)
    with False Cons [of "n - 8"] show ?thesis
      by (auto simp: bit_simps nth_Cons' le_div_geq le_mod_geq)
  qed
qed

lemma bit_to_mem:
  "i < LENGTH('a) div 8 \<Longrightarrow> bit (to_mem (x :: 'a::len word) ! i) k = (k < 8 \<and> bit x (8 * i + k))"
  by (auto simp: to_mem_def bit_simps add.commute)

lemma of_mem_to_mem:
  assumes "8 dvd LENGTH('a)"
  shows "of_mem (to_mem x) = (x :: 'a::len word)"
proof (rule bit_word_eqI)
  fix n
  assume n: "n < LENGTH('a)"
  with assms have "n div 8 < LENGTH('a) div 8"
    by (metis dvd_div_mult_self less_mult_imp_div_less)
  with n show "bit (of_mem (to_mem x) :: 'a word) n = bit x n"
    by (simp add: bit_of_mem bit_to_mem length_to_mem)
qed

lemma to_mem_of_mem:
  assumes "8 * length bs = LENGTH('a)"
  shows "to_mem (of_mem bs :: 'a::len word) = bs"
proof (rule nth_equalityI)
  have len: "LENGTH('a) div 8 = length bs" using assms by presburger
  then show "length (to_mem (of_mem bs :: 'a word)) = length bs"
    by (simp add: length_to_mem)
  fix i
  assume "i < length (to_mem (of_mem bs :: 'a word))"
  then have i: "i < length bs" by (simp add: len length_to_mem)
  show "to_mem (of_mem bs :: 'a word) ! i = bs ! i"
  proof (rule bit_word_eqI)
    fix k
    assume "k < LENGTH(8)"
    with i assms show "bit (to_mem (of_mem bs :: 'a word) ! i) k = bit (bs ! i) k"
      by (simp add: bit_to_mem bit_of_mem len)
  qed
qed

text \<open>The bytes on the wire are the memory image reversed: most significant byte first.\<close>

lemma wire_order:
  assumes "8 dvd LENGTH('a)"
  shows "to_mem (htobe (x :: 'a::len word)) = rev (to_mem x)"
  using assms by (simp add: htobe_def to_mem_of_mem length_to_mem)

lemma htobe_wire:
  assumes "8 dvd LENGTH('a)"
  shows "htobe (of_mem (rev (to_mem x))) = (x :: 'a::len word)"
  using assms by (simp add: htobe_def to_mem_of_mem of_mem_to_mem length_to_mem)


subsection \<open>Properties\<close>

text \<open>
  Appending to a well-formed buffer never fails an assertion, whether there is room,
  the content has to be moved to the front or the vector has to grow; the readable bytes
  become the old ones followed by the new ones, and the buffer stays well-formed.
\<close>

lemma append_extends_content:
  assumes "buf_ok b"
  shows "\<exists>b'. append_bytes b d = Some b' \<and> buf_ok b' \<and> content b' = content b @ d"
  by (rule mb.put_ok [OF assms])

lemma append_extends_content_witness:
  "\<exists>b'. append_bytes (new_MsgBuffer 2) [1, 2, 3] = Some b' \<and> buf_ok b' \<and> content b' = [1, 2, 3]"
  using append_extends_content [of "new_MsgBuffer 2" "[1, 2, 3]"] by simp

lemma retrieveAsString_ok:
  assumes "buf_ok b" and "content b = f @ r"
  shows "\<exists>b'. retrieveAsString b (length f) = Some (f, b') \<and> buf_ok b' \<and> content b' = r"
proof -
  have le: "length f \<le> readableBytes b"
    using length_content [of b] assms by simp
  from mb.frame_first [OF assms] obtain b'
    where "retrieve b (length f) = Some b'" "buf_ok b'" "content b' = r" by blast
  with le assms(2) show ?thesis by (simp add: retrieveAsString_def take_peek)
qed

text \<open>
  \<open>retrieveAsString\<close> of a length that is available returns exactly the first bytes
  of the content and leaves the rest; with more bytes than are readable it aborts.
\<close>

lemma retrieveAsString_splits:
  assumes "buf_ok b"
  shows "if n \<le> readableBytes b
         then \<exists>b'. retrieveAsString b n = Some (take n (content b), b') \<and> buf_ok b'
                \<and> content b' = drop n (content b)
         else retrieveAsString b n = None"
proof (cases "n \<le> readableBytes b")
  case True
  with assms have "length (take n (content b)) = n" by (simp add: min_absorb2)
  with True retrieveAsString_ok [OF assms, of "take n (content b)" "drop n (content b)"]
  show ?thesis by simp
next
  case False
  then show ?thesis by (simp add: retrieveAsString_def)
qed

definition two_bytes :: msgbuffer where
  "two_bytes = \<lparr>buffer = replicate 8 0 @ [7, 9], readerIndex = 8, writerIndex = 10\<rparr>"

lemma two_bytes [simp]: "buf_ok two_bytes" "content two_bytes = [7, 9]"
    "readableBytes two_bytes = 2"
  by (simp_all add: two_bytes_def buf_ok_def buf_inv_def content_def buf_defs kCheapPrepend_def)

lemma retrieveAsString_splits_witness:
  "(\<exists>b'. retrieveAsString two_bytes 1 = Some ([7], b') \<and> buf_ok b' \<and> content b' = [9])
   \<and> retrieveAsString two_bytes 3 = None"
  using retrieveAsString_splits [of two_bytes 1] retrieveAsString_splits [of two_bytes 3]
  by simp

text \<open>Reading an integer of any width off the front of the content.\<close>

lemma retrieve_prefix:
  assumes "buf_ok b" and "content b = f @ r"
  shows "length f \<le> readableBytes b" and "take (length f) (peek b) = f"
    and "\<exists>b'. retrieve b (length f) = Some b' \<and> buf_ok b' \<and> content b' = r"
proof -
  show le: "length f \<le> readableBytes b"
    using length_content [of b] assms by simp
  show "take (length f) (peek b) = f"
    using le assms(2) by (simp add: take_peek)
  show "\<exists>b'. retrieve b (length f) = Some b' \<and> buf_ok b' \<and> content b' = r"
    by (rule mb.frame_first [OF assms])
qed

lemma readInt64_ok:
  assumes "buf_ok b" and "content b = rev (to_mem x) @ r"
  shows "\<exists>b'. readInt64 b = Some (x, b') \<and> buf_ok b' \<and> content b' = r"
  using retrieve_prefix [OF assms]
  by (auto simp: readInt64_def peekInt64_def retrieveInt64_def length_to_mem htobe_wire)

lemma readInt32_ok:
  assumes "buf_ok b" and "content b = rev (to_mem x) @ r"
  shows "\<exists>b'. readInt32 b = Some (x, b') \<and> buf_ok b' \<and> content b' = r"
  using retrieve_prefix [OF assms]
  by (auto simp: readInt32_def peekInt32_def retrieveInt32_def length_to_mem htobe_wire)

lemma readInt16_ok:
  assumes "buf_ok b" and "content b = rev (to_mem x) @ r"
  shows "\<exists>b'. readInt16 b = Some (x, b') \<and> buf_ok b' \<and> content b' = r"
  using retrieve_prefix [OF assms]
  by (auto simp: readInt16_def peekInt16_def retrieveInt16_def length_to_mem htobe_wire)

lemma readInt8_ok:
  assumes "buf_ok b" and "content b = x # r"
  shows "\<exists>b'. readInt8 b = Some (x, b') \<and> buf_ok b' \<and> content b' = r"
proof -
  have "content b = [x] @ r" using assms(2) by simp
  note p = retrieve_prefix [OF assms(1) this]
  have "hd (peek b) = x" using p(2) by (cases "peek b") auto
  with p show ?thesis by (auto simp: readInt8_def peekInt8_def retrieveInt8_def)
qed

lemma append_bind:
  assumes "buf_ok b" and "\<And>b'. buf_ok b' \<Longrightarrow> content b' = content b @ d \<Longrightarrow> f b' = r"
  shows "append_bytes b d \<bind> f = r"
  using append_bytes_ok [OF assms(1), of d] assms(2) by auto

text \<open>
  C37. Integers of all four widths appended to an empty buffer are read back in order with
  their values, the buffer is empty again, and what is stored in between is each
  integer's bytes, most significant first (network order).
\<close>

theorem integers_roundtrip:
  assumes "buf_ok b" and "content b = []"
  shows "do { b1 \<leftarrow> appendInt64 b w; b2 \<leftarrow> appendInt32 b1 x;
              b3 \<leftarrow> appendInt16 b2 y; b4 \<leftarrow> appendInt8 b3 z;
              (w', c1) \<leftarrow> readInt64 b4; (x', c2) \<leftarrow> readInt32 c1;
              (y', c3) \<leftarrow> readInt16 c2; (z', c4) \<leftarrow> readInt8 c3;
              Some (content b4, (w', x', y', z'), content c4) }
         = Some (rev (to_mem w) @ rev (to_mem x) @ rev (to_mem y) @ [z], (w, x, y, z), [])"
  unfolding appendInt64_def appendInt32_def appendInt16_def appendInt8_def
proof (rule append_bind [OF assms(1)], rule append_bind, assumption,
       rule append_bind, assumption, rule append_bind, assumption)
  fix b1 b2 b3 b4
  assume c: "content b1 = content b @ to_mem (htobe w)"
      "content b2 = content b1 @ to_mem (htobe x)"
      "content b3 = content b2 @ to_mem (htobe y)" "content b4 = content b3 @ [z]"
    and ok: "buf_ok b4"
  have c4: "content b4 = rev (to_mem w) @ rev (to_mem x) @ rev (to_mem y) @ [z]"
    using c assms(2) by (simp add: wire_order)
  from readInt64_ok [OF ok c4] obtain c1
    where c1: "readInt64 b4 = Some (w, c1)" "buf_ok c1"
      "content c1 = rev (to_mem x) @ rev (to_mem y) @ [z]" by blast
  from readInt32_ok [OF c1(2,3)] obtain c2
    where c2: "readInt32 c1 = Some (x, c2)" "buf_ok c2" "content c2 = rev (to_mem y) @ [z]"
    by blast
  from readInt16_ok [OF c2(2,3)] obtain c3
    where c3: "readInt16 c2 = Some (y, c3)" "buf_ok c3" "content c3 = [z]" by blast
  from readInt8_ok [OF c3(2,3)] obtain c4'
    where "readInt8 c3 = Some (z, c4')" "content c4' = []" by blast
  with c4 c1(1) c2(1) c3(1)
  show "readInt64 b4 \<bind> (\<lambda>(w', c1). readInt32 c1 \<bind> (\<lambda>(x', c2). readInt16 c2 \<bind>
          (\<lambda>(y', c3). readInt8 c3 \<bind>
          (\<lambda>(z', c4). Some (content b4, (w', x', y', z'), content c4)))))
        = Some (rev (to_mem w) @ rev (to_mem x) @ rev (to_mem y) @ [z], (w, x, y, z), [])"
    by simp
qed

theorem integers_roundtrip_witness:
  "do { b1 \<leftarrow> appendInt64 (new_MsgBuffer 4) 1; b2 \<leftarrow> appendInt32 b1 258;
        b3 \<leftarrow> appendInt16 b2 3; b4 \<leftarrow> appendInt8 b3 255;
        (w', c1) \<leftarrow> readInt64 b4; (x', c2) \<leftarrow> readInt32 c1;
        (y', c3) \<leftarrow> readInt16 c2; (z', c4) \<leftarrow> readInt8 c3;
        Some (content b4, (w', x', y', z'), content c4) }
   = Some ([0, 0, 0, 0, 0, 0, 0, 1, 0, 0, 1, 2, 0, 3, 255], (1, 258, 3, 255), [])"
  unfolding integers_roundtrip [of "new_MsgBuffer 4" 1 258 3 255,
      OF new_MsgBuffer_ok new_MsgBuffer_inv(2)]
  by (simp add: to_mem_def upt_rec)

lemma prepend_ok:
  assumes "buf_ok b" and "length d \<le> prependableBytes b"
  shows "\<exists>b'. prepend b d = Some b' \<and> buf_ok b' \<and> content b' = d @ content b"
proof -
  let ?r = "readerIndex b - length d"
  let ?b = "b\<lparr>readerIndex := ?r, buffer := overwrite (buffer b) ?r d\<rparr>"
  from assms have i: "readerIndex b \<le> writerIndex b" "writerIndex b \<le> length (buffer b)"
      "kCheapPrepend \<le> length (buffer b)" "length d \<le> readerIndex b"
    by (auto simp: buf_ok_def buf_inv_def buf_defs)
  then have "buf_ok ?b" by (simp add: buf_ok_def buf_inv_def)
  moreover have "content ?b = d @ content b"
    using i by (simp add: content_def buf_defs overwrite_def)
  ultimately show ?thesis using assms(2) by (simp add: prepend_def Let_def)
qed

text \<open>
  Prepending a 64-bit integer puts its bytes, most significant first, in front of the
  unchanged content, and reading it back gives the integer and the old content; when
  fewer than 8 bytes are free before the reader index it aborts.
\<close>

lemma prependInt64_roundtrip:
  assumes "buf_ok b"
  shows "if 8 \<le> readerIndex b
         then \<exists>b1 b2. prependInt64 b x = Some b1 \<and> content b1 = rev (to_mem x) @ content b
                \<and> readInt64 b1 = Some (x, b2) \<and> buf_ok b2 \<and> content b2 = content b
         else prependInt64 b x = None"
proof (cases "8 \<le> readerIndex b")
  case True
  then have "length (to_mem (htobe x)) \<le> prependableBytes b"
    by (simp add: length_to_mem prependableBytes_def)
  from prepend_ok [OF assms this] obtain b1
    where b1: "prependInt64 b x = Some b1" "buf_ok b1" "content b1 = rev (to_mem x) @ content b"
    by (auto simp: prependInt64_def wire_order)
  from readInt64_ok [OF b1(2,3)] b1 True show ?thesis by auto
next
  case False
  then show ?thesis
    by (simp add: prependInt64_def prepend_def length_to_mem prependableBytes_def)
qed

lemma readFd_data:
  assumes "buf_ok b" and "readv (readFd_space b) = Inr d"
  shows "\<exists>b'. readFd readv b = Some (int (length d), None, b') \<and> buf_ok b'
          \<and> content b' = content b @ d"
proof (cases "length d \<le> writableBytes b")
  case True
  with assms(2) write_at_end [OF assms(1) True] show ?thesis
    by (simp add: readFd_def Let_def)
next
  case False
  let ?d1 = "take (writableBytes b) d"
  let ?b1 = "b\<lparr>buffer := overwrite (buffer b) (writerIndex b) ?d1,
                writerIndex := writerIndex b + length ?d1\<rparr>"
  have b1: "buf_ok ?b1 \<and> content ?b1 = content b @ ?d1"
    by (rule write_at_end [OF assms(1)]) simp
  from mb.put_ok [of ?b1 "drop (writableBytes b) d"] b1 obtain b2
    where b2: "append_bytes ?b1 (drop (writableBytes b) d) = Some b2" "buf_ok b2" "content b2 = content b @ d"
    by auto
  have end_eq: "length (overwrite (buffer b) (writerIndex b) ?d1) = writerIndex b + length ?d1"
    using False assms(1) by (simp add: buf_ok_def buf_inv_def writableBytes_def)
  with b2 assms(2) False show ?thesis
    by (simp add: readFd_def Let_def)
qed

text \<open>
  \<open>readFd\<close> loses no byte: whatever \<open>readv\<close> delivers is appended to the
  content, also the part that went to the side buffer, and the return value is the number
  of bytes; on an error the buffer is unchanged, -1 is returned and the error number is
  saved.
\<close>

lemma readFd_appends:
  assumes "buf_ok b"
  shows "case readv (readFd_space b) of
           Inl err \<Rightarrow> readFd readv b = Some (-1, Some err, b)
         | Inr d \<Rightarrow> \<exists>b'. readFd readv b = Some (int (length d), None, b') \<and> buf_ok b'
                      \<and> content b' = content b @ d"
proof (cases "readv (readFd_space b)")
  case (Inl err)
  then show ?thesis by (simp add: readFd_def Let_def)
next
  case (Inr d)
  with readFd_data [of b readv d] assms show ?thesis by simp
qed

lemma readFd_appends_witness:
  "(\<exists>b'. readFd (\<lambda>n. Inr [4, 5]) two_bytes = Some (2, None, b') \<and> content b' = [7, 9, 4, 5])
   \<and> readFd (\<lambda>n. Inl 11) two_bytes = Some (-1, Some 11, two_bytes)"
  using readFd_appends [of two_bytes "\<lambda>n. Inr [4, 5]"]
    readFd_appends [of two_bytes "\<lambda>n. Inl 11"] by auto

text \<open>
  \<open>shrink\<close> keeps the content: the replacement vector holds exactly the readable
  bytes and leaves room for \<open>reserve\<close> more. (The cast to \<open>int\<close> in
  \<open>toStringPiece\<close> limits this to contents below 2 GiB.)
\<close>

lemma shrink_keeps_content:
  assumes "buf_ok b" and "readableBytes b < 2 ^ 31"
  shows "\<exists>b'. shrink b reserve = Some b' \<and> buf_ok b' \<and> content b' = content b"
proof -
  have piece: "toStringPiece b = Some (content b)"
  proof -
    have "sint (of_nat (readableBytes b) :: 32 word) = int (readableBytes b)"
      using assms(2) by (simp add: signed_of_nat signed_take_bit_int_eq_self)
    then show ?thesis by (simp add: toStringPiece_def Let_def content_def)
  qed
  from ensureWritableBytes_ok [of "new_MsgBuffer kInitialSize" "readableBytes b + reserve"]
  obtain o1 where o1: "ensureWritableBytes (new_MsgBuffer kInitialSize)
        (readableBytes b + reserve) = Some o1" "buf_ok o1" "content o1 = []" by auto
  from mb.put_ok [OF o1(2), of "content b"] o1(3) obtain o2
    where o2: "append_bytes o1 (content b) = Some o2" "buf_ok o2" "content o2 = content b" by auto
  have "fst (swap_buffers b o2) = o2" by (cases b; cases o2) (simp add: swap_buffers_def)
  with piece o1(1) o2 show ?thesis by (simp add: shrink_def)
qed

lemma shrink_keeps_content_witness:
  "\<exists>b'. shrink two_bytes 16 = Some b' \<and> buf_ok b' \<and> content b' = [7, 9]"
  using shrink_keeps_content [of two_bytes 16] by simp

text \<open>
  \<open>findCRLF\<close> finds the first line end of the content: if it returns a position,
  the content up to it has no line end, and retrieving up to it leaves the content that
  starts with the line end; if it returns null there is no line end in the content.
\<close>

lemma findCRLF_first_line:
  assumes "buf_ok b"
  shows "case findCRLF b of
           None \<Rightarrow> find_sub kCRLF (content b) = None
         | Some p \<Rightarrow> \<exists>line rest b'. content b = line @ kCRLF @ rest \<and> find_sub kCRLF line = None
             \<and> retrieveUntil b p = Some b' \<and> content b' = kCRLF @ rest"
proof (cases "find_sub kCRLF (content b)")
  case None
  then show ?thesis by (simp add: findCRLF_def content_def)
next
  case (Some i)
  from find_sub_Some [OF Some] have i: "i + 2 \<le> length (content b)"
    and at: "take (length kCRLF) (drop i (content b)) = kCRLF" by (auto simp: kCRLF_def)
  let ?line = "take i (content b)" and ?rest = "drop (i + 2) (content b)"
  have "content b = ?line @ drop i (content b)" by simp
  also have "drop i (content b) = kCRLF @ ?rest"
    using append_take_drop_id [of "length kCRLF" "drop i (content b)"] at
    by (simp add: kCRLF_def add.commute)
  finally have split: "content b = ?line @ kCRLF @ ?rest" .
  have len: "length ?line = i" using i by simp
  from mb.frame_first [OF assms split] len obtain b'
    where b': "retrieve b i = Some b'" "content b' = kCRLF @ ?rest" by auto
  have "readerIndex b + i \<le> writerIndex b"
    using i assms by (simp add: readableBytes_def)
  with b' have "retrieveUntil b (readerIndex b + i) = Some b'"
    by (simp add: retrieveUntil_def)
  with split b' find_sub_before [OF Some] Some show ?thesis
    by (auto simp: findCRLF_def content_def [symmetric] kCRLF_def)
qed

definition filled :: "bytes \<Rightarrow> msgbuffer" where
  "filled d = \<lparr>buffer = replicate 8 0 @ d, readerIndex = 8, writerIndex = 8 + length d\<rparr>"

lemma filled [simp]: "buf_ok (filled d)" "content (filled d) = d"
    "readableBytes (filled d) = length d"
  by (simp_all add: filled_def buf_ok_def buf_inv_def content_def buf_defs kCheapPrepend_def)

lemma findCRLF_first_line_witness:
  "findCRLF (filled [71, 13, 10, 72]) = Some 9
   \<and> (\<exists>b'. retrieveUntil (filled [71, 13, 10, 72]) 9 = Some b' \<and> content b' = [13, 10, 72])"
proof -
  have f: "findCRLF (filled [71, 13, 10, 72]) = Some 9"
    by (simp add: findCRLF_def filled_def peek_def readableBytes_def kCRLF_def)
  obtain line rest b' where l: "[71, 13, 10, 72] = line @ kCRLF @ rest"
      "find_sub kCRLF line = None" "retrieveUntil (filled [71, 13, 10, 72]) 9 = Some b'"
      "content b' = kCRLF @ rest"
    using findCRLF_first_line [of "filled [71, 13, 10, 72]"] f by auto
  from l(1) have "rest = [72]"
    by (auto simp: kCRLF_def append_eq_Cons_conv Cons_eq_append_conv)
  with f l(3,4) show ?thesis by (simp add: kCRLF_def)
qed

subsection \<open>The buffer as a queue of bytes\<close>

text \<open>
  The commands that change a buffer, what each does to the buffer, and what it does to the
  list of bytes the buffer stands for. Shrinking is only promised below 2 GiB, where \<open>toStringPiece\<close> is right.
\<close>

datatype buffer_op = Append bytes | Prepend bytes | Fill bytes | Retrieve nat | RetrieveAll
  | Unwrite nat | Ensure nat | Shrink nat

fun buffer_do :: "msgbuffer \<Rightarrow> buffer_op \<Rightarrow> msgbuffer option" where
  "buffer_do b (Append d) = append_bytes b d"
| "buffer_do b (Prepend d) = prepend b d"
| "buffer_do b (Fill d) = write_direct b d"
| "buffer_do b (Retrieve n) = retrieve b n"
| "buffer_do b RetrieveAll = Some (retrieveAll b)"
| "buffer_do b (Unwrite n) = unwrite b n"
| "buffer_do b (Ensure n) = ensureWritableBytes b n"
| "buffer_do b (Shrink n) = shrink b n"

fun queue_do :: "bytes \<Rightarrow> buffer_op \<Rightarrow> bytes option" where
  "queue_do q (Append d) = Some (q @ d)"
| "queue_do q (Prepend d) = Some (d @ q)"
| "queue_do q (Fill d) = Some (q @ d)"
| "queue_do q (Retrieve n) = (if n \<le> length q then Some (drop n q) else None)"
| "queue_do q RetrieveAll = Some []"
| "queue_do q (Unwrite n) = (if n \<le> length q then Some (take (length q - n) q) else None)"
| "queue_do q (Ensure n) = Some q"
| "queue_do q (Shrink n) = (if length q < 2 ^ 31 then Some q else None)"

text \<open>Only writing in front of the content or behind it by hand needs room to be there.\<close>

fun room :: "msgbuffer \<Rightarrow> buffer_op \<Rightarrow> bool" where
  "room b (Prepend d) = (length d \<le> prependableBytes b)"
| "room b (Fill d) = (length d \<le> writableBytes b)"
| "room b op = True"

fun buffer_run :: "msgbuffer \<Rightarrow> buffer_op list \<Rightarrow> msgbuffer option" where
  "buffer_run b [] = Some b"
| "buffer_run b (op # ops) = do { b1 \<leftarrow> buffer_do b op; buffer_run b1 ops }"

fun queue_run :: "bytes \<Rightarrow> buffer_op list \<Rightarrow> bytes option" where
  "queue_run q [] = Some q"
| "queue_run q (op # ops) = do { q1 \<leftarrow> queue_do q op; queue_run q1 ops }"

fun rooms :: "msgbuffer \<Rightarrow> buffer_op list \<Rightarrow> bool" where
  "rooms b [] = True"
| "rooms b (op # ops) = (room b op \<and> (case buffer_do b op of None \<Rightarrow> True | Some b1 \<Rightarrow> rooms b1 ops))"

lemma unwrite_ok:
  assumes "buf_ok b" and "n \<le> readableBytes b"
  shows "\<exists>b'. unwrite b n = Some b' \<and> buf_ok b' \<and> content b' = take (readableBytes b - n) (content b)"
  using assms by (auto simp: unwrite_def buf_ok_def buf_inv_def content_def buf_defs add.commute)

text \<open>One command: allowed by the queue and with room, it does what the queue does.\<close>

lemma buffer_do_ok:
  assumes "buf_ok b" and "queue_do (content b) op = Some q" and "room b op"
  shows "\<exists>b'. buffer_do b op = Some b' \<and> buf_ok b' \<and> content b' = q"
proof (cases op)
  case (Append d)
  with append_bytes_ok [OF assms(1), of d] assms(2) show ?thesis by auto
next
  case (Prepend d)
  with prepend_ok [OF assms(1), of d] assms(2,3) show ?thesis by auto
next
  case (Fill d)
  with write_direct_ok [OF assms(1), of d] assms show ?thesis by auto
next
  case (Retrieve n)
  with retrieve_ok [OF assms(1), of n] assms(1,2) show ?thesis by (auto split: if_splits)
next
  case RetrieveAll
  with retrieveAll_inv [of b] assms(1,2) show ?thesis by (auto simp: buf_ok_def retrieveAll_def)
next
  case (Unwrite n)
  with unwrite_ok [OF assms(1), of n] assms(1,2) show ?thesis by (auto split: if_splits)
next
  case (Ensure n)
  with ensureWritableBytes_ok [OF assms(1), of n] assms(2) show ?thesis by auto
next
  case (Shrink n)
  with shrink_keeps_content [OF assms(1), of n] assms(1,2) show ?thesis by (auto split: if_splits)
qed

lemma buffer_do_abort:
  assumes "buf_ok b" and "queue_do (content b) op = None \<and> (\<forall>n. op \<noteq> Shrink n) \<or> \<not> room b op"
  shows "buffer_do b op = None"
  using assms by (cases op) (auto simp: retrieve_def unwrite_def prepend_def write_direct_def hasWritten_def split: if_splits)

text \<open>
  C21. A buffer is a queue of bytes: for any sequence of commands on a well-formed buffer, if the
  commands are possible on the list of its readable bytes and prepending and direct writing find
  room, no assertion fails, the buffer stays well-formed, and its readable bytes are what
  the commands make of the list. If they are possible but prepending or direct writing finds no room, an
  assertion aborts the program; and so it does if a sequence without \<open>shrink\<close> takes more than there is.
\<close>

theorem buffer_refines_queue:
  assumes "buf_ok b"
  shows "(queue_run (content b) ops = Some q \<and> rooms b ops \<longrightarrow>
        (\<exists>b'. buffer_run b ops = Some b' \<and> buf_ok b' \<and> content b' = q))
     \<and> (queue_run (content b) ops = Some q \<and> \<not> rooms b ops \<longrightarrow> buffer_run b ops = None)
     \<and> (queue_run (content b) ops = None \<and> (\<forall>n. Shrink n \<notin> set ops) \<longrightarrow> buffer_run b ops = None)"
  using assms
proof (induction ops arbitrary: b)
  case Nil
  then show ?case by simp
next
  case (Cons op ops)
  show ?case
  proof (cases "room b op")
    case False
    with buffer_do_abort [OF Cons.prems, of op] show ?thesis by simp
  next
    case True
    show ?thesis
    proof (cases "queue_do (content b) op")
      case None
      then show ?thesis
        using buffer_do_abort [OF Cons.prems, of op] by (cases "\<exists>n. op = Shrink n") auto
    next
      case (Some q1)
      from buffer_do_ok [OF Cons.prems Some True] obtain b1
        where b1: "buffer_do b op = Some b1" "buf_ok b1" "content b1 = q1" by blast
      from Cons.IH [OF b1(2)] b1 Some True show ?thesis by auto
    qed
  qed
qed

theorem buffer_refines_queue_witness:
  "\<exists>b'. buffer_run (new_MsgBuffer 2) [Append [1, 2, 3], Prepend [9], Retrieve 2, Unwrite 1] = Some b'
     \<and> content b' = [2] \<and> buffer_run (new_MsgBuffer 2) [Append [1], Retrieve 2] = None"
proof -
  have "rooms (new_MsgBuffer 2) [Append [1, 2, 3], Prepend [9], Retrieve 2, Unwrite 1]"
    by (simp add: append_bytes_def ensureWritableBytes_def makeSpace_def hasWritten_def new_MsgBuffer_def
        buf_defs kCheapPrepend_def vec_resize_def Let_def split: option.splits)
  then show ?thesis
    using buffer_refines_queue [of "new_MsgBuffer 2" "[Append [1, 2, 3], Prepend [9], Retrieve 2, Unwrite 1]" "[2]"]
      buffer_refines_queue [of "new_MsgBuffer 2" "[Append [1], Retrieve 2]"]
    by auto
qed

end
