(* ===== verification/TimingWheel.thy ===== *)
theory TimingWheel
  imports Prelude
begin

text \<open>
  The timing wheel of \<open>src/network/net/TimingWheel.cpp\<close>. Timers are reference counted:
  the wheels hold the references and a timer's callback is its destructor, so it runs when
  the last slot that holds the timer is dropped. An entry is modelled with its identity
  (the address of the shared object) and what its destructor does; \<open>held\<close> says that a
  wheel still refers to it, and \<open>fired\<close> is the log of the destructors run so far, in
  order. What a user callback does beyond being logged is not modelled.
\<close>

subsection \<open>State\<close>

datatype timing_type = kTimingTypeSecond | kTimingTypeHour | kTimingTypeMinute | kTimingTypeDay

definition kTimingMinute :: int where
  "kTimingMinute = 60"

definition kTimingHour :: int where
  "kTimingHour = 60 * 60"

definition kTimingDay :: int where
  "kTimingDay = 60 * 60 * 24"

lemmas timing_consts = kTimingMinute_def kTimingHour_def kTimingDay_def

text \<open>
  \<open>Once f\<close> is a \<open>CallbackEntry\<close> around the user callback \<open>f\<close>, \<open>Every i f\<close> the
  one around the lambda of \<open>runEvery\<close>, and \<open>Idle c\<close> the \<open>TimeoutEntry\<close> of a
  connection.
\<close>

datatype payload = Once nat | Every int nat | Idle nat

datatype entry = Entry (eid: nat) (payload: payload)

record timing_wheel =
  wheels :: "timing_type \<Rightarrow> entry list list"
  last_ts :: int
  tick :: int
  next_id :: nat
  fired :: "entry list"

fun wheel_size :: "timing_type \<Rightarrow> nat" where
  "wheel_size kTimingTypeSecond = 60"
| "wheel_size kTimingTypeMinute = 60"
| "wheel_size kTimingTypeHour = 24"
| "wheel_size kTimingTypeDay = 30"

definition new_TimingWheel :: timing_wheel where
  "new_TimingWheel =
     \<lparr>wheels = (\<lambda>w. replicate (wheel_size w) []), last_ts = 0, tick = 0, next_id = 0, fired = []\<rparr>"

text \<open>Some slot of some wheel holds a reference to the entry.\<close>

definition held :: "timing_wheel \<Rightarrow> entry \<Rightarrow> bool" where
  "held s e = list_ex (\<lambda>w. list_ex (\<lambda>slot. e \<in> set slot) (wheels s w))
     [kTimingTypeSecond, kTimingTypeHour, kTimingTypeMinute, kTimingTypeDay]"

subsection \<open>Inserting\<close>

definition slot_insert :: "timing_wheel \<Rightarrow> timing_type \<Rightarrow> nat \<Rightarrow> entry \<Rightarrow> timing_wheel" where
  "slot_insert s w i e =
     s\<lparr>wheels := (wheels s)(w := (wheels s w)[i := List.insert e (wheels s w ! i)])\<rparr>"

definition insertSecondEntry :: "timing_wheel \<Rightarrow> int \<Rightarrow> entry \<Rightarrow> timing_wheel" where
  "insertSecondEntry s delay e = slot_insert s kTimingTypeSecond (nat (delay - 1)) e"

text \<open>
  The minute, hour and day routines put the entry itself into the slot. The
  \<open>CallbackEntry\<close> they create, meant to re-insert the entry later with the rest of the
  delay, is stored nowhere: it is destroyed at the end of the routine, and its destructor
  makes the nested call of \<open>insertEntry\<close> at once.
\<close>

fun delay_level :: "int \<Rightarrow> nat" where
  "delay_level d = (if d < 60 then 0 else if d < 3600 then 1 else if d < 86400 then 2 else 3)"

function insertEntry :: "timing_wheel \<Rightarrow> int \<Rightarrow> entry \<Rightarrow> timing_wheel"
  and insertMinuteEntry :: "timing_wheel \<Rightarrow> int \<Rightarrow> entry \<Rightarrow> timing_wheel"
  and insertHourEntry :: "timing_wheel \<Rightarrow> int \<Rightarrow> entry \<Rightarrow> timing_wheel"
  and insertDayEntry :: "timing_wheel \<Rightarrow> int \<Rightarrow> entry \<Rightarrow> timing_wheel" where
  "insertEntry s delay e =
     (if delay \<le> 0 then s
      else if delay < kTimingMinute then insertSecondEntry s delay e
      else if delay < kTimingHour then insertMinuteEntry s delay e
      else if delay < kTimingDay then insertHourEntry s delay e
      else if delay div kTimingDay > 30 then s
      else insertDayEntry s delay e)"
| "insertMinuteEntry s delay e =
     (let minute = delay div kTimingMinute; second = delay mod kTimingMinute
      in insertEntry (slot_insert s kTimingTypeMinute (nat (minute - 1)) e) second e)"
| "insertHourEntry s delay e =
     (let hour = delay div kTimingHour; second = delay mod kTimingHour
      in insertEntry (slot_insert s kTimingTypeHour (nat (hour - 1)) e) second e)"
| "insertDayEntry s delay e =
     (let day = delay div kTimingDay; second = delay mod kTimingDay
      in insertEntry (slot_insert s kTimingTypeDay (nat (day - 1)) e) second e)"
  by pat_completeness auto
termination
proof (relation "measure (\<lambda>x. case x of
      Inl (Inl (s, d, e)) \<Rightarrow> 2 * delay_level d
    | Inl (Inr (s, d, e)) \<Rightarrow> 1
    | Inr (Inl (s, d, e)) \<Rightarrow> 3
    | Inr (Inr (s, d, e)) \<Rightarrow> 5)", goal_cases)
  case 1 then show ?case by simp
qed (auto simp: timing_consts)

declare insertEntry.simps [simp del] insertMinuteEntry.simps [simp del]
  insertHourEntry.simps [simp del] insertDayEntry.simps [simp del]

subsection \<open>Callbacks and the clock\<close>

text \<open>
  \<open>runEvery\<close> creates its entry, inserts it and drops its own reference; when no slot
  kept the entry the destructor runs at once, calls the user callback and \<open>runEvery\<close>
  again. \<open>None\<close> is this recursion never ending.
\<close>

partial_function (option) runEvery :: "timing_wheel \<Rightarrow> int \<Rightarrow> nat \<Rightarrow> timing_wheel option" where
  "runEvery s interval f =
     (let e = Entry (next_id s) (Every interval f);
          s1 = insertEntry (s\<lparr>next_id := Suc (next_id s)\<rparr>) interval e
      in if held s1 e then Some s1
         else runEvery (s1\<lparr>fired := fired s1 @ [e]\<rparr>) interval f)"

text \<open>The destructor of an entry.\<close>

definition fire :: "timing_wheel \<Rightarrow> entry \<Rightarrow> timing_wheel option" where
  "fire s e =
     (let s1 = s\<lparr>fired := fired s @ [e]\<rparr>
      in case payload e of
           Once f \<Rightarrow> Some s1
         | Idle c \<Rightarrow> Some s1
         | Every interval f \<Rightarrow> runEvery s1 interval f)"

text \<open>Dropping a reference: the destructor runs if no slot holds another one.\<close>

definition release :: "timing_wheel \<Rightarrow> entry \<Rightarrow> timing_wheel option" where
  "release s e = (if held s e then Some s else fire s e)"

fun release_all :: "timing_wheel \<Rightarrow> entry list \<Rightarrow> timing_wheel option" where
  "release_all s [] = Some s"
| "release_all s (e # es) = do { s' \<leftarrow> release s e; release_all s' es }"

definition runAfter :: "timing_wheel \<Rightarrow> int \<Rightarrow> nat \<Rightarrow> timing_wheel option" where
  "runAfter s delay f =
     (let e = Entry (next_id s) (Once f)
      in release (insertEntry (s\<lparr>next_id := Suc (next_id s)\<rparr>) delay e) e)"

text \<open>\<open>popUp\<close> moves the front slot out, appends an empty one and destroys the slot.\<close>

definition drop_front :: "timing_wheel \<Rightarrow> timing_type \<Rightarrow> timing_wheel" where
  "drop_front s w = s\<lparr>wheels := (wheels s)(w := tl (wheels s w) @ [[]])\<rparr>"

definition popUp :: "timing_wheel \<Rightarrow> timing_type \<Rightarrow> timing_wheel option" where
  "popUp s w = (let wheelEntry = hd (wheels s w) in release_all (drop_front s w) wheelEntry)"

text \<open>The part of \<open>onTimer\<close> after the guard on the elapsed time.\<close>

definition advance :: "timing_wheel \<Rightarrow> timing_wheel option" where
  "advance s = do {
     s1 \<leftarrow> popUp (s\<lparr>tick := tick s + 1\<rparr>) kTimingTypeSecond;
     if tick s1 mod kTimingMinute \<noteq> 0 then popUp s1 kTimingTypeMinute
     else if tick s1 mod kTimingHour \<noteq> 0 then popUp s1 kTimingTypeHour
     else if tick s1 mod kTimingDay \<noteq> 0 then popUp s1 kTimingTypeDay
     else Some s1
   }"

definition onTimer :: "timing_wheel \<Rightarrow> int \<Rightarrow> timing_wheel option" where
  "onTimer s now =
     (let s0 = (if last_ts s = 0 then s\<lparr>last_ts := now\<rparr> else s)
      in if now - last_ts s0 < 1000 then Some s0 else advance (s0\<lparr>last_ts := now\<rparr>))"

subsection \<open>Where an entry goes\<close>

text \<open>The slots a delay is entered in: the reference for \<open>insertEntry\<close>.\<close>

function slots :: "int \<Rightarrow> (timing_type \<times> nat) list" where
  "slots d =
     (if d \<le> 0 then []
      else if d < 60 then [(kTimingTypeSecond, nat (d - 1))]
      else if d < 3600 then (kTimingTypeMinute, nat (d div 60 - 1)) # slots (d mod 60)
      else if d < 86400 then (kTimingTypeHour, nat (d div 3600 - 1)) # slots (d mod 3600)
      else if d div 86400 > 30 then []
      else (kTimingTypeDay, nat (d div 86400 - 1)) # slots (d mod 86400))"
  by pat_completeness auto
termination
  by (relation "measure delay_level") auto

declare slots.simps [simp del]

definition insert_slots :: "timing_wheel \<Rightarrow> (timing_type \<times> nat) list \<Rightarrow> entry \<Rightarrow> timing_wheel" where
  "insert_slots s ws e = fold (\<lambda>(w, i) s. slot_insert s w i e) ws s"

lemma insert_slots_simps [simp]:
  "insert_slots s [] e = s"
  "insert_slots s ((w, i) # ws) e = insert_slots (slot_insert s w i e) ws e"
  by (simp_all add: insert_slots_def)

lemma insertEntry_slots: "insertEntry s d e = insert_slots s (slots d) e"
proof (induction d arbitrary: s rule: slots.induct)
  case (1 d)
  show ?case
    using 1
    by (simp add: insertEntry.simps [of s d] slots.simps [of d] insertMinuteEntry.simps
        insertHourEntry.simps insertDayEntry.simps insertSecondEntry_def timing_consts)
qed

lemma slots_in_range: "(w, i) \<in> set (slots d) \<Longrightarrow> i < wheel_size w"
proof (induction d rule: slots.induct)
  case (1 d)
  consider "d \<le> 0 \<or> 30 < d div 86400" | "0 < d" "d < 60" | "60 \<le> d" "d < 3600"
    | "3600 \<le> d" "d < 86400" | "86400 \<le> d" "d div 86400 \<le> 30" by linarith
  then show ?case
  proof cases
    case 1
    then have "slots d = []" by (auto simp: slots.simps [of d])
    with "1.prems" show ?thesis by simp
  next
    case 2
    with "1.prems" show ?thesis by (simp add: slots.simps [of d])
  next
    case 3
    then have "nat (d div 60 - 1) < 60" by linarith
    with 3 "1.prems" "1.IH"(1) show ?thesis by (auto simp: slots.simps [of d])
  next
    case 4
    then have "nat (d div 3600 - 1) < 24" by linarith
    with 4 "1.prems" "1.IH"(2) show ?thesis by (auto simp: slots.simps [of d])
  next
    case 5
    then have "nat (d div 86400 - 1) < 30" by linarith
    with 5 "1.prems" "1.IH"(3) show ?thesis by (auto simp: slots.simps [of d])
  qed
qed

lemma slots_second: "0 < d \<Longrightarrow> d < 60 \<Longrightarrow> slots d = [(kTimingTypeSecond, nat (d - 1))]"
  by (simp add: slots.simps)

definition valid_delay :: "int \<Rightarrow> bool" where
  "valid_delay d \<longleftrightarrow> 0 < d \<and> d < 31 * kTimingDay"

lemma slots_Nil_iff: "(slots d = []) = (\<not> valid_delay d)"
proof (cases "d \<le> 0 \<or> 30 < d div 86400")
  case True
  then have "slots d = []" by (auto simp: slots.simps [of d])
  moreover have "\<not> valid_delay d"
    using True unfolding valid_delay_def timing_consts by linarith
  ultimately show ?thesis by simp
next
  case False
  then have "slots d \<noteq> []" by (simp add: slots.simps [of d])
  moreover have "valid_delay d"
    using False unfolding valid_delay_def timing_consts by linarith
  ultimately show ?thesis by simp
qed

subsection \<open>Occurrences\<close>

text \<open>\<open>occ s w e\<close>: the slots of wheel \<open>w\<close> that hold \<open>e\<close>; slot 0 is dropped next.\<close>

definition occ :: "timing_wheel \<Rightarrow> timing_type \<Rightarrow> entry \<Rightarrow> nat set" where
  "occ s w e = {i. i < length (wheels s w) \<and> e \<in> set (wheels s w ! i)}"

lemma ex_timing_type:
  "(\<exists>w. P w) = (P kTimingTypeSecond \<or> P kTimingTypeHour \<or> P kTimingTypeMinute
     \<or> P kTimingTypeDay)"
  by (metis timing_type.exhaust)

lemma held_iff: "held s e = (\<exists>w. occ s w e \<noteq> {})"
proof -
  have "occ s w e \<noteq> {} \<longleftrightarrow> (\<exists>slot \<in> set (wheels s w). e \<in> set slot)" for w
    by (force simp: occ_def in_set_conv_nth [of _ "wheels s w"])
  then have "(\<exists>w. occ s w e \<noteq> {}) = (\<exists>w. \<exists>slot \<in> set (wheels s w). e \<in> set slot)"
    by simp
  also have "\<dots> = held s e"
    by (simp only: ex_timing_type held_def list_ex_iff list.set insert_iff empty_iff bex_simps simp_thms)
  finally show ?thesis by simp
qed

lemma slot_insert_frame [simp]:
  "next_id (slot_insert s w i e) = next_id s" "fired (slot_insert s w i e) = fired s"
  "tick (slot_insert s w i e) = tick s" "last_ts (slot_insert s w i e) = last_ts s"
  "length (wheels (slot_insert s w i e) w') = length (wheels s w')"
  by (simp_all add: slot_insert_def)

lemma occ_slot_insert:
  "occ (slot_insert s w i e) w' e' =
     occ s w' e' \<union> (if w' = w \<and> e' = e \<and> i < length (wheels s w) then {i} else {})"
proof (cases "i < length (wheels s w)")
  case True
  then show ?thesis
    by (cases "w' = w") (auto simp: occ_def slot_insert_def nth_list_update split: if_splits)
next
  case False
  then show ?thesis by (simp add: occ_def slot_insert_def list_update_beyond)
qed

lemma occ_insert_slots:
  "occ (insert_slots s ws e) w e' =
     occ s w e' \<union> (if e' = e then {i. (w, i) \<in> set ws \<and> i < length (wheels s w)} else {})"
proof (induction ws arbitrary: s)
  case Nil
  then show ?case by simp
next
  case (Cons x ws)
  then show ?case by (cases x) (auto simp: occ_slot_insert)
qed

lemma insert_slots_frame [simp]:
  "next_id (insert_slots s ws e) = next_id s" "fired (insert_slots s ws e) = fired s"
  "tick (insert_slots s ws e) = tick s" "last_ts (insert_slots s ws e) = last_ts s"
  "length (wheels (insert_slots s ws e) w) = length (wheels s w)"
  by (induction ws arbitrary: s) auto

definition distinct_slots :: "timing_wheel \<Rightarrow> bool" where
  "distinct_slots s \<longleftrightarrow> (\<forall>w. \<forall>slot \<in> set (wheels s w). distinct slot)"

lemma distinct_slot_insert:
  assumes "distinct_slots s"
  shows "distinct_slots (slot_insert s v i e)"
proof (cases "i < length (wheels s v)")
  case True
  then have "wheels s v ! i \<in> set (wheels s v)" by simp
  with assms have "distinct (wheels s v ! i)" unfolding distinct_slots_def by blast
  with assms show ?thesis
    by (auto simp: distinct_slots_def slot_insert_def dest!: set_update_subset_insert [THEN subsetD])
next
  case False
  with assms show ?thesis by (simp add: slot_insert_def list_update_beyond)
qed

lemma distinct_insert_slots: "distinct_slots s \<Longrightarrow> distinct_slots (insert_slots s ws e)"
  by (induction ws arbitrary: s) (auto simp: distinct_slot_insert)

subsection \<open>Invariant\<close>

definition sized :: "timing_wheel \<Rightarrow> bool" where
  "sized s \<longleftrightarrow> (\<forall>w. length (wheels s w) = wheel_size w)"

definition tw_inv :: "timing_wheel \<Rightarrow> bool" where
  "tw_inv s \<longleftrightarrow> sized s
     \<and> distinct_slots s
     \<and> (\<forall>e. held s e \<longrightarrow> eid e < next_id s)
     \<and> (\<forall>e \<in> set (fired s). eid e < next_id s)
     \<and> (\<forall>e i f. held s e \<longrightarrow> payload e = Every i f \<longrightarrow> valid_delay i)"

lemma new_TimingWheel_occ [simp]: "occ new_TimingWheel w e = {}"
  by (simp add: occ_def new_TimingWheel_def)

lemma new_TimingWheel_inv: "tw_inv new_TimingWheel"
  by (simp add: tw_inv_def sized_def held_iff distinct_slots_def) (simp add: new_TimingWheel_def)

lemma held_insert_slots:
  assumes "sized s" and "\<forall>(w, i) \<in> set ws. i < wheel_size w"
  shows "held (insert_slots s ws e) e' = (held s e' \<or> (e' = e \<and> ws \<noteq> []))"
proof -
  have in_range: "{i. (w, i) \<in> set ws \<and> i < length (wheels s w)} = {i. (w, i) \<in> set ws}" for w
    using assms by (auto simp: sized_def)
  have "(\<exists>w. {i. (w, i) \<in> set ws} \<noteq> {}) = (ws \<noteq> [])"
    by (cases ws) auto
  then show ?thesis
    by (auto simp: held_iff occ_insert_slots in_range)
qed

lemma held_insertEntry:
  "sized s \<Longrightarrow> held (insertEntry s d e) e' = (held s e' \<or> (e' = e \<and> valid_delay d))"
  using held_insert_slots [of s "slots d" e e'] slots_in_range slots_Nil_iff [of d]
  by (auto simp: insertEntry_slots)

lemma insertEntry_frame [simp]:
  "next_id (insertEntry s d e) = next_id s" "fired (insertEntry s d e) = fired s"
  "tick (insertEntry s d e) = tick s" "last_ts (insertEntry s d e) = last_ts s"
  "sized (insertEntry s d e) = sized s"
  by (simp_all add: insertEntry_slots sized_def)

lemma insertEntry_inv:
  assumes "tw_inv s" and "eid e < next_id s"
    and "\<And>i f. payload e = Every i f \<Longrightarrow> valid_delay i"
  shows "tw_inv (insertEntry s d e)"
proof -
  have sz: "sized s" using assms(1) by (simp add: tw_inv_def)
  have "distinct_slots (insertEntry s d e)"
    using assms(1) unfolding insertEntry_slots
    by (intro distinct_insert_slots) (simp add: tw_inv_def)
  with assms sz show ?thesis
    by (auto simp: tw_inv_def held_insertEntry)
qed

lemma occ_insertEntry_other: "e' \<noteq> e \<Longrightarrow> occ (insertEntry s d e) w e' = occ s w e'"
  by (simp add: insertEntry_slots occ_insert_slots)

lemma occ_insertEntry_second:
  assumes "sized s" and "0 < d" and "d < 60"
  shows "occ (insertEntry s d e) w e =
           (if w = kTimingTypeSecond then insert (nat (d - 1)) (occ s w e) else occ s w e)"
proof -
  have "insertEntry s d e = slot_insert s kTimingTypeSecond (nat (d - 1)) e"
    using assms by (simp add: insertEntry_slots slots_second)
  with assms show ?thesis by (auto simp: occ_slot_insert sized_def)
qed

text \<open>Allocating an identity changes nothing else.\<close>

lemma alloc_inv:
  "tw_inv s \<Longrightarrow> tw_inv (s\<lparr>next_id := Suc (next_id s)\<rparr>)"
proof -
  have occ: "occ (s\<lparr>next_id := Suc (next_id s)\<rparr>) = occ s"
    by (simp add: occ_def fun_eq_iff)
  show "tw_inv s \<Longrightarrow> tw_inv (s\<lparr>next_id := Suc (next_id s)\<rparr>)"
    by (auto simp: tw_inv_def held_iff occ sized_def distinct_slots_def less_Suc_eq)
qed

lemma occ_frame [simp]:
  "occ (s\<lparr>next_id := n\<rparr>) w e = occ s w e" "occ (s\<lparr>fired := l\<rparr>) w e = occ s w e"
  "occ (s\<lparr>tick := t\<rparr>) w e = occ s w e" "occ (s\<lparr>last_ts := t\<rparr>) w e = occ s w e"
  "held (s\<lparr>next_id := n\<rparr>) e = held s e" "held (s\<lparr>fired := l\<rparr>) e = held s e"
  "held (s\<lparr>tick := t\<rparr>) e = held s e" "held (s\<lparr>last_ts := t\<rparr>) e = held s e"
  "sized (s\<lparr>next_id := n\<rparr>) = sized s" "sized (s\<lparr>fired := l\<rparr>) = sized s"
  "sized (s\<lparr>tick := t\<rparr>) = sized s" "sized (s\<lparr>last_ts := t\<rparr>) = sized s"
  by (simp_all add: occ_def held_def sized_def)

lemma runEvery_valid:
  assumes "sized s" and "valid_delay i"
  shows "runEvery s i f =
           Some (insertEntry (s\<lparr>next_id := Suc (next_id s)\<rparr>) i (Entry (next_id s) (Every i f)))"
  using assms by (subst runEvery.simps) (simp add: Let_def held_insertEntry)

subsection \<open>How the wheels evolve\<close>

text \<open>
  \<open>evolves s s' k\<close>: every entry that existed in \<open>s\<close> has moved \<open>k w\<close> slots
  towards the front of wheel \<open>w\<close> (references that ran out are gone), and its destructor
  has run exactly if its last reference went away in between.
\<close>

definition evolves :: "timing_wheel \<Rightarrow> timing_wheel \<Rightarrow> (timing_type \<Rightarrow> nat) \<Rightarrow> bool" where
  "evolves s s' k \<longleftrightarrow> tw_inv s' \<and> next_id s \<le> next_id s'
     \<and> (\<forall>e. eid e < next_id s \<longrightarrow>
          (\<forall>w. occ s' w e = {i. i + k w \<in> occ s w e})
          \<and> count_list (fired s') e
              = count_list (fired s) e + (if held s e \<and> \<not> held s' e then 1 else 0))"

lemma evolves_refl: "tw_inv s \<Longrightarrow> evolves s s (\<lambda>w. 0)"
  by (simp add: evolves_def)

lemma evolves_held:
  "evolves s s' k \<Longrightarrow> eid e < next_id s \<Longrightarrow> held s' e \<Longrightarrow> held s e"
  by (fastforce simp: evolves_def held_iff)

lemma evolves_trans:
  assumes "evolves s s1 k" and "evolves s1 s2 l"
  shows "evolves s s2 (\<lambda>w. k w + l w)"
proof -
  have "occ s2 w e = {i. i + (k w + l w) \<in> occ s w e}"
    and "count_list (fired s2) e
           = count_list (fired s) e + (if held s e \<and> \<not> held s2 e then 1 else 0)"
    if e: "eid e < next_id s" for e w
  proof -
    have e1: "eid e < next_id s1" using assms(1) e by (auto simp: evolves_def)
    with assms e show "occ s2 w e = {i. i + (k w + l w) \<in> occ s w e}"
      by (simp add: evolves_def ac_simps)
    have h: "held s1 e \<Longrightarrow> held s e" "held s2 e \<Longrightarrow> held s1 e"
      using evolves_held [OF assms(1) e] evolves_held [OF assms(2) e1] by blast+
    have c: "count_list (fired s1) e
             = count_list (fired s) e + (if held s e \<and> \<not> held s1 e then 1 else 0)"
        "count_list (fired s2) e
             = count_list (fired s1) e + (if held s1 e \<and> \<not> held s2 e then 1 else 0)"
      using assms e e1 unfolding evolves_def by blast+
    from h c show "count_list (fired s2) e
           = count_list (fired s) e + (if held s e \<and> \<not> held s2 e then 1 else 0)"
      by (cases "held s e"; cases "held s1 e"; cases "held s2 e") simp_all
  qed
  with assms show ?thesis by (simp add: evolves_def)
qed

text \<open>Running one destructor leaves the references of the existing entries alone.\<close>

lemma fire_ok:
  assumes "tw_inv s" and "eid e < next_id s" and "\<And>i f. payload e = Every i f \<Longrightarrow> valid_delay i"
  shows "\<exists>s'. fire s e = Some s' \<and> tw_inv s' \<and> next_id s \<le> next_id s' \<and> tick s' = tick s
           \<and> last_ts s' = last_ts s
           \<and> (\<forall>e' w. eid e' < next_id s \<longrightarrow> occ s' w e' = occ s w e')
           \<and> fired s' = fired s @ [e]"
proof -
  let ?s = "s\<lparr>fired := fired s @ [e]\<rparr>"
  have inv: "tw_inv ?s" using assms(1,2) by (auto simp: tw_inv_def distinct_slots_def)
  show ?thesis
  proof (cases "payload e")
    case (Every i f)
    let ?e = "Entry (next_id s) (Every i f)"
    let ?t = "insertEntry (?s\<lparr>next_id := Suc (next_id s)\<rparr>) i ?e"
    have v: "valid_delay i" using assms(3) Every .
    have "fire s e = Some ?t"
      using inv v Every by (simp add: fire_def runEvery_valid tw_inv_def)
    moreover have "tw_inv ?t"
      using alloc_inv [OF inv] v by (intro insertEntry_inv) auto
    moreover have "occ ?t w e' = occ s w e'" if "eid e' < next_id s" for e' w
    proof -
      have "e' \<noteq> ?e" using that by auto
      then show ?thesis by (simp add: occ_insertEntry_other)
    qed
    ultimately show ?thesis by simp
  qed (use inv in \<open>simp_all add: fire_def\<close>)
qed

lemma release_all_ok:
  assumes "tw_inv s" and "distinct es" and "\<forall>e \<in> set es. eid e < next_id s"
    and "\<forall>e \<in> set es. \<forall>i f. payload e = Every i f \<longrightarrow> valid_delay i"
  shows "\<exists>s'. release_all s es = Some s' \<and> tw_inv s' \<and> next_id s \<le> next_id s' \<and> tick s' = tick s
           \<and> last_ts s' = last_ts s
           \<and> (\<forall>e w. eid e < next_id s \<longrightarrow> occ s' w e = occ s w e)
           \<and> (\<forall>e. eid e < next_id s \<longrightarrow> count_list (fired s') e
                = count_list (fired s) e + (if e \<in> set es \<and> \<not> held s e then 1 else 0))"
  using assms
proof (induction es arbitrary: s)
  case Nil
  then show ?case by simp
next
  case (Cons e es)
  obtain s1 where s1: "release s e = Some s1" "tw_inv s1" "next_id s \<le> next_id s1"
      "tick s1 = tick s" "last_ts s1 = last_ts s"
    and o1: "\<And>e' w. eid e' < next_id s \<Longrightarrow> occ s1 w e' = occ s w e'"
    and f1: "fired s1 = (if held s e then fired s else fired s @ [e])"
    using fire_ok [of s e] Cons.prems by (cases "held s e") (auto simp: release_def)
  have h1: "held s1 e' = held s e'" if "eid e' < next_id s" for e'
    using o1 [OF that] by (simp add: held_iff)
  obtain s2 where s2: "release_all s1 es = Some s2" "tw_inv s2" "next_id s1 \<le> next_id s2"
      "tick s2 = tick s1" "last_ts s2 = last_ts s1"
    and o2: "\<And>e' w. eid e' < next_id s1 \<Longrightarrow> occ s2 w e' = occ s1 w e'"
    and f2: "\<And>e'. eid e' < next_id s1 \<Longrightarrow> count_list (fired s2) e'
               = count_list (fired s1) e' + (if e' \<in> set es \<and> \<not> held s1 e' then 1 else 0)"
    using Cons.IH [OF s1(2)] Cons.prems s1(3) by (fastforce simp: less_le_trans)
  have "occ s2 w e' = occ s w e'" if "eid e' < next_id s" for e' w
    using o1 o2 that s1(3) by simp
  moreover have "count_list (fired s2) e'
       = count_list (fired s) e' + (if e' \<in> set (e # es) \<and> \<not> held s e' then 1 else 0)"
    if "eid e' < next_id s" for e'
    using f2 [of e'] f1 h1 [OF that] that s1(3) Cons.prems(2) by auto
  ultimately show ?case
    using s1 s2 by auto
qed

text \<open>Dropping the front slot of one wheel.\<close>

lemma drop_front_frame [simp]:
  "next_id (drop_front s w) = next_id s" "fired (drop_front s w) = fired s"
  "tick (drop_front s w) = tick s" "last_ts (drop_front s w) = last_ts s"
  by (simp_all add: drop_front_def)

lemma sized_nonempty: "sized s \<Longrightarrow> wheels s w \<noteq> []"
  by (cases w) (auto simp: sized_def dest!: spec [of _ w])

lemma front_occ: "sized s \<Longrightarrow> e \<in> set (hd (wheels s w)) \<longleftrightarrow> 0 \<in> occ s w e"
  using sized_nonempty [of s w] by (simp add: occ_def hd_conv_nth)

lemma occ_drop_front:
  assumes "sized s"
  shows "occ (drop_front s w) v e = {i. i + (if v = w then 1 else 0) \<in> occ s v e}"
proof (cases "v = w")
  case True
  have "(tl (wheels s w) @ [[]]) ! i = (if Suc i < length (wheels s w) then wheels s w ! Suc i else [])"
    if "i < length (wheels s w)" for i
    using that by (auto simp: nth_append nth_tl)
  with True sized_nonempty [OF assms, of w] show ?thesis by (auto simp: occ_def drop_front_def)
next
  case False
  then show ?thesis by (simp add: occ_def drop_front_def)
qed

lemma drop_front_inv:
  assumes "tw_inv s"
  shows "tw_inv (drop_front s w)"
proof -
  have sz: "sized s" using assms by (simp add: tw_inv_def)
  have held: "held (drop_front s w) e \<Longrightarrow> held s e" for e
    unfolding held_iff occ_drop_front [OF sz] by auto
  show ?thesis
    unfolding tw_inv_def
  proof (intro conjI)
    have "Suc (wheel_size w - 1) = wheel_size w" by (cases w) auto
    with sz show "sized (drop_front s w)" by (simp add: sized_def drop_front_def)
    show "distinct_slots (drop_front s w)"
      using assms sized_nonempty [OF sz, of w]
      by (auto simp: tw_inv_def distinct_slots_def drop_front_def dest: list.set_sel(2))
    show "\<forall>e. held (drop_front s w) e \<longrightarrow> eid e < next_id (drop_front s w)"
      "\<forall>e i f. held (drop_front s w) e \<longrightarrow> payload e = Every i f \<longrightarrow> valid_delay i"
      using held assms unfolding tw_inv_def by simp_all blast+
    show "\<forall>e \<in> set (fired (drop_front s w)). eid e < next_id (drop_front s w)"
      using assms by (simp add: tw_inv_def)
  qed
qed

lemma popUp_ok:
  assumes "tw_inv s"
  shows "\<exists>s'. popUp s w = Some s' \<and> tick s' = tick s \<and> last_ts s' = last_ts s
           \<and> evolves s s' (\<lambda>v. if v = w then 1 else 0)"
proof -
  let ?s = "drop_front s w"
  let ?front = "hd (wheels s w)"
  have sz: "sized s" using assms by (simp add: tw_inv_def)
  note rot = occ_drop_front [OF sz, of w] and front = front_occ [OF sz, of _ w]
  have hf: "held s e" if "e \<in> set ?front" for e
    using that front by (auto simp: held_iff)
  have "?front \<in> set (wheels s w)" using sized_nonempty [OF sz] by simp
  with assms have d: "distinct ?front" by (auto simp: tw_inv_def distinct_slots_def)
  have p1: "\<forall>e \<in> set ?front. eid e < next_id ?s"
    using hf assms unfolding tw_inv_def by simp
  have p2: "\<forall>e \<in> set ?front. \<forall>i f. payload e = Every i f \<longrightarrow> valid_delay i"
    using hf assms unfolding tw_inv_def by blast
  obtain s' where s': "release_all ?s ?front = Some s'" "tw_inv s'" "next_id s \<le> next_id s'"
      "tick s' = tick s" "last_ts s' = last_ts s"
    and o: "\<And>e v. eid e < next_id s \<Longrightarrow> occ s' v e = occ ?s v e"
    and f: "\<And>e. eid e < next_id s \<Longrightarrow> count_list (fired s') e
               = count_list (fired s) e + (if e \<in> set ?front \<and> \<not> held ?s e then 1 else 0)"
    using release_all_ok [OF drop_front_inv [OF assms] d p1 p2] by auto
  have h': "held s' e = held ?s e" if "eid e < next_id s" for e
    using o [OF that] by (simp add: held_iff)
  have gone: "e \<in> set ?front" if "held s e" "\<not> held ?s e" for e
  proof -
    from that(1) obtain v i where vi: "i \<in> occ s v e" by (auto simp: held_iff)
    have "\<not> (\<exists>j. j + (if v = w then 1 else 0) \<in> occ s v e)"
      using that(2) rot by (auto simp: held_iff)
    with vi have "v = w" and "i = 0" by (auto split: if_splits) (metis Suc_pred gr0I)
    with vi front show ?thesis by simp
  qed
  have "evolves s s' (\<lambda>v. if v = w then 1 else 0)"
    using s' o f h' hf gone rot by (auto simp: evolves_def)
  with s' show ?thesis by (simp add: popUp_def Let_def)
qed

subsection \<open>Ticks\<close>

text \<open>Which wheels the \<open>t\<close>-th tick drops a slot of.\<close>

fun popped :: "int \<Rightarrow> timing_type \<Rightarrow> bool" where
  "popped t kTimingTypeSecond = True"
| "popped t kTimingTypeMinute = (t mod 60 \<noteq> 0)"
| "popped t kTimingTypeHour = (t mod 60 = 0 \<and> t mod 3600 \<noteq> 0)"
| "popped t kTimingTypeDay = (t mod 60 = 0 \<and> t mod 3600 = 0 \<and> t mod 86400 \<noteq> 0)"

fun pops :: "int \<Rightarrow> nat \<Rightarrow> timing_type \<Rightarrow> nat" where
  "pops t 0 w = 0"
| "pops t (Suc n) w = pops t n w + (if popped (t + int n + 1) w then 1 else 0)"

lemma evolves_tick: "evolves (s\<lparr>tick := t\<rparr>) s' k = evolves s s' k"
  by (simp add: evolves_def)

lemma evolves_cong: "evolves s s' k \<Longrightarrow> (\<And>w. k w = l w) \<Longrightarrow> evolves s s' l"
  by (simp add: evolves_def)

lemma tick_inv: "tw_inv s \<Longrightarrow> tw_inv (s\<lparr>tick := t\<rparr>)" "tw_inv s \<Longrightarrow> tw_inv (s\<lparr>last_ts := t\<rparr>)"
  by (auto simp: tw_inv_def distinct_slots_def)

lemma advance_ok:
  assumes "tw_inv s"
  shows "\<exists>s'. advance s = Some s' \<and> tick s' = tick s + 1 \<and> last_ts s' = last_ts s
           \<and> evolves s s' (\<lambda>w. if popped (tick s + 1) w then 1 else 0)"
proof -
  let ?t = "tick s + 1"
  obtain s1 where s1: "popUp (s\<lparr>tick := ?t\<rparr>) kTimingTypeSecond = Some s1" "tick s1 = ?t"
      "last_ts s1 = last_ts s"
      "evolves s s1 (\<lambda>v. if v = kTimingTypeSecond then 1 else 0)"
    using popUp_ok [OF tick_inv(1) [OF assms], of ?t kTimingTypeSecond]
    by (auto simp: evolves_tick)
  then have inv1: "tw_inv s1" by (simp add: evolves_def)
  have second: "\<exists>s'. popUp s1 w = Some s' \<and> tick s' = ?t \<and> last_ts s' = last_ts s
      \<and> evolves s s' (\<lambda>v. (if v = kTimingTypeSecond then 1 else 0) + (if v = w then 1 else 0))" for w
    using popUp_ok [OF inv1, of w] evolves_trans [OF s1(4)] s1(2,3) by fastforce
  consider (minute) "?t mod 60 \<noteq> 0" | (hour) "?t mod 60 = 0" "?t mod 3600 \<noteq> 0"
    | (day) "?t mod 60 = 0" "?t mod 3600 = 0" "?t mod 86400 \<noteq> 0"
    | (none) "?t mod 60 = 0" "?t mod 3600 = 0" "?t mod 86400 = 0" by metis
  then show ?thesis
  proof cases
    case minute
    from second [of kTimingTypeMinute] obtain s' where "popUp s1 kTimingTypeMinute = Some s'"
        "tick s' = ?t" "last_ts s' = last_ts s" and e: "evolves s s' (\<lambda>v. (if v = kTimingTypeSecond then 1 else 0)
           + (if v = kTimingTypeMinute then 1 else 0))" by blast
    moreover have "evolves s s' (\<lambda>w. if popped ?t w then 1 else 0)"
      by (rule evolves_cong [OF e], rename_tac w, case_tac w) (use minute in auto)
    ultimately show ?thesis using s1(1,2) minute by (simp add: advance_def timing_consts)
  next
    case hour
    from second [of kTimingTypeHour] obtain s' where "popUp s1 kTimingTypeHour = Some s'"
        "tick s' = ?t" "last_ts s' = last_ts s" and e: "evolves s s' (\<lambda>v. (if v = kTimingTypeSecond then 1 else 0)
           + (if v = kTimingTypeHour then 1 else 0))" by blast
    moreover have "evolves s s' (\<lambda>w. if popped ?t w then 1 else 0)"
      by (rule evolves_cong [OF e], rename_tac w, case_tac w) (use hour in auto)
    ultimately show ?thesis using s1(1,2) hour by (simp add: advance_def timing_consts)
  next
    case day
    from second [of kTimingTypeDay] obtain s' where "popUp s1 kTimingTypeDay = Some s'"
        "tick s' = ?t" "last_ts s' = last_ts s" and e: "evolves s s' (\<lambda>v. (if v = kTimingTypeSecond then 1 else 0)
           + (if v = kTimingTypeDay then 1 else 0))" by blast
    moreover have "evolves s s' (\<lambda>w. if popped ?t w then 1 else 0)"
      by (rule evolves_cong [OF e], rename_tac w, case_tac w) (use day in auto)
    ultimately show ?thesis using s1(1,2) day by (simp add: advance_def timing_consts)
  next
    case none
    have "evolves s s1 (\<lambda>w. if popped ?t w then 1 else 0)"
      by (rule evolves_cong [OF s1(4)], rename_tac w, case_tac w) (use none in auto)
    then show ?thesis using s1 none by (simp add: advance_def timing_consts)
  qed
qed

lemma ticks_ok:
  assumes "tw_inv s"
  shows "\<exists>s'. iterate advance n s = Some s' \<and> tick s' = tick s + int n
           \<and> evolves s s' (pops (tick s) n)"
proof (induction n)
  case 0
  show ?case using evolves_refl [OF assms] by (auto intro: evolves_cong)
next
  case (Suc n)
  then obtain s1 where s1: "iterate advance n s = Some s1" "tick s1 = tick s + int n"
      "evolves s s1 (pops (tick s) n)" by blast
  then have "tw_inv s1" by (simp add: evolves_def)
  from advance_ok [OF this] obtain s2 where s2: "advance s1 = Some s2" "tick s2 = tick s1 + 1"
      "evolves s1 s2 (\<lambda>w. if popped (tick s1 + 1) w then 1 else 0)" by blast
  have "evolves s s2 (pops (tick s) (Suc n))"
    using evolves_trans [OF s1(3) s2(3)] s1(2) by (auto intro: evolves_cong)
  with s1 s2 show ?case by (simp add: iterate_Suc_last del: iterate.simps pops.simps)
qed


subsection \<open>The countdown interface\<close>

text \<open>
  What a client that keeps an object alive by re-inserting it relies on: every reference
  has a number of ticks left, a tick takes one off each, and the object expires when its
  last reference does.
\<close>

locale countdown =
  fixes ok :: "'s \<Rightarrow> bool"
    and tracked :: "'s \<Rightarrow> 'e \<Rightarrow> bool"
    and left :: "'s \<Rightarrow> 'e \<Rightarrow> nat set"
    and expiries :: "'s \<Rightarrow> 'e \<Rightarrow> nat"
    and step :: "'s \<Rightarrow> 's option"
    and add :: "'s \<Rightarrow> nat \<Rightarrow> 'e \<Rightarrow> 's"
    and limit :: nat
  assumes step_ok: "ok s \<Longrightarrow> tracked s e \<Longrightarrow>
      \<exists>s'. step s = Some s' \<and> ok s' \<and> tracked s' e \<and> left s' e = {i. Suc i \<in> left s e}
        \<and> expiries s' e = expiries s e + (if left s e \<noteq> {} \<and> left s' e = {} then 1 else 0)"
    and add_ok: "ok s \<Longrightarrow> tracked s e \<Longrightarrow> 0 < d \<Longrightarrow> d < limit \<Longrightarrow>
      ok (add s d e) \<and> tracked (add s d e) e \<and> left (add s d e) e = insert (d - 1) (left s e)
        \<and> expiries (add s d e) e = expiries s e"
begin

lemma steps_ok:
  assumes "ok s" and "tracked s e"
  shows "\<exists>s'. iterate step n s = Some s' \<and> ok s' \<and> tracked s' e
           \<and> left s' e = {i. i + n \<in> left s e}
           \<and> expiries s' e = expiries s e + (if left s e \<noteq> {} \<and> left s' e = {} then 1 else 0)"
proof (induction n)
  case 0
  show ?case using assms by simp
next
  case (Suc n)
  then obtain s1 where s1: "iterate step n s = Some s1" "ok s1" "tracked s1 e"
      "left s1 e = {i. i + n \<in> left s e}"
      "expiries s1 e = expiries s e + (if left s e \<noteq> {} \<and> left s1 e = {} then 1 else 0)" by blast
  from step_ok [OF s1(2,3)] obtain s2 where s2: "step s1 = Some s2" "ok s2" "tracked s2 e"
      "left s2 e = {i. Suc i \<in> left s1 e}"
      "expiries s2 e = expiries s1 e + (if left s1 e \<noteq> {} \<and> left s2 e = {} then 1 else 0)" by blast
  have "left s1 e = {} \<Longrightarrow> left s2 e = {}" "left s e = {} \<Longrightarrow> left s1 e = {}"
    using s1(4) s2(4) by auto
  then have "expiries s2 e = expiries s e + (if left s e \<noteq> {} \<and> left s2 e = {} then 1 else 0)"
    using s1(5) s2(5) by auto
  with s1 s2 show ?case by (auto simp: iterate_Suc_last simp del: iterate.simps)
qed

text \<open>
  Re-inserting with a delay that no older reference exceeds restarts the countdown: the
  object expires, once, on the \<open>d\<close>-th tick after it.
\<close>

lemma restart:
  assumes "ok s" and "tracked s e" and "0 < d" and "d < limit" and "\<forall>i \<in> left s e. i < d"
  shows "\<exists>s'. iterate step n (add s d e) = Some s' \<and> ok s' \<and> tracked s' e
           \<and> (left s' e = {} \<longleftrightarrow> d \<le> n) \<and> (\<forall>i \<in> left s' e. i < d)
           \<and> expiries s' e = expiries s e + (if d \<le> n then 1 else 0)"
proof -
  note a = add_ok [OF assms(1-4)]
  then obtain s' where s': "iterate step n (add s d e) = Some s'" "ok s'" "tracked s' e"
      "left s' e = {i. i + n \<in> left (add s d e) e}"
      "expiries s' e = expiries (add s d e) e
         + (if left (add s d e) e \<noteq> {} \<and> left s' e = {} then 1 else 0)"
    using steps_ok by blast
  have "left s' e = {} \<longleftrightarrow> d \<le> n"
  proof
    assume "left s' e = {}"
    then have "\<not> (d - 1 - n) + n = d - 1" using s'(4) a by force
    then show "d \<le> n" by simp
  next
    assume "d \<le> n"
    with assms(3,5) show "left s' e = {}" unfolding s'(4) using a by fastforce
  qed
  moreover have "\<forall>i \<in> left s' e. i < d"
    unfolding s'(4) using a assms(3,5) by fastforce
  ultimately show ?thesis using s' a by auto
qed

text \<open>
  Re-inserting again and again, each time fewer than \<open>d\<close> ticks after the last time,
  keeps the object from expiring.
\<close>

fun refreshes :: "nat \<Rightarrow> 'e \<Rightarrow> nat list \<Rightarrow> 's \<Rightarrow> 's option" where
  "refreshes d e [] s = Some s"
| "refreshes d e (n # ns) s =
     (case iterate step n (add s d e) of None \<Rightarrow> None | Some s' \<Rightarrow> refreshes d e ns s')"

lemma refreshes_keep_alive:
  assumes "ok s" and "tracked s e" and "0 < d" and "d < limit" and "\<forall>i \<in> left s e. i < d"
    and "\<forall>n \<in> set ns. n < d"
  shows "\<exists>s'. refreshes d e ns s = Some s' \<and> ok s' \<and> tracked s' e \<and> (\<forall>i \<in> left s' e. i < d)
           \<and> expiries s' e = expiries s e \<and> (ns \<noteq> [] \<longrightarrow> left s' e \<noteq> {})"
  using assms(1,2,5,6)
proof (induction ns arbitrary: s)
  case Nil
  then show ?case by simp
next
  case (Cons n ns)
  from restart [OF Cons.prems(1,2) assms(3,4) Cons.prems(3), of n] Cons.prems(4)
  obtain s1 where s1: "iterate step n (add s d e) = Some s1" "ok s1" "tracked s1 e"
      "left s1 e \<noteq> {}" "\<forall>i \<in> left s1 e. i < d" "expiries s1 e = expiries s e" by auto
  from Cons.IH [OF s1(2,3,5)] Cons.prems(4) s1 show ?case
    by (cases ns) auto
qed

end

text \<open>
  The wheel provides the interface for entries that sit in the second wheel only, which
  is where every delay below a minute goes.
\<close>

definition short_lived :: "timing_wheel \<Rightarrow> entry \<Rightarrow> bool" where
  "short_lived s e \<longleftrightarrow> eid e < next_id s \<and> (\<forall>w. w \<noteq> kTimingTypeSecond \<longrightarrow> occ s w e = {})
     \<and> (\<forall>i f. payload e = Every i f \<longrightarrow> valid_delay i)"

lemma held_short_lived: "short_lived s e \<Longrightarrow> held s e = (occ s kTimingTypeSecond e \<noteq> {})"
  unfolding held_iff short_lived_def by metis

interpretation second_wheel: countdown tw_inv short_lived "\<lambda>s. occ s kTimingTypeSecond"
    "\<lambda>s. count_list (fired s)" advance "\<lambda>s d. insertEntry s (int d)" 60
proof unfold_locales
  fix s e
  assume s: "tw_inv s" and e: "short_lived s e"
  from advance_ok [OF s] obtain s' where s': "advance s = Some s'"
      "evolves s s' (\<lambda>w. if popped (tick s + 1) w then 1 else 0)" by blast
  have e': "short_lived s' e"
    using s'(2) e by (auto simp: short_lived_def evolves_def)
  show "\<exists>s'. advance s = Some s' \<and> tw_inv s' \<and> short_lived s' e
      \<and> occ s' kTimingTypeSecond e = {i. Suc i \<in> occ s kTimingTypeSecond e}
      \<and> count_list (fired s') e = count_list (fired s) e
        + (if occ s kTimingTypeSecond e \<noteq> {} \<and> occ s' kTimingTypeSecond e = {} then 1 else 0)"
    using s' e e' held_short_lived [OF e] held_short_lived [OF e']
    by (auto simp: evolves_def short_lived_def)
next
  fix s e and d :: nat
  assume s: "tw_inv s" and e: "short_lived s e" and d: "0 < d" "d < 60"
  then have sz: "sized s" by (simp add: tw_inv_def)
  have "tw_inv (insertEntry s (int d) e)"
    using e by (intro insertEntry_inv [OF s]) (auto simp: short_lived_def)
  then show "tw_inv (insertEntry s (int d) e) \<and> short_lived (insertEntry s (int d) e) e
      \<and> occ (insertEntry s (int d) e) kTimingTypeSecond e
          = insert (d - 1) (occ s kTimingTypeSecond e)
      \<and> count_list (fired (insertEntry s (int d) e)) e = count_list (fired s) e"
    using e d occ_insertEntry_second [OF sz, of "int d"]
    by (simp add: short_lived_def nat_diff_distrib)
qed


subsection \<open>Properties\<close>

lemma fresh_entry:
  assumes "tw_inv s" and "next_id s \<le> eid e"
  shows "occ s w e = {}" and "count_list (fired s) e = 0"
proof -
  have "\<not> held s e" using assms by (auto simp: tw_inv_def)
  then show "occ s w e = {}" by (auto simp: held_iff)
  show "count_list (fired s) e = 0"
    using assms by (force simp: tw_inv_def count_list_0_iff)
qed

text \<open>A fresh one-shot timer: what \<open>runAfter\<close> builds for a delay the wheels cover.\<close>

lemma runAfter_valid:
  fixes f :: nat and w :: timing_type
  assumes "tw_inv s" and "valid_delay d"
  defines "e \<equiv> Entry (next_id s) (Once f)"
  defines "s1 \<equiv> insertEntry (s\<lparr>next_id := Suc (next_id s)\<rparr>) d e"
  shows "runAfter s d f = Some s1" and "tw_inv s1" and "tick s1 = tick s"
    and "eid e < next_id s1" and "occ s1 w e = {i. (w, i) \<in> set (slots d)}"
    and "count_list (fired s1) e = 0" and "held s1 e"
proof -
  have sz: "sized s" using assms(1) by (simp add: tw_inv_def)
  then show h: "held s1 e" by (simp add: s1_def held_insertEntry assms(2))
  then show "runAfter s d f = Some s1"
    by (simp add: runAfter_def release_def s1_def e_def Let_def)
  show "tw_inv s1"
    unfolding s1_def by (rule insertEntry_inv [OF alloc_inv [OF assms(1)]]) (auto simp: e_def)
  show "tick s1 = tick s" by (simp add: s1_def)
  show "eid e < next_id s1" by (simp add: s1_def e_def)
  have "occ s w e = {}" using fresh_entry [OF assms(1)] by (simp add: e_def)
  with sz slots_in_range show "occ s1 w e = {i. (w, i) \<in> set (slots d)}"
    by (auto simp: s1_def insertEntry_slots occ_insert_slots sized_def)
  show "count_list (fired s1) e = 0"
    using fresh_entry [OF assms(1)] by (simp add: s1_def e_def)
qed

text \<open>
  C12. Every timer fires exactly once, on the tick that drops the last of the slots its
  delay put it in: for every delay the wheels cover and every number \<open>n\<close> of ticks, the
  destructor has run iff each slot \<open>(w, i)\<close> of \<open>slots d\<close> has been reached by the
  \<open>pops\<close> of its wheel.
\<close>

theorem timer_fires_with_last_slot:
  assumes "tw_inv s" and "valid_delay d"
  shows "\<exists>s1. runAfter s d f = Some s1
     \<and> (\<forall>n. \<exists>s'. iterate advance n s1 = Some s' \<and> tw_inv s'
          \<and> count_list (fired s') (Entry (next_id s) (Once f))
              = (if list_all (\<lambda>(w, i). i < pops (tick s) n w) (slots d) then 1 else 0))"
proof -
  let ?e = "Entry (next_id s) (Once f)"
  let ?s1 = "insertEntry (s\<lparr>next_id := Suc (next_id s)\<rparr>) d ?e"
  note r = runAfter_valid [OF assms, of f]
  have "\<exists>s'. iterate advance n ?s1 = Some s' \<and> tw_inv s'
      \<and> count_list (fired s') ?e
          = (if list_all (\<lambda>(w, i). i < pops (tick s) n w) (slots d) then 1 else 0)" for n
  proof -
    from ticks_ok [OF r(2), of n] r(3) obtain s'
      where s': "iterate advance n ?s1 = Some s'" "evolves ?s1 s' (pops (tick s) n)" by auto
    have o: "occ s' w ?e = {i. (w, i + pops (tick s) n w) \<in> set (slots d)}" for w
      using s'(2) r(4) r(5) by (simp add: evolves_def)
    have "(w, i) \<in> set (slots d) \<Longrightarrow> \<not> i < pops (tick s) n w \<Longrightarrow> i - pops (tick s) n w \<in> occ s' w ?e"
      for w i by (simp add: o)
    then have "held s' ?e \<longleftrightarrow> \<not> list_all (\<lambda>(w, i). i < pops (tick s) n w) (slots d)"
      unfolding held_iff list_all_iff using o by fastforce
    with s' r(4,6,7) show ?thesis by (auto simp: evolves_def)
  qed
  with r(1) show ?thesis by blast
qed

theorem timer_fires_with_last_slot_witness:
  "\<exists>s1. runAfter new_TimingWheel 3661 7 = Some s1
     \<and> (\<exists>s'. iterate advance 1 s1 = Some s'
          \<and> count_list (fired s') (Entry 0 (Once 7)) = 0)"
proof -
  have v: "valid_delay 3661" by (simp add: valid_delay_def timing_consts)
  have "slots 3661 = [(kTimingTypeHour, 0), (kTimingTypeMinute, 0), (kTimingTypeSecond, 0)]"
    by (simp add: slots.simps)
  then show ?thesis
    using timer_fires_with_last_slot [OF new_TimingWheel_inv v, of 7]
    by (fastforce simp: new_TimingWheel_def dest: spec [of _ 1])
qed

lemma pops_second [simp]: "pops t n kTimingTypeSecond = n"
  by (induction n) auto

lemma short_timer:
  assumes "tw_inv s" and "0 < d" and "d < 60"
  shows "\<exists>s1. runAfter s d f = Some s1
     \<and> (\<forall>n. \<exists>s'. iterate advance n s1 = Some s'
          \<and> count_list (fired s') (Entry (next_id s) (Once f)) = (if d \<le> int n then 1 else 0))"
proof -
  let ?e = "Entry (next_id s) (Once f)"
  have v: "valid_delay d" using assms by (simp add: valid_delay_def timing_consts)
  note r = runAfter_valid [OF assms(1) v, of f]
  have sl: "short_lived (s\<lparr>next_id := Suc (next_id s)\<rparr>) ?e"
    using fresh_entry [OF assms(1)] by (simp add: short_lived_def)
  have none: "occ s kTimingTypeSecond ?e = {}" and zero: "count_list (fired s) ?e = 0"
    using fresh_entry [OF assms(1)] by simp_all
  have nd: "0 < nat d" "nat d < 60" using assms by simp_all
  have "\<exists>s'. iterate advance n (insertEntry (s\<lparr>next_id := Suc (next_id s)\<rparr>) d ?e) = Some s'
      \<and> count_list (fired s') ?e = (if d \<le> int n then 1 else 0)" for n
    using second_wheel.restart [OF alloc_inv [OF assms(1)] sl nd, of n] assms none zero
    by (auto simp: nat_le_iff)
  with r(1) show ?thesis by blast
qed

text \<open>
  A timer of 1 to 59 seconds fires exactly once, on exactly the tick its delay says,
  from any reachable state of the wheel.
\<close>

lemma short_timer_exact:
  assumes "tw_inv s" and "0 < d" and "d < 60"
  shows "\<exists>s1. runAfter s d f = Some s1
     \<and> (\<forall>n. \<exists>s'. iterate advance n s1 = Some s'
          \<and> count_list (fired s') (Entry (next_id s) (Once f)) = (if d \<le> int n then 1 else 0))"
  using assms by (rule short_timer)

lemma short_timer_exact_witness:
  "\<exists>s1 s'. runAfter new_TimingWheel 2 7 = Some s1 \<and> iterate advance 2 s1 = Some s'
      \<and> count_list (fired s') (Entry 0 (Once 7)) = 1"
proof -
  have "next_id new_TimingWheel = 0" by (simp add: new_TimingWheel_def)
  then show ?thesis
    using short_timer_exact [OF new_TimingWheel_inv, of 2 7]
    by (fastforce dest: spec [of _ 2])
qed

lemma pops_minute_start:
  assumes "t mod 60 = 0" and "n < 60"
  shows "pops t n kTimingTypeMinute = n"
  using assms(2)
proof (induction n)
  case 0
  then show ?case by simp
next
  case (Suc n)
  have "(t + int n + 1) mod 60 \<noteq> 0"
  proof
    assume "(t + int n + 1) mod 60 = 0"
    with assms(1) have "(int n + 1) mod 60 = 0" by presburger
    with Suc.prems show False by (simp add: zmod_trivial_iff)
  qed
  with Suc show ?case by simp
qed

text \<open>
  A timer of one minute or more fires too early. Started on a full minute, a timer of
  \<open>60 m + s\<close> seconds (less than an hour) has fired after \<open>max m s\<close> ticks, at most 59:
  the minute wheel is advanced on every tick that is not a full minute, and the entry for
  the remaining seconds is inserted at once instead of when the minutes are over.
\<close>

lemma minute_timer_fires_early:
  assumes "tw_inv s" and "tick s mod 60 = 0" and "60 \<le> d" and "d < 3600"
  shows "\<exists>s1. runAfter s d f = Some s1
     \<and> (\<forall>n < 60. \<exists>s'. iterate advance n s1 = Some s'
          \<and> count_list (fired s') (Entry (next_id s) (Once f))
              = (if max (d div 60) (d mod 60) \<le> int n then 1 else 0))"
proof -
  have v: "valid_delay d" using assms by (simp add: valid_delay_def timing_consts)
  have sl: "slots d = (kTimingTypeMinute, nat (d div 60 - 1))
      # (if d mod 60 = 0 then [] else [(kTimingTypeSecond, nat (d mod 60 - 1))])"
    using assms pos_mod_sign [of 60 d]
    by (auto simp: slots.simps [of d] slots.simps [of "d mod 60"])
  have early: "list_all (\<lambda>(w, i). i < pops (tick s) n w) (slots d)
      = (max (d div 60) (d mod 60) \<le> int n)" if "n < 60" for n
  proof -
    have m: "1 \<le> d div 60" "0 \<le> d mod 60" using assms(3) by auto
    show ?thesis
      unfolding sl using that pops_minute_start [OF assms(2) that] m by auto
  qed
  from timer_fires_with_last_slot [OF assms(1) v, of f] obtain s1
    where "runAfter s d f = Some s1" and "\<forall>n. \<exists>s'. iterate advance n s1 = Some s' \<and> tw_inv s'
          \<and> count_list (fired s') (Entry (next_id s) (Once f))
              = (if list_all (\<lambda>(w, i). i < pops (tick s) n w) (slots d) then 1 else 0)" by blast
  then show ?thesis using early by (intro exI [of _ s1]) (metis (no_types, lifting))
qed

lemma minute_timer_fires_early_witness:
  "\<exists>s1 s'. runAfter new_TimingWheel 90 7 = Some s1 \<and> iterate advance 30 s1 = Some s'
      \<and> count_list (fired s') (Entry 0 (Once 7)) = 1"
proof -
  have "next_id new_TimingWheel = 0" "tick new_TimingWheel mod 60 = 0"
    by (simp_all add: new_TimingWheel_def)
  then show ?thesis
    using minute_timer_fires_early [OF new_TimingWheel_inv, of 90 7]
    by (fastforce dest: spec [of _ 30])
qed


text \<open>
  \<open>runEvery\<close> never returns for an interval the wheels do not cover (zero, negative,
  or 31 days and more): its entry is destroyed at once and calls \<open>runEvery\<close> again.
\<close>

lemma runEvery_bad_interval_diverges:
  assumes "tw_inv s" and "\<not> valid_delay i"
  shows "runEvery s i f = None"
proof (rule ccontr)
  assume "runEvery s i f \<noteq> None"
  then obtain y where y: "runEvery s i f = Some y" by blast
  have "tw_inv s \<longrightarrow> valid_delay i"
    using y
  proof (rule runEvery.raw_induct [of "\<lambda>s i f y. tw_inv s \<longrightarrow> valid_delay i", rotated])
    fix run :: "timing_wheel \<Rightarrow> int \<Rightarrow> nat \<Rightarrow> timing_wheel option"
      and s :: timing_wheel and i f y
    assume IH: "\<And>s i f y. run s i f = Some y \<Longrightarrow> tw_inv s \<longrightarrow> valid_delay i"
    let ?e = "Entry (next_id s) (Every i f)"
    let ?s1 = "insertEntry (s\<lparr>next_id := Suc (next_id s)\<rparr>) i ?e"
    assume run: "(let e = ?e; s1 = insertEntry (s\<lparr>next_id := Suc (next_id s)\<rparr>) i e
        in if held s1 e then Some s1 else run (s1\<lparr>fired := fired s1 @ [e]\<rparr>) i f) = Some y"
    show "tw_inv s \<longrightarrow> valid_delay i"
    proof
      assume s: "tw_inv s"
      show "valid_delay i"
      proof (rule ccontr)
        assume bad: "\<not> valid_delay i"
        then have eq: "?s1 = s\<lparr>next_id := Suc (next_id s)\<rparr>"
          by (simp add: insertEntry_slots slots_Nil_iff [THEN iffD2])
        have "\<not> held s ?e" using fresh_entry(1) [OF s, of ?e] by (simp add: held_iff)
        with run eq have "run (?s1\<lparr>fired := fired s @ [?e]\<rparr>) i f = Some y" by simp
        moreover have "tw_inv (?s1\<lparr>fired := fired s @ [?e]\<rparr>)"
          using alloc_inv [OF s] by (auto simp: eq tw_inv_def distinct_slots_def)
        ultimately show False using IH bad by blast
      qed
    qed
  qed
  with assms show False by simp
qed

lemma runEvery_bad_interval_diverges_witness: "runEvery new_TimingWheel 0 7 = None"
  using runEvery_bad_interval_diverges [OF new_TimingWheel_inv, of 0 7]
  by (simp add: valid_delay_def)

text \<open>
  \<open>onTimer\<close> always returns and keeps the invariant, but advances the wheels by at most
  one tick per call: time that passed beyond one second since the last call is dropped, and
  the very first call only records the time.
\<close>

lemma onTimer_one_tick_at_most:
  assumes "tw_inv s"
  shows "\<exists>s'. onTimer s now = Some s' \<and> tw_inv s'
     \<and> tick s' = tick s + (if last_ts s \<noteq> 0 \<and> 1000 \<le> now - last_ts s then 1 else 0)
     \<and> last_ts s' = (if last_ts s = 0 \<or> 1000 \<le> now - last_ts s then now else last_ts s)"
proof (cases "last_ts s \<noteq> 0 \<and> 1000 \<le> now - last_ts s")
  case True
  have "tw_inv (s\<lparr>last_ts := now\<rparr>)"
    using assms by (simp add: tw_inv_def distinct_slots_def)
  from advance_ok [OF this] obtain s' where "advance (s\<lparr>last_ts := now\<rparr>) = Some s'"
      "tw_inv s'" "tick s' = tick s + 1" "last_ts s' = now" by (auto simp: evolves_def)
  with True show ?thesis by (auto simp: onTimer_def)
next
  case False
  have "tw_inv (s\<lparr>last_ts := now\<rparr>)"
    using assms by (simp add: tw_inv_def distinct_slots_def)
  with False assms show ?thesis by (auto simp: onTimer_def Let_def)
qed

lemma onTimer_one_tick_at_most_witness:
  "\<exists>s'. onTimer new_TimingWheel 5000 = Some s' \<and> tick s' = 0 \<and> last_ts s' = 5000"
  using onTimer_one_tick_at_most [OF new_TimingWheel_inv, of 5000]
  by (auto simp: new_TimingWheel_def)

text \<open>
  Of the entries with the payload \<open>pl\<close> one is in the wheels, in slot \<open>k\<close> of the seconds' wheel; \<open>runs\<close> counts
  those whose destructors have run.
\<close>

definition alone :: "payload \<Rightarrow> timing_wheel \<Rightarrow> nat \<Rightarrow> bool" where
  "alone pl s k \<longleftrightarrow> (\<exists>e. payload e = pl
     \<and> (\<forall>w e'. payload e' = pl \<longrightarrow> occ s w e' = (if e' = e \<and> w = kTimingTypeSecond then {k} else {})))"

definition runs :: "payload \<Rightarrow> timing_wheel \<Rightarrow> nat" where
  "runs pl s = length (filter (\<lambda>e. payload e = pl) (fired s))"

definition same_class :: "payload \<Rightarrow> timing_wheel \<Rightarrow> timing_wheel \<Rightarrow> bool" where
  "same_class pl s s' \<longleftrightarrow> sized s' \<and> runs pl s' = runs pl s
     \<and> (\<forall>w e. payload e = pl \<longrightarrow> occ s' w e = occ s w e)"

lemma alone_same_class: "same_class pl s s' \<Longrightarrow> alone pl s k \<Longrightarrow> alone pl s' k \<and> runs pl s' = runs pl s"
  by (simp add: same_class_def alone_def)

lemma release_other:
  assumes "sized s" and "payload e \<noteq> pl" and "\<And>j g. payload e = Every j g \<Longrightarrow> valid_delay j" and "release s e = Some s'"
  shows "same_class pl s s'"
proof (cases "held s e")
  case False
  let ?s = "s\<lparr>fired := fired s @ [e]\<rparr>"
  show ?thesis
  proof (cases "payload e")
    case (Every j g)
    let ?e = "Entry (next_id ?s) (Every j g)"
    have "s' = insertEntry (?s\<lparr>next_id := Suc (next_id ?s)\<rparr>) j ?e"
      using assms False Every by (simp add: release_def fire_def runEvery_valid)
    moreover have "e' \<noteq> ?e" if "payload e' = pl" for e' using that assms(2) Every by auto
    ultimately show ?thesis using assms(1,2) by (simp add: same_class_def runs_def occ_insertEntry_other)
  qed (use assms False in \<open>auto simp: release_def fire_def same_class_def runs_def\<close>)
qed (use assms in \<open>simp add: release_def same_class_def\<close>)

lemma release_all_others:
  assumes "sized s" and "\<forall>e \<in> set es. payload e \<noteq> pl \<and> (\<forall>j g. payload e = Every j g \<longrightarrow> valid_delay j)"
    and "release_all s es = Some s'"
  shows "same_class pl s s'"
  using assms
proof (induction es arbitrary: s)
  case Nil
  then show ?case by (simp add: same_class_def)
next
  case (Cons e es)
  obtain s1 where s1: "release s e = Some s1" "release_all s1 es = Some s'"
    using Cons.prems(3) by (auto split: Option.bind_splits)
  have 1: "same_class pl s s1" using Cons.prems s1(1) by (intro release_other [of s e]) auto
  have "same_class pl s1 s'" using 1 Cons.prems(2) s1(2) by (intro Cons.IH) (auto simp: same_class_def)
  with 1 show ?case by (simp add: same_class_def)
qed

text \<open>What the front slot of a wheel holds may be dropped, and its timers are valid.\<close>

lemma front_valid: "tw_inv s \<Longrightarrow> e \<in> set (hd (wheels s w)) \<Longrightarrow> payload e = Every j g \<Longrightarrow> valid_delay j"
  using front_occ [of s e w] unfolding tw_inv_def held_iff by blast

lemma sized_drop_front: "tw_inv s \<Longrightarrow> sized (drop_front s w)"
  using drop_front_inv [of s w] by (simp add: tw_inv_def)

lemma popUp_alone:
  assumes "tw_inv s" and "alone pl s k" and "popUp s w = Some s'" and "w = kTimingTypeSecond \<Longrightarrow> 0 < k"
  shows "alone pl s' (if w = kTimingTypeSecond then k - 1 else k) \<and> runs pl s' = runs pl s"
proof -
  have sz: "sized s" using assms(1) by (simp add: tw_inv_def)
  obtain e where e: "payload e = pl"
      "\<And>v e'. payload e' = pl \<Longrightarrow> occ s v e' = (if e' = e \<and> v = kTimingTypeSecond then {k} else {})"
    using assms(2) by (auto simp: alone_def)
  have "payload e' \<noteq> pl" if "e' \<in> set (hd (wheels s w))" for e'
    using that front_occ [OF sz, of e' w] e(2) [of e' w] assms(4) by (auto split: if_splits)
  then have c: "same_class pl (drop_front s w) s'"
    using assms(1,3) front_valid [OF assms(1)]
    by (intro release_all_others [OF sized_drop_front [OF assms(1)]]) (auto simp: popUp_def)
  have "alone pl (drop_front s w) (if w = kTimingTypeSecond then k - 1 else k)"
    unfolding alone_def occ_drop_front [OF sz] using e assms(4) by (intro exI [of _ e]) auto
  moreover have "runs pl (drop_front s w) = runs pl s" by (simp add: runs_def)
  ultimately show ?thesis using alone_same_class [OF c] by simp
qed

text \<open>The timer runs when its slot comes to the front, and is entered again.\<close>

lemma popUp_rearms:
  assumes "tw_inv s" and "alone (Every (int i) f) s 0" and "0 < i" and "i < 60" and "popUp s kTimingTypeSecond = Some s'"
  shows "alone (Every (int i) f) s' (i - 1) \<and> runs (Every (int i) f) s' = Suc (runs (Every (int i) f) s)"
proof -
  let ?pl = "Every (int i) f" and ?d = "drop_front s kTimingTypeSecond"
  let ?front = "hd (wheels s kTimingTypeSecond)"
  have sz: "sized s" using assms(1) by (simp add: tw_inv_def)
  obtain e where e: "payload e = ?pl"
      "\<And>v e'. payload e' = ?pl \<Longrightarrow> occ s v e' = (if e' = e \<and> v = kTimingTypeSecond then {0} else {})"
    using assms(2) by (auto simp: alone_def)
  have only: "e' = e" if "e' \<in> set ?front" "payload e' = ?pl" for e'
    using that front_occ [OF sz, of e' kTimingTypeSecond] e(2) [of e' kTimingTypeSecond] by (auto split: if_splits)
  have "e \<in> set ?front" using front_occ [OF sz, of e kTimingTypeSecond] e by simp
  then obtain xs ys where es: "?front = xs @ e # ys" by (meson split_list)
  have "?front \<in> set (wheels s kTimingTypeSecond)" using sized_nonempty [OF sz] by simp
  then have dist: "distinct ?front" using assms(1) by (auto simp: tw_inv_def distinct_slots_def)
  have others: "\<forall>e' \<in> set xs \<union> set ys. payload e' \<noteq> ?pl \<and> (\<forall>j g. payload e' = Every j g \<longrightarrow> valid_delay j)"
  proof
    fix e'
    assume e': "e' \<in> set xs \<union> set ys"
    then have front: "e' \<in> set ?front" and "e' \<noteq> e" using dist unfolding es by auto
    with only have "payload e' \<noteq> ?pl" by blast
    with front_valid [OF assms(1) front] show "payload e' \<noteq> ?pl \<and> (\<forall>j g. payload e' = Every j g \<longrightarrow> valid_delay j)"
      by blast
  qed
  have ra: "release_all t (as @ bs) = Option.bind (release_all t as) (\<lambda>t'. release_all t' bs)" for t as bs
    by (induction as arbitrary: t) (auto split: Option.bind_splits)
  obtain s1 s2 where s: "release_all ?d xs = Some s1" "release s1 e = Some s2" "release_all s2 ys = Some s'"
    using assms(5) by (auto simp: popUp_def Let_def es ra split: Option.bind_splits)
  have c1: "same_class ?pl ?d s1"
    using others by (intro release_all_others [OF sized_drop_front [OF assms(1)] _ s(1)]) auto
  have o1: "occ s1 w e' = {}" if "payload e' = ?pl" for w e'
    using c1 that e(2) by (auto simp: same_class_def occ_drop_front [OF sz])
  let ?t = "s1\<lparr>fired := fired s1 @ [e]\<rparr>"
  let ?e = "Entry (next_id ?t) ?pl"
  have v: "valid_delay (int i)" using assms(3,4) by (simp add: valid_delay_def timing_consts)
  have "\<not> held s1 e" using o1 [OF e(1)] by (simp add: held_iff)
  then have s2: "s2 = insertEntry (?t\<lparr>next_id := Suc (next_id ?t)\<rparr>) (int i) ?e"
    using s(2) e(1) c1 v by (simp add: release_def fire_def runEvery_valid same_class_def)
  have "occ s2 w e' = (if e' = ?e \<and> w = kTimingTypeSecond then {i - 1} else {})" if "payload e' = ?pl" for w e'
    using that o1 c1 assms(3,4) unfolding s2
    by (cases "e' = ?e") (simp_all add: occ_insertEntry_second occ_insertEntry_other same_class_def nat_diff_distrib)
  then have "alone ?pl s2 (i - 1)" unfolding alone_def by (intro exI [of _ ?e]) simp
  moreover have "runs ?pl s2 = Suc (runs ?pl s)" using c1 e(1) by (simp add: s2 runs_def same_class_def)
  moreover have "same_class ?pl s2 s'"
    using others s(3) c1 by (intro release_all_others [of s2 ys]) (auto simp: s2 same_class_def)
  ultimately show ?thesis using alone_same_class by fastforce
qed

lemma advance_alone:
  assumes "tw_inv s" and "alone (Every (int i) f) s k" and "0 < i" and "i < 60" and "advance s = Some s'"
  shows "alone (Every (int i) f) s' (if k = 0 then i - 1 else k - 1)
     \<and> runs (Every (int i) f) s' = (if k = 0 then Suc (runs (Every (int i) f) s) else runs (Every (int i) f) s)"
proof -
  let ?pl = "Every (int i) f" and ?s = "s\<lparr>tick := tick s + 1\<rparr>"
  have inv: "tw_inv ?s" by (rule tick_inv(1) [OF assms(1)])
  have a: "alone ?pl ?s k" "runs ?pl ?s = runs ?pl s" using assms(2) by (simp_all add: alone_def runs_def)
  obtain s1 where s1: "popUp ?s kTimingTypeSecond = Some s1"
    using assms(5) by (auto simp: advance_def split: Option.bind_splits)
  have inv1: "tw_inv s1" using popUp_ok [OF inv, of kTimingTypeSecond] s1 by (auto simp: evolves_def)
  have 1: "alone ?pl s1 (if k = 0 then i - 1 else k - 1)
      \<and> runs ?pl s1 = (if k = 0 then Suc (runs ?pl s) else runs ?pl s)"
  proof (cases "k = 0")
    case True
    then show ?thesis using popUp_rearms [OF inv _ assms(3,4) s1] a by simp
  next
    case False
    then show ?thesis using popUp_alone [OF inv a(1) s1] a(2) by simp
  qed
  then have "alone ?pl s2 (if k = 0 then i - 1 else k - 1) \<and> runs ?pl s2 = runs ?pl s1"
    if "popUp s1 w = Some s2" "w \<noteq> kTimingTypeSecond" for s2 w
    using popUp_alone [OF inv1 conjunct1 [OF 1] that(1)] that(2) by simp
  with 1 show ?thesis using assms(5) s1 by (auto simp: advance_def split: if_splits)
qed

lemma ticks_alone:
  assumes "tw_inv s" and "alone (Every (int i) f) s (i - 1)" and "0 < i" and "i < 60"
  shows "\<exists>s'. iterate advance n s = Some s' \<and> tw_inv s' \<and> alone (Every (int i) f) s' (i - 1 - n mod i)
     \<and> runs (Every (int i) f) s' = runs (Every (int i) f) s + n div i"
proof (induction n)
  case 0
  then show ?case using assms by simp
next
  case (Suc n)
  then obtain s1 where s1: "iterate advance n s = Some s1" "tw_inv s1" "alone (Every (int i) f) s1 (i - 1 - n mod i)"
      "runs (Every (int i) f) s1 = runs (Every (int i) f) s + n div i" by blast
  obtain s2 where s2: "advance s1 = Some s2" "tw_inv s2" using advance_ok [OF s1(2)] by (auto simp: evolves_def)
  have lt: "n mod i < i" using assms(3) by simp
  have m: "Suc n mod i = (if n mod i = i - 1 then 0 else Suc (n mod i))" "Suc n div i = (if n mod i = i - 1 then Suc (n div i) else n div i)"
    using assms(3) by (auto simp: mod_Suc div_Suc)
  have k: "(if i - 1 - n mod i = 0 then i - 1 else i - 1 - n mod i - 1) = i - 1 - Suc n mod i"
      "(if i - 1 - n mod i = 0 then Suc r else r) + n div i = r + Suc n div i" for r
    using lt m by auto
  have it: "iterate advance (Suc n) s = Some s2"
    using s1(1) s2(1) by (simp add: iterate_Suc_last del: iterate.simps(2))
  have "alone (Every (int i) f) s2 (i - 1 - Suc n mod i)"
      "runs (Every (int i) f) s2 = runs (Every (int i) f) s + Suc n div i"
    using advance_alone [OF s1(2,3) assms(3,4) s2(1)] s1(4) k(1) k(2) [of "runs (Every (int i) f) s"]
    by (simp_all only:) (auto split: if_splits)
  with it s2(2) show ?case by blast
qed

lemma periodic_timer:
  assumes "tw_inv s" and "0 < i" and "i < 60" and "\<forall>e. held s e \<longrightarrow> payload e \<noteq> Every (int i) f"
  shows "\<exists>s1. runEvery s (int i) f = Some s1 \<and> (\<forall>n. \<exists>s'. iterate advance n s1 = Some s'
     \<and> runs (Every (int i) f) s' = runs (Every (int i) f) s + n div i)"
proof -
  let ?pl = "Every (int i) f" and ?e = "Entry (next_id s) (Every (int i) f)"
  let ?s1 = "insertEntry (s\<lparr>next_id := Suc (next_id s)\<rparr>) (int i) ?e"
  have v: "valid_delay (int i)" using assms(2,3) by (simp add: valid_delay_def timing_consts)
  have sz: "sized s" using assms(1) by (simp add: tw_inv_def)
  have "occ s w e' = {}" if "payload e' = ?pl" for w e' using assms(4) that by (auto simp: held_iff)
  then have "occ ?s1 w e' = (if e' = ?e \<and> w = kTimingTypeSecond then {i - 1} else {})" if "payload e' = ?pl" for w e'
    using that sz assms(2,3)
    by (cases "e' = ?e") (simp_all add: occ_insertEntry_second occ_insertEntry_other nat_diff_distrib)
  then have a: "alone ?pl ?s1 (i - 1)" unfolding alone_def by (intro exI [of _ ?e]) simp
  have "tw_inv ?s1" using v by (intro insertEntry_inv [OF alloc_inv [OF assms(1)]]) auto
  from ticks_alone [OF this a assms(2,3)] show ?thesis
    using runEvery_valid [OF sz v, of f] by (fastforce simp: runs_def)
qed

text \<open>
  C31. A periodic timer of 1 to 59 seconds does not drift: set on any well-formed wheel, at any tick and whatever
  other timers and supervised objects it holds, its callback has run exactly \<open>n div i\<close> times after \<open>n\<close> ticks,
  provided that the wheel holds no timer with the same interval and callback yet.
\<close>

theorem runEvery_fires_every_interval:
  assumes "tw_inv s" and "0 < i" and "i < 60" and "\<forall>e. held s e \<longrightarrow> payload e \<noteq> Every (int i) f"
  shows "\<exists>s1. runEvery s (int i) f = Some s1 \<and> (\<forall>n. \<exists>s'. iterate advance n s1 = Some s'
     \<and> runs (Every (int i) f) s' = runs (Every (int i) f) s + n div i)"
  using assms by (rule periodic_timer)

theorem runEvery_fires_every_interval_witness:
  "\<exists>s0 s1 s'. runEvery new_TimingWheel 7 3 = Some s0 \<and> runEvery s0 5 7 = Some s1 \<and> iterate advance 12 s1 = Some s'
      \<and> runs (Every 5 7) s' = 2"
proof -
  have n: "tw_inv new_TimingWheel" "sized new_TimingWheel" "valid_delay 7" "next_id new_TimingWheel = 0"
      "fired new_TimingWheel = []"
    using new_TimingWheel_inv by (auto simp: tw_inv_def valid_delay_def timing_consts new_TimingWheel_def)
  let ?s0 = "insertEntry (new_TimingWheel\<lparr>next_id := 1\<rparr>) 7 (Entry 0 (Every 7 3))"
  have r: "runEvery new_TimingWheel 7 3 = Some ?s0" using runEvery_valid [OF n(2,3), of 3] n(4) by simp
  have i: "tw_inv ?s0"
    using n(3,4) alloc_inv [OF n(1)] by (intro insertEntry_inv) auto
  have "\<forall>e. held ?s0 e \<longrightarrow> payload e \<noteq> Every (int 5) 7"
    using n(2) by (auto simp: held_insertEntry) (simp add: held_iff)
  from runEvery_fires_every_interval [OF i _ _ this] r n(5) show ?thesis
    by (fastforce simp: runs_def dest: spec [of _ 12])
qed

subsection \<open>Histories of a wheel\<close>

text \<open>
  The operations a loop performs on its wheel: timers, periodic timers, the supervision of a
  connection (whose entry is created, inserted and released by \<open>enableCheckIdleTime\<close>), the
  extension of a supervision whose entry is still held, and the clock.
\<close>

inductive wheel_step :: "timing_wheel \<Rightarrow> timing_wheel \<Rightarrow> bool" where
  after: "runAfter s d f = Some s' \<Longrightarrow> wheel_step s s'"
| every: "runEvery s i f = Some s' \<Longrightarrow> wheel_step s s'"
| supervise: "release (insertEntry (s\<lparr>next_id := Suc (next_id s)\<rparr>) d (Entry (next_id s) (Idle c)))
    (Entry (next_id s) (Idle c)) = Some s' \<Longrightarrow> wheel_step s s'"
| extend: "held s e \<Longrightarrow> wheel_step s (insertEntry s d e)"
| clock: "onTimer s now = Some s' \<Longrightarrow> wheel_step s s'"

inductive wheel_reachable :: "timing_wheel \<Rightarrow> bool" where
  init: "wheel_reachable new_TimingWheel"
| step: "wheel_reachable s \<Longrightarrow> wheel_step s s' \<Longrightarrow> wheel_reachable s'"

text \<open>An entry whose destructor has run is in no slot, and no destructor runs twice.\<close>

definition owned_once :: "timing_wheel \<Rightarrow> bool" where
  "owned_once s \<longleftrightarrow> tw_inv s \<and> distinct (fired s) \<and> (\<forall>e \<in> set (fired s). \<not> held s e)"

lemma owned_once_new [simp]: "owned_once new_TimingWheel"
  using new_TimingWheel_inv by (simp add: owned_once_def) (simp add: new_TimingWheel_def)

lemma owned_once_fresh:
  assumes "owned_once s" and "eid e = next_id s"
  shows "e \<notin> set (fired s)" and "\<not> held s e"
  using assms by (auto simp: owned_once_def tw_inv_def)

lemma owned_once_alloc: "owned_once s \<Longrightarrow> owned_once (s\<lparr>next_id := Suc (next_id s)\<rparr>)"
  using alloc_inv [of s] by (simp add: owned_once_def)

lemma owned_once_insert:
  assumes "owned_once s" and "eid e < next_id s" and "\<And>i f. payload e = Every i f \<Longrightarrow> valid_delay i"
    and "e \<notin> set (fired s)"
  shows "owned_once (insertEntry s d e)"
proof -
  have inv: "tw_inv s" using assms(1) by (simp add: owned_once_def)
  then show ?thesis
    using assms(1,4) insertEntry_inv [OF inv assms(2,3)]
    by (auto simp: owned_once_def tw_inv_def held_insertEntry)
qed

lemma owned_once_fire:
  assumes "owned_once s" and "eid e < next_id s" and "\<And>i f. payload e = Every i f \<Longrightarrow> valid_delay i"
    and "e \<notin> set (fired s)" and "\<not> held s e" and "fire s e = Some s'"
  shows "owned_once s' \<and> fired s' = fired s @ [e] \<and> next_id s \<le> next_id s'"
proof -
  let ?s = "s\<lparr>fired := fired s @ [e]\<rparr>"
  have inv: "tw_inv s" using assms(1) by (simp add: owned_once_def)
  have s: "owned_once ?s"
    using assms(1,2,4,5) inv by (auto simp: owned_once_def tw_inv_def distinct_slots_def sized_def)
  show ?thesis
  proof (cases "payload e")
    case (Every i f)
    let ?n = "Entry (next_id s) (Every i f)"
    have v: "valid_delay i" using assms(3) Every .
    have "fire s e = Some (insertEntry (?s\<lparr>next_id := Suc (next_id s)\<rparr>) i ?n)"
      using inv v Every by (simp add: fire_def runEvery_valid tw_inv_def sized_def)
    moreover have "owned_once (insertEntry (?s\<lparr>next_id := Suc (next_id s)\<rparr>) i ?n)"
      using owned_once_alloc [OF s] owned_once_fresh(1) [OF s, of ?n] v
      by (intro owned_once_insert) auto
    ultimately show ?thesis using assms(6) by auto
  qed (use s assms(6) in \<open>auto simp: fire_def\<close>)
qed

lemma owned_once_release_all:
  assumes "owned_once s" and "distinct es" and "\<forall>e \<in> set es. eid e < next_id s \<and> e \<notin> set (fired s)"
    and "\<forall>e \<in> set es. \<forall>i f. payload e = Every i f \<longrightarrow> valid_delay i"
    and "release_all s es = Some s'"
  shows "owned_once s'"
  using assms
proof (induction es arbitrary: s)
  case Nil
  then show ?case by simp
next
  case (Cons e es)
  obtain s1 where s1: "release s e = Some s1" "release_all s1 es = Some s'"
    using Cons.prems(5) by (auto split: Option.bind_splits)
  have e: "eid e < next_id s" "e \<notin> set (fired s)" "\<And>i f. payload e = Every i f \<Longrightarrow> valid_delay i"
    using Cons.prems(3,4) by auto
  have o1: "owned_once s1 \<and> set (fired s1) \<subseteq> insert e (set (fired s)) \<and> next_id s \<le> next_id s1"
  proof (cases "held s e")
    case True
    with s1(1) Cons.prems(1) show ?thesis by (auto simp: release_def)
  next
    case False
    with s1(1) owned_once_fire [OF Cons.prems(1) e(1,3,2), where s' = s1] show ?thesis by (auto simp: release_def)
  qed
  have "\<forall>e' \<in> set es. eid e' < next_id s1 \<and> e' \<notin> set (fired s1)"
  proof
    fix e'
    assume "e' \<in> set es"
    then have "eid e' < next_id s" "e' \<notin> set (fired s)" "e' \<noteq> e" using Cons.prems(2,3) by auto
    with o1 show "eid e' < next_id s1 \<and> e' \<notin> set (fired s1)" by auto
  qed
  with Cons.IH [of s1] Cons.prems(2,4) s1(2) o1 show ?case by simp
qed

lemma owned_once_release:
  assumes "owned_once s" and "eid e < next_id s" and "\<And>i f. payload e = Every i f \<Longrightarrow> valid_delay i"
    and "e \<notin> set (fired s)" and "release s e = Some s'"
  shows "owned_once s'"
  using owned_once_release_all [OF assms(1), of "[e]" s'] assms(2-5) by simp

lemma owned_once_popUp:
  assumes "owned_once s" and "popUp s w = Some s'"
  shows "owned_once s'"
proof -
  have inv: "tw_inv s" and sz: "sized s" using assms(1) by (simp_all add: owned_once_def tw_inv_def)
  have held: "held (drop_front s w) e \<Longrightarrow> held s e" for e
    unfolding held_iff occ_drop_front [OF sz] by auto
  then have d: "owned_once (drop_front s w)"
    using assms(1) drop_front_inv [OF inv, of w] by (auto simp: owned_once_def)
  have front: "held s e" if "e \<in> set (hd (wheels s w))" for e
    using that front_occ [OF sz] by (auto simp: held_iff)
  have "hd (wheels s w) \<in> set (wheels s w)" using sized_nonempty [OF sz] by simp
  then have "distinct (hd (wheels s w))" using inv by (auto simp: tw_inv_def distinct_slots_def)
  moreover have "\<forall>e \<in> set (hd (wheels s w)). eid e < next_id (drop_front s w) \<and> e \<notin> set (fired (drop_front s w))"
    using front assms(1) inv by (auto simp: owned_once_def tw_inv_def)
  moreover have "\<forall>e \<in> set (hd (wheels s w)). \<forall>i f. payload e = Every i f \<longrightarrow> valid_delay i"
    using front inv unfolding tw_inv_def by blast
  moreover have "release_all (drop_front s w) (hd (wheels s w)) = Some s'"
    using assms(2) by (simp add: popUp_def Let_def)
  ultimately show ?thesis by (rule owned_once_release_all [OF d])
qed

lemma owned_once_clock: "owned_once s \<Longrightarrow> owned_once (s\<lparr>tick := t\<rparr>)" "owned_once s \<Longrightarrow> owned_once (s\<lparr>last_ts := t\<rparr>)"
  using tick_inv [of s t] by (simp_all add: owned_once_def)

lemma owned_once_advance:
  assumes "owned_once s" and "advance s = Some s'"
  shows "owned_once s'"
proof -
  obtain s1 where s1: "popUp (s\<lparr>tick := tick s + 1\<rparr>) kTimingTypeSecond = Some s1"
    using assms(2) by (auto simp: advance_def split: Option.bind_splits)
  have "owned_once s1" by (rule owned_once_popUp [OF owned_once_clock(1) [OF assms(1)] s1])
  then show ?thesis
    using assms(2) s1 owned_once_popUp [of s1] by (auto simp: advance_def split: if_splits)
qed

lemma owned_once_step:
  assumes "owned_once s" and "wheel_step s s'"
  shows "owned_once s'"
  using assms(2)
proof cases
  case (after d f)
  let ?e = "Entry (next_id s) (Once f)"
  have "owned_once (insertEntry (s\<lparr>next_id := Suc (next_id s)\<rparr>) d ?e)"
    using owned_once_fresh(1) [OF assms(1), of ?e]
    by (intro owned_once_insert [OF owned_once_alloc [OF assms(1)]]) simp_all
  from owned_once_release [OF this _ _ _ after [unfolded runAfter_def Let_def]] show ?thesis
    using owned_once_fresh(1) [OF assms(1), of ?e] by simp
next
  case (every i f)
  let ?e = "Entry (next_id s) (Every i f)"
  have inv: "tw_inv s" using assms(1) by (simp add: owned_once_def)
  then have v: "valid_delay i" using every runEvery_bad_interval_diverges [of s i f] by fastforce
  then have "s' = insertEntry (s\<lparr>next_id := Suc (next_id s)\<rparr>) i ?e"
    using every inv by (simp add: runEvery_valid tw_inv_def)
  moreover have "owned_once (insertEntry (s\<lparr>next_id := Suc (next_id s)\<rparr>) i ?e)"
    using owned_once_fresh(1) [OF assms(1), of ?e] v
    by (intro owned_once_insert [OF owned_once_alloc [OF assms(1)]]) simp_all
  ultimately show ?thesis by simp
next
  case (supervise d c)
  let ?e = "Entry (next_id s) (Idle c)"
  have "owned_once (insertEntry (s\<lparr>next_id := Suc (next_id s)\<rparr>) d ?e)"
    using owned_once_fresh(1) [OF assms(1), of ?e]
    by (intro owned_once_insert [OF owned_once_alloc [OF assms(1)]]) simp_all
  from owned_once_release [OF this _ _ _ supervise] show ?thesis
    using owned_once_fresh(1) [OF assms(1), of ?e] by simp
next
  case (extend e d)
  then show ?thesis
    using assms(1) owned_once_insert [OF assms(1), of e d] by (auto simp: owned_once_def tw_inv_def)
next
  case (clock now)
  then show ?thesis
    using assms(1) owned_once_advance owned_once_clock(2) [OF assms(1)]
    by (auto simp: onTimer_def Let_def split: if_splits)
qed

text \<open>
  C26. A wheel keeps its shape and frees every entry once: in every state that any history of
  timers, periodic timers, supervisions, extensions and clock readings reaches, the four wheels
  have 60, 60, 24 and 30 slots, a slot holds an entry at most once, no entry's
  destructor has run twice, and no slot refers to an entry whose destructor has run.
\<close>

theorem wheel_well_formed:
  assumes "wheel_reachable s"
  shows "length (wheels s kTimingTypeSecond) = 60 \<and> length (wheels s kTimingTypeMinute) = 60
     \<and> length (wheels s kTimingTypeHour) = 24 \<and> length (wheels s kTimingTypeDay) = 30
     \<and> (\<forall>w. \<forall>slot \<in> set (wheels s w). distinct slot)
     \<and> distinct (fired s) \<and> (\<forall>e \<in> set (fired s). \<not> held s e)"
proof -
  have "owned_once s"
    using assms
  proof (induction rule: wheel_reachable.induct)
    case (step s s')
    from owned_once_step [OF step.IH step.hyps(2)] show ?case .
  qed simp
  then show ?thesis by (simp add: owned_once_def tw_inv_def sized_def distinct_slots_def)
qed

theorem wheel_well_formed_witness:
  "\<exists>s. runAfter new_TimingWheel 0 7 = Some s \<and> fired s = [Entry 0 (Once 7)]
     \<and> (\<forall>e \<in> set (fired s). \<not> held s e) \<and> length (wheels s kTimingTypeDay) = 30"
proof -
  let ?s = "new_TimingWheel\<lparr>next_id := Suc 0, fired := [Entry 0 (Once 7)]\<rparr>"
  have id: "next_id new_TimingWheel = 0" "fired new_TimingWheel = []" by (simp_all add: new_TimingWheel_def)
  have "\<not> held new_TimingWheel e" for e by (simp add: held_iff)
  then have r: "runAfter new_TimingWheel 0 7 = Some ?s"
    by (simp add: runAfter_def release_def fire_def insertEntry.simps id)
  from wheel_well_formed [OF wheel_reachable.step [OF wheel_reachable.init wheel_step.after [OF r]]] r
  show ?thesis by simp
qed

end
