(* ===== verification/RtmpHandshake.thy ===== *)
theory RtmpHandshake
  imports MsgBuffer
begin

text \<open>
  The RTMP handshake of \<open>src/mmedia/rtmp/RtmpHandshake.h\<close> and \<open>RtmpHandshake.cpp\<close>: the
  packets, their digests and the state machine of client and server. OpenSSL's
  HMAC-SHA256, the random bytes, the clock and the moment a send completes come from
  outside and are parameters (the record \<open>world\<close>). What the class writes to its
  connection is logged in \<open>sent\<close>. The log messages are left out.
\<close>

subsection \<open>Constants and state\<close>

definition kDigestLength :: nat where
  "kDigestLength = 32"

definition kRtmpHandShakePacketSize :: nat where
  "kRtmpHandShakePacketSize = 1536"

definition kRtmpVersion :: byte where
  "kRtmpVersion = 3"

datatype RtmpHandshakeState =
    kHandShakeInit
  | kHandShakePostC0C1 | kHandShakeWaitS0S1 | kHandShakePostC2 | kHandShakeWaitS2 | kHandShakeDoing
  | kHandShakeWaitC0C1 | kHandShakePostS0S1 | kHandShakePostS2 | kHandShakeWaitC2
  | kHandShakeDone

text \<open>
  \<open>alive\<close> says that the weak pointer to the connection can be locked, \<open>pending\<close> that
  output is queued on the connection, so that its write-complete callback will run later,
  and \<open>draws\<close> counts the random bytes used.
\<close>

record rtmp_handshake =
  is_client :: bool
  is_complex_handshake :: bool
  digest :: bytes
  C1S1 :: bytes
  C2S2 :: bytes
  hs_state :: RtmpHandshakeState
  alive :: bool
  sent :: "bytes list"
  pending :: bool
  draws :: nat

text \<open>
  \<open>hmac key data\<close> is HMAC-SHA256, \<open>random n\<close> the \<open>n\<close>-th random byte, \<open>now\<close> the
  value of \<open>TTime::now\<close>, and \<open>completes k\<close> says that the \<open>k\<close>-th send is written at
  once, so that the connection calls the write-complete callback from inside \<open>send\<close>.
\<close>

record world =
  hmac :: "bytes \<Rightarrow> bytes \<Rightarrow> bytes"
  random :: "nat \<Rightarrow> byte"
  now :: int
  completes :: "nat \<Rightarrow> bool"

definition new_RtmpHandShake :: "bool \<Rightarrow> rtmp_handshake" where
  "new_RtmpHandShake client =
     \<lparr>is_client = client, is_complex_handshake = True, digest = replicate kDigestLength 0,
      C1S1 = replicate (kRtmpHandShakePacketSize + 1) 0,
      C2S2 = replicate kRtmpHandShakePacketSize 0, hs_state = kHandShakeInit,
      alive = True, sent = [], pending = False, draws = 0\<rparr>"

definition rtmp_server_ver :: bytes where
  "rtmp_server_ver = [0x0D, 0x0E, 0x0A, 0x0D]"

definition rtmp_client_ver :: bytes where
  "rtmp_client_ver = [0x0C, 0x00, 0x0D, 0x0E]"

definition SERVER_KEY_OPEN_PART_LEN :: nat where
  "SERVER_KEY_OPEN_PART_LEN = 36"

definition PLAYER_KEY_OPEN_PART_LEN :: nat where
  "PLAYER_KEY_OPEN_PART_LEN = 30"

definition ascii :: "string \<Rightarrow> bytes" where
  "ascii = map of_char"

definition rtmp_server_key :: bytes where
  "rtmp_server_key = ascii ''Genuine Adobe Flash Media Server 001'' @
     [0xF0, 0xEE, 0xC2, 0x4A, 0x80, 0x68, 0xBE, 0xE8, 0x2E, 0x00, 0xD0, 0xD1, 0x02,
      0x9E, 0x7E, 0x57, 0x6E, 0xEC, 0x5D, 0x2D, 0x29, 0x80, 0x6F, 0xAB, 0x93, 0xB8,
      0xE6, 0x36, 0xCF, 0xEB, 0x31, 0xAE]"

definition rtmp_player_key :: bytes where
  "rtmp_player_key = ascii ''Genuine Adobe Flash Player 001'' @
     [0xF0, 0xEE, 0xC2, 0x4A, 0x80, 0x68, 0xBE, 0xE8, 0x2E, 0x00, 0xD0, 0xD1, 0x02,
      0x9E, 0x7E, 0x57, 0x6E, 0xEC, 0x5D, 0x2D, 0x29, 0x80, 0x6F, 0xAB, 0x93, 0xB8,
      0xE6, 0x36, 0xCF, 0xEB, 0x31, 0xAE]"

subsection \<open>Digests\<close>

text \<open>
  A digest of \<open>len\<close> bytes of \<open>src\<close>; with a positive \<open>gap\<close> the 32 bytes at position
  \<open>gap\<close>, where the digest itself goes, are left out.
\<close>

definition CalculateDigest :: "world \<Rightarrow> bytes \<Rightarrow> nat \<Rightarrow> nat \<Rightarrow> bytes \<Rightarrow> nat \<Rightarrow> bytes" where
  "CalculateDigest w src len gap key keylen =
     (if gap = 0 then hmac w (take keylen key) (take len src)
      else hmac w (take keylen key)
        (take gap src @ take (len - gap - kDigestLength) (drop (gap + kDigestLength) src)))"

definition VerifyDigest :: "world \<Rightarrow> bytes \<Rightarrow> nat \<Rightarrow> bytes \<Rightarrow> nat \<Rightarrow> bool" where
  "VerifyDigest w buf digest_pos key key_len =
     (let digest = CalculateDigest w buf kRtmpHandShakePacketSize digest_pos key key_len
      in take kDigestLength (drop digest_pos buf) = digest)"

definition GetDigestOffset :: "bytes \<Rightarrow> nat \<Rightarrow> nat \<Rightarrow> nat" where
  "GetDigestOffset buf off mod_val =
     (let ptr = drop off buf;
          offset = unat (ptr ! 0) + unat (ptr ! 1) + unat (ptr ! 2) + unat (ptr ! 3)
      in offset mod mod_val + (off + 4))"

subsection \<open>Building and checking C1 and S1\<close>

text \<open>\<open>n\<close> calls of \<open>genRandom\<close>.\<close>

definition genRandom :: "world \<Rightarrow> rtmp_handshake \<Rightarrow> nat \<Rightarrow> bytes" where
  "genRandom w h n = map (\<lambda>i. random w (draws h + i)) [0..<n]"

definition createC1S1 :: "world \<Rightarrow> rtmp_handshake \<Rightarrow> rtmp_handshake" where
  "createC1S1 w h =
     (let n = kRtmpHandShakePacketSize + 1;
          c0 = genRandom w h n;
          c1 = overwrite c0 0 [kRtmpVersion];
          c2 = overwrite c1 1 [0, 0, 0, 0];
          h1 = h\<lparr>draws := draws h + n\<rparr>
      in if \<not> is_complex_handshake h then h1\<lparr>C1S1 := overwrite c2 5 [0, 0, 0, 0]\<rparr>
         else
           let offset = GetDigestOffset (drop 1 c2) 8 728;
               c3 = overwrite c2 5 (if is_client h then rtmp_client_ver else rtmp_server_ver);
               dig = (if is_client h
                      then CalculateDigest w (drop 1 c3) kRtmpHandShakePacketSize offset
                             rtmp_player_key PLAYER_KEY_OPEN_PART_LEN
                      else CalculateDigest w (drop 1 c3) kRtmpHandShakePacketSize offset
                             rtmp_server_key SERVER_KEY_OPEN_PART_LEN);
               c4 = overwrite c3 (1 + offset) dig
           in h1\<lparr>C1S1 := c4, digest := take kDigestLength (drop (1 + offset) c4)\<rparr>)"

text \<open>The result is -1 on failure, otherwise the position of the peer's digest.\<close>

definition checkC1S1 :: "world \<Rightarrow> rtmp_handshake \<Rightarrow> bytes \<Rightarrow> nat \<Rightarrow> int \<times> rtmp_handshake" where
  "checkC1S1 w h data len =
     (if len \<noteq> kRtmpHandShakePacketSize + 1 then (-1, h)
      else if data ! 0 \<noteq> kRtmpVersion then (-1, h)
      else if take 4 (drop 5 data) = [0, 0, 0, 0] then (0, h\<lparr>is_complex_handshake := False\<rparr>)
      else if is_complex_handshake h then
        let handshake = drop 1 data;
            key = (if is_client h then rtmp_server_key else rtmp_player_key);
            key_len = (if is_client h then SERVER_KEY_OPEN_PART_LEN else PLAYER_KEY_OPEN_PART_LEN);
            offset = GetDigestOffset handshake 8 728;
            offset2 = GetDigestOffset handshake (764 + 8) 728
        in if VerifyDigest w handshake offset key key_len then (int offset, h)
           else if VerifyDigest w handshake offset2 key key_len then (int offset2, h)
           else (-1, h)
      else (-1, h))"

subsection \<open>Building C2 and S2\<close>

definition createC2S2 :: "world \<Rightarrow> rtmp_handshake \<Rightarrow> bytes \<Rightarrow> rtmp_handshake" where
  "createC2S2 w h data =
     (let n = kRtmpHandShakePacketSize;
          c0 = genRandom w h n;
          c1 = overwrite c0 0 (take 8 data);
          timestamp = (word_of_int (now w) :: u32);
          c2 = overwrite c1 0 (rev (to_mem timestamp));
          h1 = h\<lparr>draws := draws h + n\<rparr>
      in if is_complex_handshake h then
           let key = (if is_client h
                      then CalculateDigest w (digest h) 32 0 rtmp_player_key PLAYER_KEY_OPEN_PART_LEN
                      else CalculateDigest w (digest h) 32 0 rtmp_server_key SERVER_KEY_OPEN_PART_LEN)
           in h1\<lparr>C2S2 := overwrite c2 (n - 32) (CalculateDigest w c2 (n - 32) 0 key 32)\<rparr>
         else h1\<lparr>C2S2 := c2\<rparr>)"

definition checkC2S2 :: "bytes \<Rightarrow> nat \<Rightarrow> bool" where
  "checkC2S2 data len = True"

subsection \<open>Sending, and the write-complete callback\<close>

text \<open>
  A send on an idle connection that is written completely calls \<open>writeComplete\<close> from
  inside \<open>send\<close>, before the code after the send runs. Otherwise the data is queued.
\<close>

definition server_rank :: "rtmp_handshake \<Rightarrow> nat" where
  "server_rank h = (if hs_state h = kHandShakePostS0S1 then 1 else 0)"

function conn_send :: "world \<Rightarrow> rtmp_handshake \<Rightarrow> bytes \<Rightarrow> rtmp_handshake"
  and sendC2S2 :: "world \<Rightarrow> rtmp_handshake \<Rightarrow> rtmp_handshake"
  and writeComplete :: "world \<Rightarrow> rtmp_handshake \<Rightarrow> rtmp_handshake" where
  "conn_send w h data =
     (let h1 = h\<lparr>sent := sent h @ [data]\<rparr>
      in if \<not> pending h \<and> completes w (length (sent h)) then writeComplete w h1 else h1\<lparr>pending := True\<rparr>)"
| "sendC2S2 w h = (if alive h then conn_send w h (C2S2 h) else h)"
| "writeComplete w h =
     (if \<not> alive h then h
      else case hs_state h of
        kHandShakePostS0S1 \<Rightarrow> sendC2S2 w (h\<lparr>hs_state := kHandShakePostS2\<rparr>)
      | kHandShakePostS2 \<Rightarrow> h\<lparr>hs_state := kHandShakeWaitC2\<rparr>
      | kHandShakePostC0C1 \<Rightarrow> h\<lparr>hs_state := kHandShakeWaitS0S1\<rparr>
      | kHandShakePostC2 \<Rightarrow> h\<lparr>hs_state := kHandShakeDone\<rparr>
      | kHandShakeDoing \<Rightarrow> h\<lparr>hs_state := kHandShakeDone\<rparr>
      | _ \<Rightarrow> h)"
  by pat_completeness auto
termination
  by (relation "measure (\<lambda>x. case x of
      Inl (w, h, d) \<Rightarrow> 3 * server_rank h + 1
    | Inr (Inl (w, h)) \<Rightarrow> 3 * server_rank h + 2
    | Inr (Inr (w, h)) \<Rightarrow> 3 * server_rank h)") (auto simp: server_rank_def)

declare conn_send.simps [simp del] sendC2S2.simps [simp del] writeComplete.simps [simp del]

definition sendC1S1 :: "world \<Rightarrow> rtmp_handshake \<Rightarrow> rtmp_handshake" where
  "sendC1S1 w h = (if alive h then conn_send w h (C1S1 h) else h)"

definition start :: "world \<Rightarrow> rtmp_handshake \<Rightarrow> rtmp_handshake" where
  "start w h =
     (let h1 = createC1S1 w h
      in if is_client h1 then sendC1S1 w (h1\<lparr>hs_state := kHandShakeWaitS0S1\<rparr>)
         else h1\<lparr>hs_state := kHandShakeWaitC0C1\<rparr>)"

text \<open>
  One call with the connection's input buffer. The result is 1 if more data is needed,
  -1 for an error, 2 when the client may already have S2, 0 otherwise. In the client's
  branch without S2 the code runs on into the lines that belong to the server.
\<close>

definition handshake ::
    "world \<Rightarrow> rtmp_handshake \<Rightarrow> msgbuffer \<Rightarrow> (int \<times> rtmp_handshake \<times> msgbuffer) option" where
  "handshake w h buf =
     (if \<not> alive h then Some (-1, h, buf)
      else case hs_state h of
        kHandShakeWaitC0C1 \<Rightarrow>
          if readableBytes buf < kRtmpHandShakePacketSize + 1 then Some (1, h, buf)
          else
            let (offset, h1) = checkC1S1 w h (peek buf) (kRtmpHandShakePacketSize + 1)
            in if offset \<ge> 0 then do {
                 let h2 = createC2S2 w h1 (drop 1 (peek buf));
                 buf' \<leftarrow> retrieve buf (kRtmpHandShakePacketSize + 1);
                 Some (0, sendC1S1 w (h2\<lparr>hs_state := kHandShakePostS0S1\<rparr>), buf')
               } else Some (-1, h1, buf)
      | kHandShakeWaitC2 \<Rightarrow>
          if readableBytes buf < kRtmpHandShakePacketSize then Some (1, h, buf)
          else if checkC2S2 (peek buf) kRtmpHandShakePacketSize then do {
            buf' \<leftarrow> retrieve buf kRtmpHandShakePacketSize;
            Some (0, h\<lparr>hs_state := kHandShakeDone\<rparr>, buf')
          } else Some (-1, h, buf)
      | kHandShakeWaitS0S1 \<Rightarrow>
          if readableBytes buf < kRtmpHandShakePacketSize + 1 then Some (1, h, buf)
          else
            let (offset, h1) = checkC1S1 w h (peek buf) (kRtmpHandShakePacketSize + 1)
            in if offset \<ge> 0 then do {
                 let h2 = createC2S2 w h1 (drop 1 (peek buf));
                 buf' \<leftarrow> retrieve buf (kRtmpHandShakePacketSize + 1);
                 if readableBytes buf' \<ge> kRtmpHandShakePacketSize
                 then Some (2, sendC2S2 w (h2\<lparr>hs_state := kHandShakeDoing\<rparr>), buf')
                 else
                   let h3 = sendC2S2 w (h2\<lparr>hs_state := kHandShakePostC2\<rparr>)
                   in Some (0, sendC1S1 w (h3\<lparr>hs_state := kHandShakePostS0S1\<rparr>), buf')
               } else Some (-1, h1, buf)
      | _ \<Rightarrow> Some (0, h, buf))"


text \<open>What the connection does when its queue has been written: the deferred callback.\<close>

definition drain :: "world \<Rightarrow> rtmp_handshake \<Rightarrow> rtmp_handshake" where
  "drain w h = (if pending h then writeComplete w (h\<lparr>pending := False\<rparr>) else h)"

subsection \<open>Digests: lemmas\<close>

lemma GetDigestOffset_range:
  "off + 4 \<le> GetDigestOffset buf off 728" "GetDigestOffset buf off 728 < off + 732"
  by (simp_all add: GetDigestOffset_def Let_def)

lemma GetDigestOffset_cong:
  assumes "off + 4 \<le> length a" and "off + 4 \<le> length b"
    and "take 4 (drop off a) = take 4 (drop off b)"
  shows "GetDigestOffset a off m = GetDigestOffset b off m"
proof -
  have "drop off a ! i = drop off b ! i" if "i < 4" for i
    using that arg_cong [OF assms(3), of "\<lambda>l. l ! i"] assms(1,2) by simp
  then show ?thesis by (simp add: GetDigestOffset_def Let_def)
qed

text \<open>A digest does not depend on the bytes at the place where it is stored.\<close>

lemma CalculateDigest_overwrite:
  assumes "length d = kDigestLength" and "g \<le> length b" and "0 < g"
  shows "CalculateDigest w (overwrite b g d) len g key n = CalculateDigest w b len g key n"
  using assms by (simp add: CalculateDigest_def list_slice)

lemma VerifyDigest_stored:
  assumes "\<And>k d. length (hmac w k d) = kDigestLength" and "g \<le> length b" and "0 < g"
  shows "VerifyDigest w (overwrite b g (CalculateDigest w b kRtmpHandShakePacketSize g key n)) g key n"
proof -
  let ?d = "CalculateDigest w b kRtmpHandShakePacketSize g key n"
  have l: "length ?d = kDigestLength" using assms(1) by (simp add: CalculateDigest_def)
  have "take kDigestLength (drop g (overwrite b g ?d)) = ?d"
    using slice_overwrite [OF assms(2), of ?d] l by simp
  then show ?thesis
    by (simp only: VerifyDigest_def Let_def CalculateDigest_overwrite [OF l assms(2,3)])
qed

lemma VerifyDigest_hmac_cong:
  "hmac w = hmac w' \<Longrightarrow> VerifyDigest w = VerifyDigest w'"
  by (simp add: VerifyDigest_def CalculateDigest_def fun_eq_iff Let_def)

lemma drop_overwrite_Suc:
  "b \<noteq> [] \<Longrightarrow> drop (Suc 0) (overwrite b (Suc i) d) = overwrite (drop (Suc 0) b) i d"
  by (cases b) (simp_all add: overwrite_def)

text \<open>The shape of a complex C0C1 or S0S1 packet.\<close>

lemma createC1S1_shape:
  assumes "is_complex_handshake h" and "\<And>k d. length (hmac w k d) = kDigestLength"
  defines "P \<equiv> C1S1 (createC1S1 w h)"
  defines "g \<equiv> GetDigestOffset (drop 1 P) 8 728"
  defines "key \<equiv> (if is_client h then rtmp_player_key else rtmp_server_key)"
  defines "len \<equiv> (if is_client h then PLAYER_KEY_OPEN_PART_LEN else SERVER_KEY_OPEN_PART_LEN)"
  shows "length P = kRtmpHandShakePacketSize + 1" and "P ! 0 = kRtmpVersion"
    and "take 4 (drop 5 P) = (if is_client h then rtmp_client_ver else rtmp_server_ver)"
    and "VerifyDigest w (drop 1 P) g key len"
    and "digest (createC1S1 w h) = take kDigestLength (drop (1 + g) P)"
proof -
  let ?c2 = "overwrite (overwrite (genRandom w h (kRtmpHandShakePacketSize + 1)) 0 [kRtmpVersion])
     1 [0, 0, 0, 0]"
  let ?ver = "if is_client h then rtmp_client_ver else rtmp_server_ver"
  let ?c3 = "overwrite ?c2 5 ?ver"
  let ?g = "GetDigestOffset (drop 1 ?c2) 8 728"
  let ?b = "drop 1 ?c3"
  let ?d = "CalculateDigest w ?b kRtmpHandShakePacketSize ?g key len"
  note gr = GetDigestOffset_range [where off = 8 and buf = "drop 1 ?c2"]
  have P: "P = overwrite ?c3 (1 + ?g) ?d"
    using assms(1) by (auto simp: P_def createC1S1_def key_def len_def Let_def)
  have ver: "length ?ver = 4" by (simp add: rtmp_client_ver_def rtmp_server_ver_def)
  have l2: "length ?c2 = 1537" by (simp add: genRandom_def kRtmpHandShakePacketSize_def)
  with ver have l3: "length ?c3 = 1537" by simp
  have ld: "length ?d = 32" using assms(2) by (simp add: CalculateDigest_def kDigestLength_def)
  show len: "length P = kRtmpHandShakePacketSize + 1"
    unfolding P using l3 ld gr by (simp add: kRtmpHandShakePacketSize_def)
  have P9: "take 9 P = take 9 ?c3" unfolding P using l3 gr by (intro take_overwrite) auto
  have "P ! 0 = take 9 P ! 0" by simp
  also have "\<dots> = take 1 ?c3 ! 0" by (simp add: P9)
  also have "take 1 ?c3 = take 1 ?c2" using l2 by (intro take_overwrite) auto
  also have "take 1 ?c2 ! 0 = kRtmpVersion"
    by (simp add: overwrite_def)
  finally show "P ! 0 = kRtmpVersion" .
  have "take 4 (drop 5 P) = take 4 (drop 5 (take 9 P))" by (simp add: take_drop)
  also have "\<dots> = take 4 (drop 5 ?c3)" unfolding P9 by (simp add: take_drop)
  also have "\<dots> = ?ver" using slice_overwrite [of 5 ?c2 ?ver] l2 ver by simp
  finally show "take 4 (drop 5 P) = ?ver" .
  have b: "drop 1 P = overwrite ?b ?g ?d"
    unfolding P using drop_overwrite_Suc [of ?c3 ?g ?d] l3 by (cases "?c3 = []") auto
  have "take 4 (drop 8 (drop 1 P)) = take 4 (drop 8 (drop 1 ?c2))"
  proof -
    have "take 4 (drop 9 P) = drop 9 (take 13 P)" by (simp add: drop_take)
    also have "take 13 P = take 13 ?c3" unfolding P using l3 gr by (intro take_overwrite) auto
    also have "drop 9 (take 13 ?c3) = take 4 (drop 9 ?c3)" by (simp add: drop_take)
    also have "drop 9 ?c3 = drop 9 ?c2" using l2 ver by (intro drop_overwrite) auto
    finally show ?thesis by simp
  qed
  then have gg: "g = ?g"
    unfolding g_def using len l2 by (intro GetDigestOffset_cong) (auto simp: kRtmpHandShakePacketSize_def)
  show "VerifyDigest w (drop 1 P) g key len"
    unfolding gg b using l3 gr by (intro VerifyDigest_stored assms(2)) auto
  show "digest (createC1S1 w h) = take kDigestLength (drop (1 + g) P)"
    unfolding gg P using assms(1) by (auto simp: createC1S1_def key_def len_def Let_def)
qed


subsection \<open>The state machine: lemmas\<close>

lemma writeComplete_cases:
  "alive h \<Longrightarrow> hs_state h = kHandShakePostS0S1 \<Longrightarrow>
     writeComplete w h = conn_send w (h\<lparr>hs_state := kHandShakePostS2\<rparr>) (C2S2 h)"
  "alive h \<Longrightarrow> hs_state h = kHandShakePostS2 \<Longrightarrow>
     writeComplete w h = h\<lparr>hs_state := kHandShakeWaitC2\<rparr>"
  "alive h \<Longrightarrow> hs_state h = kHandShakePostC2 \<Longrightarrow>
     writeComplete w h = h\<lparr>hs_state := kHandShakeDone\<rparr>"
  "alive h \<Longrightarrow> hs_state h = kHandShakeDoing \<Longrightarrow>
     writeComplete w h = h\<lparr>hs_state := kHandShakeDone\<rparr>"
  "hs_state h \<in> {kHandShakeInit, kHandShakeWaitS0S1, kHandShakeWaitS2, kHandShakeWaitC0C1,
     kHandShakeWaitC2, kHandShakeDone} \<Longrightarrow> writeComplete w h = h"
  by (auto simp: writeComplete.simps [of w h] sendC2S2.simps)

lemma conn_send_now:
  "\<not> pending h \<Longrightarrow> completes w (length (sent h)) \<Longrightarrow>
     conn_send w h d = writeComplete w (h\<lparr>sent := sent h @ [d]\<rparr>)"
  by (simp add: conn_send.simps Let_def)

lemma conn_send_later:
  "pending h \<Longrightarrow> conn_send w h d = h\<lparr>sent := sent h @ [d], pending := True\<rparr>"
  "\<not> completes w (length (sent h)) \<Longrightarrow>
     conn_send w h d = h\<lparr>sent := sent h @ [d], pending := True\<rparr>"
  by (simp_all add: conn_send.simps Let_def)

lemma drain_cases:
  "pending h \<Longrightarrow> drain w h = writeComplete w (h\<lparr>pending := False\<rparr>)"
  "\<not> pending h \<Longrightarrow> drain w h = h"
  by (simp_all add: drain_def)

lemmas run_simps = sendC1S1_def sendC2S2.simps conn_send_now conn_send_later drain_cases
  writeComplete_cases

text \<open>What the server has sent and has queued in each state it can be in.\<close>

definition server_ok :: "rtmp_handshake \<Rightarrow> bool" where
  "server_ok h \<longleftrightarrow> alive h \<and> \<not> is_client h \<and>
     (case hs_state h of
        kHandShakeWaitC0C1 \<Rightarrow> sent h = [] \<and> \<not> pending h
      | kHandShakePostS0S1 \<Rightarrow> sent h = [C1S1 h] \<and> pending h
      | kHandShakePostS2 \<Rightarrow> sent h = [C1S1 h, C2S2 h] \<and> pending h
      | kHandShakeWaitC2 \<Rightarrow> sent h = [C1S1 h, C2S2 h] \<and> \<not> pending h
      | kHandShakeDone \<Rightarrow> sent h = [C1S1 h, C2S2 h] \<and> \<not> pending h
      | _ \<Rightarrow> False)"

lemma createC1S1_frame [simp]:
  "is_client (createC1S1 w h) = is_client h" "alive (createC1S1 w h) = alive h"
  "sent (createC1S1 w h) = sent h" "pending (createC1S1 w h) = pending h"
  "hs_state (createC1S1 w h) = hs_state h"
  "is_complex_handshake (createC1S1 w h) = is_complex_handshake h"
  by (simp_all add: createC1S1_def Let_def)

lemma createC2S2_frame [simp]:
  "is_client (createC2S2 w h d) = is_client h" "alive (createC2S2 w h d) = alive h"
  "sent (createC2S2 w h d) = sent h" "pending (createC2S2 w h d) = pending h"
  "hs_state (createC2S2 w h d) = hs_state h" "C1S1 (createC2S2 w h d) = C1S1 h"
  "is_complex_handshake (createC2S2 w h d) = is_complex_handshake h"
  by (simp_all add: createC2S2_def Let_def)

lemma checkC1S1_frame:
  assumes "checkC1S1 w h d n = (r, h1)"
  shows "is_client h1 = is_client h" "alive h1 = alive h" "sent h1 = sent h"
    "pending h1 = pending h" "hs_state h1 = hs_state h" "C1S1 h1 = C1S1 h"
  using assms by (auto simp: checkC1S1_def Let_def split: if_splits)

lemma server_start_ok: "server_ok (start w (new_RtmpHandShake False))"
  by (simp add: start_def Let_def server_ok_def) (simp add: new_RtmpHandShake_def)

text \<open>Sending S0S1 ends in one of three places, depending on which sends are immediate.\<close>

lemma server_send:
  assumes "alive h" and "\<not> is_client h" and "\<not> pending h" and "sent h = []"
    and "hs_state h = kHandShakePostS0S1"
  shows "server_ok (sendC1S1 w h)"
    and "hs_state (sendC1S1 w h) \<in> {kHandShakePostS0S1, kHandShakePostS2, kHandShakeWaitC2}"
  using assms
  by (auto simp: sendC1S1_def conn_send.simps writeComplete_cases Let_def server_ok_def)

lemma server_writeComplete:
  assumes "server_ok h" and "pending h"
  shows "server_ok (writeComplete w (h\<lparr>pending := False\<rparr>))"
  using assms
  by (cases "hs_state h")
    (auto simp: server_ok_def conn_send.simps writeComplete_cases Let_def)

lemma server_handshake:
  assumes "server_ok h" and "handshake w h b = Some (r, h', b')"
  shows "server_ok h'"
proof (cases "hs_state h = kHandShakeWaitC0C1 \<and> kRtmpHandShakePacketSize + 1 \<le> readableBytes b")
  case True
  obtain off h1 where c: "checkC1S1 w h (peek b) (kRtmpHandShakePacketSize + 1) = (off, h1)"
    by (cases "checkC1S1 w h (peek b) (kRtmpHandShakePacketSize + 1)")
  note f = checkC1S1_frame [OF c]
  show ?thesis
  proof (cases "off \<ge> 0")
    case pos: True
    let ?h2 = "(createC2S2 w h1 (drop 1 (peek b)))\<lparr>hs_state := kHandShakePostS0S1\<rparr>"
    from True pos c assms have "h' = sendC1S1 w ?h2"
      by (auto simp: handshake_def server_ok_def Let_def bind_eq_Some_conv)
    moreover have "server_ok (sendC1S1 w ?h2)"
      using assms(1) True f by (intro server_send) (simp_all add: server_ok_def)
    ultimately show ?thesis by simp
  next
    case False
    with True c assms have "h' = h1" by (auto simp: handshake_def server_ok_def Let_def)
    with f True assms(1) show ?thesis by (simp add: server_ok_def)
  qed
next
  case False
  with assms show ?thesis
    by (cases "hs_state h")
      (auto simp: handshake_def server_ok_def checkC2S2_def bind_eq_Some_conv split: if_splits)
qed

subsection \<open>Runs\<close>

text \<open>
  The events of a connection: data arrives and the message callback calls \<open>handshake\<close>,
  or queued output has been written and the connection calls \<open>writeComplete\<close>. They come in
  any order, and the data cut in any way.
\<close>

inductive hs_step :: "world \<Rightarrow> rtmp_handshake \<times> msgbuffer \<Rightarrow> rtmp_handshake \<times> msgbuffer \<Rightarrow> bool"
  for w where
  receive: "append_bytes b d = Some b1 \<Longrightarrow> handshake w h b1 = Some (r, h', b')
     \<Longrightarrow> hs_step w (h, b) (h', b')"
| written: "pending h \<Longrightarrow> hs_step w (h, b) (writeComplete w (h\<lparr>pending := False\<rparr>), b)"

inductive hs_reachable :: "world \<Rightarrow> bool \<Rightarrow> rtmp_handshake \<times> msgbuffer \<Rightarrow> bool"
  for w client where
  init: "hs_reachable w client (start w (new_RtmpHandShake client), new_MsgBuffer kInitialSize)"
| step: "hs_reachable w client s \<Longrightarrow> hs_step w s s' \<Longrightarrow> hs_reachable w client s'"

inductive_cases hs_stepE: "hs_step w (h, b) s'"

lemma hs_step_server_ok:
  assumes "hs_step w s s'" and "server_ok (fst s)"
  shows "server_ok (fst s')"
  using assms by cases (auto intro: server_handshake server_writeComplete)

lemma reachable_server_ok: "hs_reachable w False s \<Longrightarrow> server_ok (fst s)"
  by (induction rule: hs_reachable.induct) (auto simp: server_start_ok hs_step_server_ok)


lemma send_frame [simp]:
  "C1S1 (conn_send w h d) = C1S1 h \<and> C2S2 (conn_send w h d) = C2S2 h
     \<and> alive (conn_send w h d) = alive h \<and> is_client (conn_send w h d) = is_client h"
  "C1S1 (sendC2S2 w h) = C1S1 h \<and> C2S2 (sendC2S2 w h) = C2S2 h
     \<and> alive (sendC2S2 w h) = alive h \<and> is_client (sendC2S2 w h) = is_client h"
  "C1S1 (writeComplete w h) = C1S1 h \<and> C2S2 (writeComplete w h) = C2S2 h
     \<and> alive (writeComplete w h) = alive h \<and> is_client (writeComplete w h) = is_client h"
proof (induction w h d and w h and w h rule: conn_send_sendC2S2_writeComplete.induct)
  case (1 w h data)
  then show ?case by (simp add: conn_send.simps Let_def)
next
  case (2 w h)
  then show ?case by (simp add: sendC2S2.simps)
next
  case (3 w h)
  then show ?case by (cases "hs_state h") (auto simp: writeComplete.simps [of w h])
qed

lemma drain_frame [simp]:
  "C1S1 (drain w h) = C1S1 h" "C2S2 (drain w h) = C2S2 h"
  by (simp_all add: drain_def)

lemma server_drains:
  assumes "server_ok h" and "hs_state h \<in> {kHandShakePostS0S1, kHandShakePostS2, kHandShakeWaitC2}"
  shows "hs_state (drain w (drain w h)) = kHandShakeWaitC2" and "server_ok (drain w (drain w h))"
proof -
  show "hs_state (drain w (drain w h)) = kHandShakeWaitC2"
  proof -
    consider "hs_state h = kHandShakePostS0S1" | "hs_state h = kHandShakePostS2"
      | "hs_state h = kHandShakeWaitC2" using assms(2) by auto
    then show ?thesis
    proof cases
      case 1
      with assms(1) show ?thesis
        by (cases "completes w (Suc 0)")
          (simp_all add: server_ok_def drain_def conn_send.simps writeComplete_cases Let_def)
    qed (use assms(1) in \<open>simp_all add: server_ok_def drain_def writeComplete_cases\<close>)
  qed
  have "server_ok h' \<Longrightarrow> server_ok (drain w h')" for h'
    by (simp add: drain_def server_writeComplete)
  with assms(1) show "server_ok (drain w (drain w h))" by simp
qed

subsection \<open>A packet at the front of the input\<close>

lemma CalculateDigest_prefix:
  assumes "gap + kDigestLength \<le> length src"
  shows "CalculateDigest w (src @ r) (length src) gap key n
           = CalculateDigest w src (length src) gap key n"
  using assms by (simp add: CalculateDigest_def)

lemma VerifyDigest_prefix:
  assumes "length src = kRtmpHandShakePacketSize" and "g + kDigestLength \<le> length src"
  shows "VerifyDigest w (src @ r) g key n = VerifyDigest w src g key n"
  using CalculateDigest_prefix [OF assms(2)] assms
  by (simp add: VerifyDigest_def)

lemma GetDigestOffset_prefix:
  "off + 4 \<le> length src \<Longrightarrow> GetDigestOffset (src @ r) off m = GetDigestOffset src off m"
  by (rule GetDigestOffset_cong) auto

lemma checkC1S1_prefix:
  assumes "length P = kRtmpHandShakePacketSize + 1"
  shows "checkC1S1 w h (P @ r) n = checkC1S1 w h P n"
proof -
  obtain c Q where P: "P = c # Q" and Q: "length Q = 1536"
    using assms by (cases P) (auto simp: kRtmpHandShakePacketSize_def)
  have g: "GetDigestOffset (Q @ r) off 728 = GetDigestOffset Q off 728"
    "GetDigestOffset Q off 728 + kDigestLength \<le> length Q" if "off = 8 \<or> off = 772" for off
    using that Q GetDigestOffset_range [where off = off and buf = Q]
    by (auto simp: GetDigestOffset_prefix kDigestLength_def)
  have v: "VerifyDigest w (Q @ r) (GetDigestOffset Q off 728) key m
      = VerifyDigest w Q (GetDigestOffset Q off 728) key m" if "off = 8 \<or> off = 772" for off key m
    using Q g(2) [OF that] by (intro VerifyDigest_prefix) (simp_all add: kRtmpHandShakePacketSize_def)
  have t: "take 4 (drop 5 (P @ r)) = take 4 (drop 5 P)" using P Q by simp
  have z: "(P @ r) ! 0 = P ! 0" and d: "drop 1 (P @ r) = Q @ r" "drop 1 P = Q" using P by simp_all
  have e: "764 + 8 = (772 :: nat)" by simp
  show ?thesis
    unfolding checkC1S1_def Let_def t z d e g(1) [OF disjI1 [OF refl]] g(1) [OF disjI2 [OF refl]]
      v [OF disjI1 [OF refl]] v [OF disjI2 [OF refl]] ..
qed

text \<open>What one side builds, the other side accepts.\<close>

lemma createC1S1_accepted:
  assumes "is_complex_handshake h" and "is_complex_handshake p" and "is_client p = (\<not> is_client h)"
    and "\<And>k d. length (hmac w k d) = kDigestLength" and "hmac w' = hmac w"
  defines "P \<equiv> C1S1 (createC1S1 w h)"
  shows "checkC1S1 w' p P (kRtmpHandShakePacketSize + 1) = (int (GetDigestOffset (drop 1 P) 8 728), p)"
proof -
  note sh = createC1S1_shape [where w = w and h = h, OF assms(1,4), folded P_def]
  have "take 4 (drop 5 P) \<noteq> [0, 0, 0, 0]"
    using sh(3) by (simp add: rtmp_client_ver_def rtmp_server_ver_def)
  moreover have "VerifyDigest w' (drop 1 P) (GetDigestOffset (drop 1 P) 8 728)
      (if is_client p then rtmp_server_key else rtmp_player_key)
      (if is_client p then SERVER_KEY_OPEN_PART_LEN else PLAYER_KEY_OPEN_PART_LEN)"
    using sh(4) assms(3) VerifyDigest_hmac_cong [OF assms(5)] by (cases "is_client h") auto
  ultimately show ?thesis
    using sh(2) assms(2) by (simp add: checkC1S1_def Let_def)
qed


lemma front_packet:
  assumes "buf_ok b" and "content b = P @ rest" and "length P = kRtmpHandShakePacketSize + 1"
  shows "checkC1S1 w h (peek b) n = checkC1S1 w h P n"
    and "kRtmpHandShakePacketSize + 1 \<le> readableBytes b"
    and "\<exists>b'. retrieve b (kRtmpHandShakePacketSize + 1) = Some b' \<and> buf_ok b' \<and> content b' = rest
          \<and> readableBytes b' = length rest"
proof -
  note r = retrieve_prefix [OF assms(1,2)]
  have "peek b = P @ drop (length P) (peek b)" using r(2) by (metis append_take_drop_id)
  then show "checkC1S1 w h (peek b) n = checkC1S1 w h P n"
    using checkC1S1_prefix [OF assms(3)] by metis
  show "kRtmpHandShakePacketSize + 1 \<le> readableBytes b" using r(1) assms(3) by simp
  show "\<exists>b'. retrieve b (kRtmpHandShakePacketSize + 1) = Some b' \<and> buf_ok b' \<and> content b' = rest
          \<and> readableBytes b' = length rest"
    using r(3) assms(3) length_content by (metis buf_okD)
qed

text \<open>A world to evaluate on: a simple checksum in place of HMAC-SHA256.\<close>

definition sample_world :: world where
  "sample_world =
     \<lparr>hmac = (\<lambda>k d. replicate 31 1 @ [fold (+) d (fold (+) k 0)]), random = of_nat,
      now = 1000, completes = (\<lambda>k. even k)\<rparr>"

lemma sample_hmac: "length (hmac sample_world k d) = kDigestLength"
  by (simp add: sample_world_def kDigestLength_def)

lemma server_started:
  "hs_state (start w (new_RtmpHandShake False)) = kHandShakeWaitC0C1"
  "alive (start w (new_RtmpHandShake False))" "sent (start w (new_RtmpHandShake False)) = []"
  "is_complex_handshake (start w (new_RtmpHandShake False))"
  "\<not> is_client (start w (new_RtmpHandShake False))"
  "\<not> pending (start w (new_RtmpHandShake False))"
  by (simp_all add: start_def Let_def) (simp_all add: new_RtmpHandShake_def)

subsection \<open>Properties\<close>

text \<open>
  A digest lies inside its 764-byte block of the packet: whatever the four offset bytes
  are, in both formats of C1 and S1 the 32 bytes start after the offset bytes and end
  inside the block, so checking a packet never reads outside it.
\<close>

lemma digest_inside_block:
  "\<forall>off \<in> {8, 764 + 8}. off + 4 \<le> GetDigestOffset buf off 728
     \<and> GetDigestOffset buf off 728 + kDigestLength \<le> off + 764
     \<and> off + 764 \<le> kRtmpHandShakePacketSize"
  using GetDigestOffset_range [where buf = buf and off = 8]
    GetDigestOffset_range [where buf = buf and off = 772]
  by (auto simp: kDigestLength_def kRtmpHandShakePacketSize_def)

lemma digest_inside_block_witness:
  "\<exists>off \<in> {8, 764 + 8 :: nat}. off + 4 \<le> GetDigestOffset (replicate 1536 255) off 728"
  using digest_inside_block [of "replicate 1536 255"] by blast

text \<open>
  C18. What one side of a complex handshake builds, the other side accepts: the packet has
  1537 bytes, the peer (the opposite role, the same HMAC) finds the digest in it, reports
  its position, and the bytes there are the digest the sender keeps. The only assumption
  on the HMAC is the length of its result.
\<close>

theorem complex_packet_accepted:
  assumes "is_complex_handshake h" and "is_complex_handshake p" and "is_client p = (\<not> is_client h)"
    and "\<And>k d. length (hmac w k d) = kDigestLength" and "hmac w' = hmac w"
  shows "length (C1S1 (createC1S1 w h)) = kRtmpHandShakePacketSize + 1
     \<and> (\<exists>g. checkC1S1 w' p (C1S1 (createC1S1 w h)) (kRtmpHandShakePacketSize + 1) = (int g, p)
          \<and> digest (createC1S1 w h) = take kDigestLength (drop (1 + g) (C1S1 (createC1S1 w h))))"
  using createC1S1_shape(1,5) [where w = w, OF assms(1,4)] createC1S1_accepted [OF assms]
  by auto

theorem complex_packet_accepted_witness:
  "\<exists>g. checkC1S1 sample_world (new_RtmpHandShake False)
          (C1S1 (createC1S1 sample_world (new_RtmpHandShake True))) 1537
        = (int g, new_RtmpHandShake False)"
  using complex_packet_accepted [of "new_RtmpHandShake True" "new_RtmpHandShake False" sample_world
      sample_world] sample_hmac
  by (auto simp: kRtmpHandShakePacketSize_def) (auto simp: new_RtmpHandShake_def)

text \<open>
  The server never sends out of order, twice or early: in every state reachable by any
  data, cut in any way, and any timing of the writes, it has sent a prefix of S0S1, S2; it
  sends nothing before C0C1 is accepted; and it waits for C2 or is done only after both
  packets have been written.
\<close>

lemma server_sends_in_order:
  assumes "hs_reachable w False (h, b)"
  shows "(\<exists>k. sent h = take k [C1S1 h, C2S2 h])
     \<and> (hs_state h = kHandShakeWaitC0C1 \<longrightarrow> sent h = [])
     \<and> (hs_state h \<in> {kHandShakeWaitC2, kHandShakeDone} \<longrightarrow>
          sent h = [C1S1 h, C2S2 h] \<and> \<not> pending h)
     \<and> hs_state h \<in> {kHandShakeWaitC0C1, kHandShakePostS0S1, kHandShakePostS2, kHandShakeWaitC2,
          kHandShakeDone}"
proof -
  have ok: "server_ok h" using reachable_server_ok [OF assms] by simp
  have "sent h \<in> {[], [C1S1 h], [C1S1 h, C2S2 h]}"
    using ok by (cases "hs_state h") (auto simp: server_ok_def)
  then have "\<exists>k. sent h = take k [C1S1 h, C2S2 h]"
    by (auto intro: exI [of _ 0] exI [of _ 1] exI [of _ 2])
  with ok show ?thesis by (cases "hs_state h") (auto simp: server_ok_def)
qed

lemma server_sends_in_order_witness:
  "sent (start sample_world (new_RtmpHandShake False)) = []"
  using server_sends_in_order [OF hs_reachable.init, of sample_world] server_started(1)
  by blast

text \<open>
  C1. The server's handshake succeeds: given a client's C0C1 at the front of the input (the
  packet \<open>createC1S1\<close> builds) it takes exactly that packet off, and once its writes are
  through, at most two deferred callbacks later and whichever of the sends were immediate,
  it has sent S0S1 and S2 and waits for C2; any 1536 bytes then end the handshake, the
  rest of the input being left.
\<close>

theorem server_handshake_completes:
  assumes "is_client p" and "is_complex_handshake p" and "hmac wp = hmac w"
    and "\<And>k d. length (hmac w k d) = kDigestLength"
    and "buf_ok b" and "content b = C1S1 (createC1S1 wp p) @ rest"
  shows "\<exists>h b'. handshake w (start w (new_RtmpHandShake False)) b = Some (0, h, b')
     \<and> buf_ok b' \<and> content b' = rest
     \<and> (let h2 = drain w (drain w h)
        in sent h2 = [C1S1 h2, C2S2 h2] \<and> hs_state h2 = kHandShakeWaitC2
         \<and> (\<forall>b2 c2 r. buf_ok b2 \<and> content b2 = c2 @ r \<and> length c2 = kRtmpHandShakePacketSize \<longrightarrow>
              (\<exists>b3. handshake w h2 b2 = Some (0, h2\<lparr>hs_state := kHandShakeDone\<rparr>, b3)
                 \<and> content b3 = r)))"
proof -
  let ?h = "start w (new_RtmpHandShake False)"
  note h = server_started [of w]
  have len': "\<And>k d. length (hmac wp k d) = kDigestLength" using assms(3,4) by simp
  have acc: "\<exists>g. checkC1S1 w ?h (C1S1 (createC1S1 wp p)) (kRtmpHandShakePacketSize + 1) = (int g, ?h)"
    using createC1S1_accepted [where w = wp and w' = w, OF assms(2) h(4) _ len'] assms(1,3) h(5)
    by simp
  note f = front_packet [OF assms(5,6) createC1S1_shape(1) [where w = wp, OF assms(2) len']]
  from f(3) obtain b' where b': "retrieve b (kRtmpHandShakePacketSize + 1) = Some b'" "buf_ok b'"
      "content b' = rest" by blast
  let ?h1 = "(createC2S2 w ?h (drop 1 (peek b)))\<lparr>hs_state := kHandShakePostS0S1\<rparr>"
  let ?h2 = "sendC1S1 w ?h1"
  have step: "handshake w ?h b = Some (0, ?h2, b')"
    using h acc f(1,2) b'(1) by (auto simp: handshake_def Let_def)
  have s: "server_ok ?h2" "hs_state ?h2 \<in> {kHandShakePostS0S1, kHandShakePostS2, kHandShakeWaitC2}"
    by (rule server_send; use h in simp)+
  note d = server_drains [OF s, of w]
  let ?h3 = "drain w (drain w ?h2)"
  have "\<exists>b3. handshake w ?h3 b2 = Some (0, ?h3\<lparr>hs_state := kHandShakeDone\<rparr>, b3) \<and> content b3 = r"
    if "buf_ok b2" "content b2 = c2 @ r" "length c2 = kRtmpHandShakePacketSize" for b2 c2 r
    using retrieve_prefix [OF that(1,2)] that(3) d
    by (auto simp: handshake_def checkC2S2_def server_ok_def)
  with step b' d show ?thesis
    by (intro exI [of _ ?h2] exI [of _ b']) (auto simp: Let_def server_ok_def)
qed


definition sample_C0C1 :: bytes where
  "sample_C0C1 = C1S1 (createC1S1 sample_world (new_RtmpHandShake True))"

theorem server_handshake_completes_witness:
  "\<exists>h b'. handshake sample_world (start sample_world (new_RtmpHandShake False))
       (filled (sample_C0C1 @ [9])) = Some (0, h, b')
     \<and> content b' = [9]
     \<and> hs_state (drain sample_world (drain sample_world h)) = kHandShakeWaitC2"
proof -
  have "is_client (new_RtmpHandShake True)" "is_complex_handshake (new_RtmpHandShake True)"
    by (simp_all add: new_RtmpHandShake_def)
  from server_handshake_completes [OF this refl sample_hmac, of "filled (sample_C0C1 @ [9])" "[9]"]
  show ?thesis by (auto simp: sample_C0C1_def Let_def)
qed

text \<open>The client's side of the exchange after \<open>start\<close>, its C0C1 written.\<close>

definition client_waiting :: "rtmp_handshake \<Rightarrow> bool" where
  "client_waiting h \<longleftrightarrow> alive h \<and> is_client h \<and> is_complex_handshake h \<and> \<not> pending h
     \<and> hs_state h = kHandShakeWaitS0S1 \<and> sent h = [C1S1 h]"

lemma client_started: "client_waiting (drain w (start w (new_RtmpHandShake True)))"
proof -
  let ?h = "new_RtmpHandShake True"
  have "alive ?h" "is_client ?h" "is_complex_handshake ?h" "\<not> pending ?h" "sent ?h = []"
    by (simp_all add: new_RtmpHandShake_def)
  then show ?thesis
    by (cases "completes w 0")
      (simp_all add: start_def sendC1S1_def conn_send.simps writeComplete_cases drain_def
        client_waiting_def Let_def)
qed

lemma client_accepts:
  assumes "client_waiting h" and "\<not> is_client p" and "is_complex_handshake p"
    and "hmac wp = hmac w" and "\<And>k d. length (hmac w k d) = kDigestLength"
  shows "\<exists>g. checkC1S1 w h (C1S1 (createC1S1 wp p)) (kRtmpHandShakePacketSize + 1) = (int g, h)"
    and "length (C1S1 (createC1S1 wp p)) = kRtmpHandShakePacketSize + 1"
proof -
  have len': "\<And>k d. length (hmac wp k d) = kDigestLength" using assms(4,5) by simp
  show "\<exists>g. checkC1S1 w h (C1S1 (createC1S1 wp p)) (kRtmpHandShakePacketSize + 1) = (int g, h)"
    using createC1S1_accepted [where w = wp and w' = w, OF assms(3) _ _ len'] assms(1,2,4)
    by (simp add: client_waiting_def)
  show "length (C1S1 (createC1S1 wp p)) = kRtmpHandShakePacketSize + 1"
    by (rule createC1S1_shape(1) [OF assms(3) len'])
qed

lemma client_C2_written:
  assumes "alive h" and "\<not> pending h" and "hs_state h = kHandShakeDoing"
  shows "hs_state (drain w (sendC2S2 w h)) = kHandShakeDone"
    and "\<not> pending (drain w (sendC2S2 w h))"
    and "sent (drain w (sendC2S2 w h)) = sent h @ [C2S2 h]"
  using assms
  by (cases "completes w (length (sent h))"; simp add: run_simps)+

lemma client_resends:
  fixes w :: world
  assumes "alive h" and "\<not> pending h" and "hs_state h = kHandShakePostC2"
  defines "h2 \<equiv> sendC1S1 w ((sendC2S2 w h)\<lparr>hs_state := kHandShakePostS0S1\<rparr>)"
  shows "hs_state (drain w (drain w h2)) = kHandShakeWaitC2
     \<and> sent (drain w (drain w h2)) = sent h @ [C2S2 h, C1S1 h, C2S2 h]"
  unfolding h2_def using assms(1-3)
  by (cases "completes w (length (sent h))"; cases "completes w (Suc (length (sent h)))";
      cases "completes w (Suc (Suc (length (sent h))))") (simp_all add: run_simps)

text \<open>
  C30. The client's handshake when S0S1 and S2 have arrived together: \<open>handshake\<close> returns 2,
  takes S0S1 off the input and leaves S2 in it, and once its C2 is written the client is
  done, having sent C0C1 and C2, each once.
\<close>

theorem client_handshake_with_S2:
  assumes "client_waiting h" and "\<not> is_client p" and "is_complex_handshake p"
    and "hmac wp = hmac w" and "\<And>k d. length (hmac w k d) = kDigestLength"
    and "buf_ok b" and "content b = C1S1 (createC1S1 wp p) @ s2 @ rest"
    and "length s2 = kRtmpHandShakePacketSize"
  shows "\<exists>h1 b'. handshake w h b = Some (2, h1, b') \<and> buf_ok b' \<and> content b' = s2 @ rest
     \<and> hs_state (drain w h1) = kHandShakeDone \<and> \<not> pending (drain w h1)
     \<and> sent (drain w h1) = [C1S1 h, C2S2 h1]"
proof -
  note acc = client_accepts [OF assms(1-5)]
  note f = front_packet [OF assms(6,7) acc(2)]
  from f(3) obtain b' where b': "retrieve b (kRtmpHandShakePacketSize + 1) = Some b'" "buf_ok b'"
      "content b' = s2 @ rest" "readableBytes b' = length (s2 @ rest)" by blast
  let ?h1 = "(createC2S2 w h (drop 1 (peek b)))\<lparr>hs_state := kHandShakeDoing\<rparr>"
  have h: "alive h" "hs_state h = kHandShakeWaitS0S1" "\<not> pending h" "sent h = [C1S1 h]"
    using assms(1) by (simp_all add: client_waiting_def)
  have "handshake w h b = Some (2, sendC2S2 w ?h1, b')"
    using h acc(1) f(1,2) b' assms(8) by (auto simp: handshake_def Let_def)
  moreover have "alive ?h1" "\<not> pending ?h1" "hs_state ?h1 = kHandShakeDoing" "sent ?h1 = [C1S1 h]"
    using h by simp_all
  note client_C2_written [OF this(1-3), of w, unfolded this(4)]
  ultimately show ?thesis using b' by simp
qed

definition sample_S0S1 :: bytes where
  "sample_S0S1 = C1S1 (createC1S1 sample_world (new_RtmpHandShake False))"

lemma new_server: "\<not> is_client (new_RtmpHandShake False)"
    "is_complex_handshake (new_RtmpHandShake False)"
  by (simp_all add: new_RtmpHandShake_def)

theorem client_handshake_with_S2_witness:
  "\<exists>h1 b'. handshake sample_world (drain sample_world (start sample_world (new_RtmpHandShake True)))
       (filled (sample_S0S1 @ replicate 1536 0)) = Some (2, h1, b')
     \<and> hs_state (drain sample_world h1) = kHandShakeDone"
proof -
  have "length (replicate 1536 0 :: bytes) = kRtmpHandShakePacketSize"
    by (simp add: kRtmpHandShakePacketSize_def)
  moreover have "content (filled (sample_S0S1 @ replicate 1536 0))
      = C1S1 (createC1S1 sample_world (new_RtmpHandShake False)) @ replicate 1536 0 @ []"
    by (simp add: sample_S0S1_def)
  ultimately show ?thesis
    using client_handshake_with_S2 [OF client_started new_server refl sample_hmac filled(1)]
    by blast
qed

text \<open>
  The client's handshake when S2 has not arrived with S0S1: after C2 the code runs on
  into the server's lines, so that once everything is written the client has sent
  C0C1 and C2 a second time, and waits for the C2 that only a server receives.
\<close>

lemma client_handshake_without_S2_resends:
  assumes "client_waiting h" and "\<not> is_client p" and "is_complex_handshake p"
    and "hmac wp = hmac w" and "\<And>k d. length (hmac w k d) = kDigestLength"
    and "buf_ok b" and "content b = C1S1 (createC1S1 wp p) @ rest"
    and "length rest < kRtmpHandShakePacketSize"
  shows "\<exists>h1 b'. handshake w h b = Some (0, h1, b') \<and> content b' = rest
     \<and> (let h2 = drain w (drain w h1)
        in hs_state h2 = kHandShakeWaitC2 \<and> sent h2 = [C1S1 h, C2S2 h1, C1S1 h, C2S2 h1])"
proof -
  note acc = client_accepts [OF assms(1-5)]
  note f = front_packet [OF assms(6,7) acc(2)]
  from f(3) obtain b' where b': "retrieve b (kRtmpHandShakePacketSize + 1) = Some b'" "buf_ok b'"
      "content b' = rest" "readableBytes b' = length rest" by blast
  let ?h1 = "(createC2S2 w h (drop 1 (peek b)))\<lparr>hs_state := kHandShakePostC2\<rparr>"
  let ?h2 = "sendC1S1 w ((sendC2S2 w ?h1)\<lparr>hs_state := kHandShakePostS0S1\<rparr>)"
  have h: "alive h" "hs_state h = kHandShakeWaitS0S1" "\<not> pending h" "sent h = [C1S1 h]"
    using assms(1) by (simp_all add: client_waiting_def)
  have step: "handshake w h b = Some (0, ?h2, b')"
    using h acc(1) f(1,2) b' assms(8) by (auto simp: handshake_def Let_def)
  have "alive ?h1" "\<not> pending ?h1" "hs_state ?h1 = kHandShakePostC2" "sent ?h1 = [C1S1 h]"
      "C1S1 ?h1 = C1S1 h" using h by simp_all
  note client_resends [OF this(1-3), of w, unfolded this(4,5)]
  moreover have "C2S2 ?h2 = C2S2 ?h1" by (simp add: sendC1S1_def)
  ultimately show ?thesis using step b' by (simp add: Let_def)
qed


lemma client_handshake_without_S2_resends_witness:
  "\<exists>h1 b'. handshake sample_world (drain sample_world (start sample_world (new_RtmpHandShake True)))
       (filled sample_S0S1) = Some (0, h1, b')
     \<and> length (sent (drain sample_world (drain sample_world h1))) = 4"
proof -
  have "length ([] :: bytes) < kRtmpHandShakePacketSize" by (simp add: kRtmpHandShakePacketSize_def)
  moreover have "content (filled sample_S0S1)
      = C1S1 (createC1S1 sample_world (new_RtmpHandShake False)) @ []"
    by (simp add: sample_S0S1_def)
  ultimately obtain h1 b' where
    "handshake sample_world (drain sample_world (start sample_world (new_RtmpHandShake True)))
       (filled sample_S0S1) = Some (0, h1, b')"
    "\<exists>x y. sent (drain sample_world (drain sample_world h1)) = [x, y, x, y]"
    using client_handshake_without_S2_resends
      [OF client_started [of sample_world] new_server refl sample_hmac filled(1), of sample_S0S1 "[]"]
    by (auto simp: Let_def)
  then show ?thesis by auto
qed

lemma length_now: "length (rev (to_mem (x :: u32))) = 4"
  by (simp add: length_to_mem)

text \<open>
  The layout of C2 and S2: 1536 bytes, the time in network byte order, the peer's
  second word; in a complex handshake the last 32 bytes are the digest of the 1504 before
  them, keyed with the digest of the side's own packet. Nothing else of the peer's packet
  is echoed, not even in a simple handshake.
\<close>

lemma C2S2_layout:
  fixes h :: rtmp_handshake
  assumes "8 \<le> length data" and "\<And>k d. length (hmac w k d) = kDigestLength"
  defines "P \<equiv> C2S2 (createC2S2 w h data)"
  defines "own_key \<equiv> (if is_client h then take PLAYER_KEY_OPEN_PART_LEN rtmp_player_key
                      else take SERVER_KEY_OPEN_PART_LEN rtmp_server_key)"
  shows "length P = kRtmpHandShakePacketSize
     \<and> take 4 P = rev (to_mem (word_of_int (now w) :: u32))
     \<and> take 4 (drop 4 P) = take 4 (drop 4 data)
     \<and> take 1496 (drop 8 P) = map (\<lambda>i. random w (draws h + i)) [8..<1504]
     \<and> drop 1504 P = (if is_complex_handshake h
          then hmac w (hmac w own_key (take 32 (digest h))) (take 1504 P)
          else map (\<lambda>i. random w (draws h + i)) [1504..<1536])"
proof -
  let ?t = "rev (to_mem (word_of_int (now w) :: u32))"
  let ?r = "map (\<lambda>i. random w (draws h + i)) [0..<1536]"
  define c where "c = overwrite (overwrite ?r 0 (take 8 data)) 0 ?t"
  have c: "c = ?t @ take 4 (drop 4 data) @ drop 8 ?r"
    using assms(1) length_now [of "word_of_int (now w)"]
    by (simp add: c_def overwrite_def min_absorb2 drop_take)
  have lr: "length (drop 8 ?r) = 1528" by simp
  have r: "take 1496 (drop 8 ?r) = map (\<lambda>i. random w (draws h + i)) [8..<1504]"
    "drop 1496 (drop 8 ?r) = map (\<lambda>i. random w (draws h + i)) [1504..<1536]"
    by (simp_all add: take_map drop_map)
  have lc: "length c = 1536" using lr assms(1) length_now unfolding c by simp
  have parts: "take 4 c = ?t" "take 4 (drop 4 c) = take 4 (drop 4 data)"
    "take 1496 (drop 8 c) = map (\<lambda>i. random w (draws h + i)) [8..<1504]"
    "drop 1504 c = map (\<lambda>i. random w (draws h + i)) [1504..<1536]"
    using assms(1) length_now [of "word_of_int (now w)"] lr r unfolding c
    by (simp_all add: drop_append take_append min_absorb2)
  let ?d = "hmac w (hmac w own_key (take 32 (digest h))) (take 1504 c)"
  have c': "overwrite (overwrite (genRandom w h 1536) 0 (take 8 data)) 0 ?t = c"
    by (simp add: c_def genRandom_def)
  have P: "P = (if is_complex_handshake h then take 1504 c @ ?d else c)"
    using lc assms(2) by (simp add: P_def createC2S2_def Let_def CalculateDigest_def own_key_def c'
        kRtmpHandShakePacketSize_def kDigestLength_def overwrite_def [of c])
  show ?thesis
    using parts lc assms(2) unfolding P
    by (auto simp: kRtmpHandShakePacketSize_def kDigestLength_def min_absorb1 take_drop)
qed


lemma C2S2_layout_witness:
  "take 4 (C2S2 (createC2S2 sample_world (new_RtmpHandShake False) (replicate 8 5))) = [0, 0, 3, 232]
   \<and> take 4 (drop 4 (C2S2 (createC2S2 sample_world (new_RtmpHandShake False) (replicate 8 5))))
       = [5, 5, 5, 5]"
proof -
  have n: "now sample_world = 1000" by (simp add: sample_world_def)
  have t: "rev (to_mem (1000 :: u32)) = [0, 0, 3, 232]"
    by (simp add: to_mem_def upt_rec)
  let ?P = "C2S2 (createC2S2 sample_world (new_RtmpHandShake False) (replicate 8 5))"
  have "8 \<le> length (replicate 8 (5 :: byte))" by simp
  from C2S2_layout [OF this sample_hmac, of "new_RtmpHandShake False"]
  have "take 4 ?P = rev (to_mem (word_of_int (now sample_world) :: u32))"
    and "take 4 (drop 4 ?P) = take 4 (drop 4 (replicate 8 5))" by blast+
  with t show ?thesis by (simp add: n) (simp add: numeral_eq_Suc)
qed

end
