(* ===== verification/EventLoop.thy ===== *)
theory EventLoop
  imports TimingWheel
begin

unbundle bit_operations_syntax

text \<open>
  The event loop of \<open>src/network/net/EventLoop.h\<close> and \<open>EventLoop.cpp\<close> with the objects it
  dispatches to (\<open>Event.h\<close>, \<open>Event.cpp\<close>) and its wake-up pipe (\<open>PipeEvent.cpp\<close>). Event
  objects live in the heap \<open>objs\<close> and are named by numbers, as the code names them by
  pointers. System calls are logged in \<open>calls\<close>; what \<open>epoll_wait\<close> reports is an
  input of the loop. The virtual handlers are a parameter. Log messages are left out.
\<close>

subsection \<open>State\<close>

type_synonym mask = u32

definition EPOLLIN :: mask where "EPOLLIN = 1"
definition EPOLLPRI :: mask where "EPOLLPRI = 2"
definition EPOLLOUT :: mask where "EPOLLOUT = 4"
definition EPOLLERR :: mask where "EPOLLERR = 8"
definition EPOLLHUP :: mask where "EPOLLHUP = 16"

lemmas epoll_consts = EPOLLIN_def EPOLLPRI_def EPOLLOUT_def EPOLLERR_def EPOLLHUP_def

definition kEventRead :: mask where
  "kEventRead = EPOLLIN OR EPOLLPRI"

definition kEventWrite :: mask where
  "kEventWrite = EPOLLOUT"

text \<open>An \<open>Event\<close>: its descriptor (-1 when closed) and the events it asks for.\<close>

record event =
  fd :: int
  events_mask :: mask

datatype syscall =
    EPOLL_CTL_ADD int mask
  | EPOLL_CTL_MOD int mask
  | EPOLL_CTL_DEL int
  | Close int
  | PipeWrite int

text \<open>
  The closures handed to \<open>runInLoop\<close>: those of \<open>runAfter\<close>, \<open>runEvery\<close> and
  \<open>insertEntry\<close>, and any other, which is logged under its number when it runs.
\<close>

datatype task = UserTask nat | AfterTask int nat | EveryTask int nat | InsertTask int entry

text \<open>
  \<open>owner\<close> is the thread the loop was constructed in, \<open>unread\<close> the number of wake-up
  words in the pipe, \<open>ran\<close> the closures run so far, in order.
\<close>

record event_loop =
  owner :: nat
  looping :: bool
  epoll :: int
  epoll_events_size :: nat
  events :: "int \<Rightarrow> nat option"
  objs :: "nat \<Rightarrow> event"
  queue :: "task list"
  pipe :: "nat option"
  unread :: nat
  timing :: timing_wheel
  calls :: "syscall list"
  ran :: "task list"

text \<open>The constructor: \<open>None\<close> when \<open>epoll_create\<close> failed or the thread has a loop (\<open>exit\<close>).\<close>

definition new_EventLoop :: "nat \<Rightarrow> bool \<Rightarrow> int \<Rightarrow> event_loop option" where
  "new_EventLoop thread has_loop epfd =
     (if epfd < 0 then None
      else if has_loop then None
      else Some \<lparr>owner = thread, looping = False, epoll = epfd, epoll_events_size = 1024,
        events = Map.empty, objs = (\<lambda>_. \<lparr>fd = -1, events_mask = 0\<rparr>), queue = [],
        pipe = None, unread = 0, timing = new_TimingWheel, calls = [], ran = []\<rparr>)"

subsection \<open>Events\<close>

definition new_Event :: "event_loop \<Rightarrow> nat \<Rightarrow> int \<Rightarrow> event_loop" where
  "new_Event s ev f = s\<lparr>objs := (objs s)(ev := \<lparr>fd = f, events_mask = 0\<rparr>)\<rparr>"

definition setEvents :: "event_loop \<Rightarrow> nat \<Rightarrow> mask \<Rightarrow> event_loop" where
  "setEvents s ev m = s\<lparr>objs := (objs s)(ev := (objs s ev)\<lparr>events_mask := m\<rparr>)\<rparr>"

definition getEvents :: "event_loop \<Rightarrow> nat \<Rightarrow> mask" where
  "getEvents s ev = events_mask (objs s ev)"

definition getFd :: "event_loop \<Rightarrow> nat \<Rightarrow> int" where
  "getFd s ev = fd (objs s ev)"

definition syscall :: "event_loop \<Rightarrow> syscall \<Rightarrow> event_loop" where
  "syscall s c = s\<lparr>calls := calls s @ [c]\<rparr>"

text \<open>The assignments of a new descriptor to \<open>fd_\<close> in the classes derived from \<open>Event\<close>.\<close>

definition setFd :: "event_loop \<Rightarrow> nat \<Rightarrow> int \<Rightarrow> event_loop" where
  "setFd l ev f = l\<lparr>objs := (objs l)(ev := (objs l ev)\<lparr>fd := f\<rparr>)\<rparr>"

text \<open>\<open>Event::close\<close>.\<close>

definition close_event :: "event_loop \<Rightarrow> nat \<Rightarrow> event_loop" where
  "close_event s ev =
     (if getFd s ev \<noteq> -1
      then let s1 = syscall s (Close (getFd s ev))
           in s1\<lparr>objs := (objs s1)(ev := (objs s1 ev)\<lparr>fd := -1\<rparr>)\<rparr>
      else s)"

subsection \<open>Registration\<close>

definition addEvent :: "event_loop \<Rightarrow> nat \<Rightarrow> event_loop" where
  "addEvent s ev =
     (case events s (getFd s ev) of
        Some _ \<Rightarrow> s
      | None \<Rightarrow>
          let s1 = setEvents s ev kEventRead;
              s2 = s1\<lparr>events := (events s1)(getFd s ev \<mapsto> ev)\<rparr>
          in syscall s2 (EPOLL_CTL_ADD (getFd s ev) (getEvents s2 ev)))"

definition removeEvent :: "event_loop \<Rightarrow> nat \<Rightarrow> event_loop" where
  "removeEvent s ev =
     (case events s (getFd s ev) of
        None \<Rightarrow> s
      | Some _ \<Rightarrow>
          syscall (s\<lparr>events := (events s)(getFd s ev := None)\<rparr>) (EPOLL_CTL_DEL (getFd s ev)))"

definition enableEventReading :: "event_loop \<Rightarrow> nat \<Rightarrow> bool \<Rightarrow> event_loop" where
  "enableEventReading s ev enable =
     (case events s (getFd s ev) of
        None \<Rightarrow> s
      | Some _ \<Rightarrow>
          let s1 = setEvents s ev (if enable then getEvents s ev OR kEventRead
                                   else getEvents s ev AND NOT kEventRead)
          in syscall s1 (EPOLL_CTL_MOD (getFd s ev) (getEvents s1 ev)))"

definition enableEventWriting :: "event_loop \<Rightarrow> nat \<Rightarrow> bool \<Rightarrow> event_loop" where
  "enableEventWriting s ev enable =
     (case events s (getFd s ev) of
        None \<Rightarrow> s
      | Some _ \<Rightarrow>
          let s1 = setEvents s ev (if enable then getEvents s ev OR kEventWrite
                                   else getEvents s ev AND NOT kEventWrite)
          in syscall s1 (EPOLL_CTL_MOD (getFd s ev) (getEvents s1 ev)))"

subsection \<open>Closures\<close>

definition isInLoopThread :: "event_loop \<Rightarrow> nat \<Rightarrow> bool" where
  "isInLoopThread s t = (t = owner s)"

definition assertInLoopThread :: "event_loop \<Rightarrow> nat \<Rightarrow> unit option" where
  "assertInLoopThread s t = assert_that (isInLoopThread s t)"

text \<open>
  The closure of \<open>insertEntry\<close> holds a reference to the entry of its own, which goes with the closure. By
  then the thread that handed it over has dropped its reference.
\<close>

definition run_task :: "event_loop \<Rightarrow> task \<Rightarrow> event_loop option" where
  "run_task s f =
     map_option (\<lambda>tw. s\<lparr>timing := tw, ran := ran s @ [f]\<rparr>)
       (case f of
          UserTask n \<Rightarrow> Some (timing s)
        | AfterTask delay g \<Rightarrow> runAfter (timing s) delay g
        | EveryTask interval g \<Rightarrow> runEvery (timing s) interval g
        | InsertTask delay e \<Rightarrow> release (insertEntry (timing s) delay e) e)"

text \<open>
  The first wake-up creates the pipe: an event object \<open>ev\<close> with the read end \<open>rfd\<close>,
  which \<open>addEvent\<close> registers. Each wake-up writes one 8-byte word. The pipe never is full here: a real one
  holds 8192 words, after which the write, which is made with the mutex of the queue held, would block.
\<close>

definition weakup :: "event_loop \<Rightarrow> nat \<Rightarrow> int \<Rightarrow> event_loop" where
  "weakup s ev rfd =
     (let s1 = (case pipe s of
                  Some _ \<Rightarrow> s
                | None \<Rightarrow> addEvent (new_Event (s\<lparr>pipe := Some ev\<rparr>) ev rfd) ev)
      in syscall (s1\<lparr>unread := Suc (unread s1)\<rparr>) (PipeWrite 1))"

text \<open>\<open>PipeEvent::onRead\<close> takes one word out of the pipe.\<close>

definition pipe_onRead :: "event_loop \<Rightarrow> event_loop" where
  "pipe_onRead s = s\<lparr>unread := unread s - 1\<rparr>"

text \<open>\<open>t\<close> is the calling thread; \<open>ev\<close> and \<open>rfd\<close> what a first wake-up would allocate.\<close>

definition runInLoop ::
    "event_loop \<Rightarrow> nat \<Rightarrow> nat \<times> int \<Rightarrow> task \<Rightarrow> event_loop option" where
  "runInLoop s t fresh f =
     (if isInLoopThread s t then run_task s f
      else Some (weakup (s\<lparr>queue := queue s @ [f]\<rparr>) (fst fresh) (snd fresh)))"

fun run_tasks :: "event_loop \<Rightarrow> task list \<Rightarrow> event_loop option" where
  "run_tasks s [] = Some s"
| "run_tasks s (f # fs) =
     do { s1 \<leftarrow> run_task s f; run_tasks (s1\<lparr>queue := tl (queue s1)\<rparr>) fs }"

definition runFunctions :: "event_loop \<Rightarrow> event_loop option" where
  "runFunctions s = run_tasks s (queue s)"

definition loop_runAfter ::
    "event_loop \<Rightarrow> nat \<Rightarrow> nat \<times> int \<Rightarrow> int \<Rightarrow> nat \<Rightarrow> event_loop option" where
  "loop_runAfter s t fresh delay f =
     (if isInLoopThread s t
      then map_option (\<lambda>tw. s\<lparr>timing := tw\<rparr>) (runAfter (timing s) delay f)
      else runInLoop s t fresh (AfterTask delay f))"

text \<open>In the loop's own thread the code calls \<open>runAfter\<close> of the wheel.\<close>

definition loop_runEvery ::
    "event_loop \<Rightarrow> nat \<Rightarrow> nat \<times> int \<Rightarrow> int \<Rightarrow> nat \<Rightarrow> event_loop option" where
  "loop_runEvery s t fresh interval f =
     (if isInLoopThread s t
      then map_option (\<lambda>tw. s\<lparr>timing := tw\<rparr>) (runAfter (timing s) interval f)
      else runInLoop s t fresh (EveryTask interval f))"

definition loop_insertEntry ::
    "event_loop \<Rightarrow> nat \<Rightarrow> nat \<times> int \<Rightarrow> int \<Rightarrow> entry \<Rightarrow> event_loop option" where
  "loop_insertEntry s t fresh delay e =
     (if isInLoopThread s t
      then Some (s\<lparr>timing := insertEntry (timing s) delay e\<rparr>)
      else runInLoop s t fresh (InsertTask delay e))"

subsection \<open>The loop\<close>

datatype callback = OnRead | OnWrite | OnError | OnClose

definition which_callback :: "mask \<Rightarrow> callback option" where
  "which_callback m =
     (if m AND EPOLLERR \<noteq> 0 then Some OnError
      else if m AND EPOLLHUP \<noteq> 0 \<and> \<not> (m AND EPOLLIN \<noteq> 0) then Some OnClose
      else if m AND (EPOLLIN OR EPOLLPRI) \<noteq> 0 then Some OnRead
      else if m AND EPOLLOUT \<noteq> 0 then Some OnWrite
      else None)"

type_synonym handler = "nat \<Rightarrow> callback \<Rightarrow> event_loop \<Rightarrow> event_loop option"

fun dispatch_all :: "handler \<Rightarrow> event_loop \<Rightarrow> (int \<times> mask) list \<Rightarrow> event_loop option" where
  "dispatch_all h s [] = Some s"
| "dispatch_all h s ((f, m) # ready) =
     do { s1 \<leftarrow> (case events s f of
            None \<Rightarrow> Some s
          | Some ev \<Rightarrow> (case which_callback m of None \<Rightarrow> Some s | Some cb \<Rightarrow> h ev cb s));
          dispatch_all h s1 ready }"

text \<open>
  One round of \<open>loop\<close>: \<open>epoll_wait\<close> failed (\<open>None\<close>, only logged) or reported some
  descriptors, at most \<open>epoll_events_size\<close>.
\<close>

definition loop_once :: "handler \<Rightarrow> (int \<times> mask) list option \<Rightarrow> int \<Rightarrow> event_loop \<Rightarrow> event_loop option" where
  "loop_once h waited now s =
     (case waited of
        None \<Rightarrow> Some s
      | Some ready \<Rightarrow> do {
          s1 \<leftarrow> dispatch_all h s ready;
          let s2 = (if length ready = epoll_events_size s1
                    then s1\<lparr>epoll_events_size := epoll_events_size s1 * 2\<rparr> else s1);
          s3 \<leftarrow> runFunctions s2;
          tw \<leftarrow> onTimer (timing s3) now;
          Some (s3\<lparr>timing := tw\<rparr>)
        })"

text \<open>The \<open>while\<close> loop over the rounds of an input; it stops when \<open>looping\<close> is cleared.\<close>

fun loop_rounds ::
    "handler \<Rightarrow> ((int \<times> mask) list option \<times> int) list \<Rightarrow> event_loop \<Rightarrow> event_loop option" where
  "loop_rounds h [] s = Some s"
| "loop_rounds h ((waited, now) # rounds) s =
     (if looping s then do { s1 \<leftarrow> loop_once h waited now s; loop_rounds h rounds s1 }
      else Some s)"

definition loop :: "handler \<Rightarrow> ((int \<times> mask) list option \<times> int) list \<Rightarrow> event_loop \<Rightarrow> event_loop option" where
  "loop h rounds s = loop_rounds h rounds (s\<lparr>looping := True\<rparr>)"

definition quit :: "event_loop \<Rightarrow> event_loop" where
  "quit s = syscall (s\<lparr>looping := False\<rparr>) (Close (epoll s))"

subsection \<open>The kernel's view\<close>

text \<open>
  What the kernel watches is a map from descriptors to masks. How a call changes it is a
  parameter; \<open>epoll_laws\<close> is what \<open>epoll_ctl(2)\<close> and \<open>close(2)\<close> document: adding a descriptor that
  is not watched yet, modifying and deleting a watched one, and closing one, which drops it.
  Adding -1 is refused (\<open>EBADF\<close>). A descriptor from 0 on that an event object
  holds is open: it came from a system call, and the object gives it up, as -1, when it closes it.
\<close>

type_synonym kernel = "int \<Rightarrow> mask option"

definition epoll_laws :: "(kernel \<Rightarrow> syscall \<Rightarrow> kernel) \<Rightarrow> bool" where
  "epoll_laws ctl \<longleftrightarrow>
     (\<forall>k f m. 0 \<le> f \<and> k f = None \<longrightarrow> ctl k (EPOLL_CTL_ADD f m) = k(f \<mapsto> m))
   \<and> (\<forall>k f m. f < 0 \<longrightarrow> ctl k (EPOLL_CTL_ADD f m) = k)
   \<and> (\<forall>k f m. k f \<noteq> None \<longrightarrow> ctl k (EPOLL_CTL_MOD f m) = k(f \<mapsto> m))
   \<and> (\<forall>k f. k f \<noteq> None \<longrightarrow> ctl k (EPOLL_CTL_DEL f) = k(f := None))
   \<and> (\<forall>k f. ctl k (Close f) = k(f := None))
   \<and> (\<forall>k n. ctl k (PipeWrite n) = k)"

definition watched :: "(kernel \<Rightarrow> syscall \<Rightarrow> kernel) \<Rightarrow> event_loop \<Rightarrow> kernel" where
  "watched ctl s = foldl ctl Map.empty (calls s)"

text \<open>The kernel watches exactly the registered descriptors, each with its event's mask.\<close>

definition reg_inv :: "(kernel \<Rightarrow> syscall \<Rightarrow> kernel) \<Rightarrow> event_loop \<Rightarrow> bool" where
  "reg_inv ctl s \<longleftrightarrow>
     (\<forall>f. watched ctl s f = map_option (\<lambda>ev. events_mask (objs s ev)) (events s f))
   \<and> (\<forall>f ev. events s f = Some ev \<longrightarrow> fd (objs s ev) = f)"

lemma watched_syscall [simp]: "watched ctl (syscall s c) = ctl (watched ctl s) c"
  by (simp add: watched_def syscall_def)

lemma watched_frame [simp]:
  "watched ctl (setEvents s ev m) = watched ctl s" "watched ctl (new_Event s ev f) = watched ctl s"
  "watched ctl (s\<lparr>events := m'\<rparr>) = watched ctl s" "watched ctl (s\<lparr>objs := os\<rparr>) = watched ctl s"
  "watched ctl (s\<lparr>pipe := p\<rparr>) = watched ctl s" "watched ctl (s\<lparr>queue := q\<rparr>) = watched ctl s"
  "watched ctl (s\<lparr>unread := n\<rparr>) = watched ctl s" "watched ctl (s\<lparr>timing := tw\<rparr>) = watched ctl s"
  by (simp_all add: watched_def setEvents_def new_Event_def)

lemma syscall_frame [simp]:
  "objs (syscall s c) = objs s" "events (syscall s c) = events s" "queue (syscall s c) = queue s"
  "pipe (syscall s c) = pipe s" "unread (syscall s c) = unread s" "timing (syscall s c) = timing s"
  "owner (syscall s c) = owner s" "ran (syscall s c) = ran s"
  by (simp_all add: syscall_def)

lemma setEvents_frame [simp]:
  "events (setEvents s ev m) = events s" "queue (setEvents s ev m) = queue s"
  "pipe (setEvents s ev m) = pipe s" "unread (setEvents s ev m) = unread s"
  "timing (setEvents s ev m) = timing s" "owner (setEvents s ev m) = owner s"
  "ran (setEvents s ev m) = ran s"
  "objs (setEvents s ev m) = (objs s)(ev := (objs s ev)\<lparr>events_mask := m\<rparr>)"
  by (simp_all add: setEvents_def)

lemmas reg_simps = getFd_def getEvents_def Let_def

lemma epoll_lawsD:
  assumes "epoll_laws ctl"
  shows "0 \<le> f \<Longrightarrow> k f = None \<Longrightarrow> ctl k (EPOLL_CTL_ADD f m) = k(f \<mapsto> m)"
    and "k f = Some m' \<Longrightarrow> ctl k (EPOLL_CTL_MOD f m) = k(f \<mapsto> m)"
    and "k f = Some m' \<Longrightarrow> ctl k (EPOLL_CTL_DEL f) = k(f := None)"
    and "ctl k (Close f) = k(f := None)" and "ctl k (PipeWrite n) = k"
    and "f < 0 \<Longrightarrow> ctl k (EPOLL_CTL_ADD f m) = k"
  using assms unfolding epoll_laws_def by simp_all

lemma reg_invD:
  assumes "reg_inv ctl s"
  shows "events s f = None \<Longrightarrow> watched ctl s f = None"
    and "events s f = Some ev \<Longrightarrow> watched ctl s f = Some (events_mask (objs s ev))"
    and "events s f = Some ev \<Longrightarrow> fd (objs s ev) = f"
  using assms by (simp_all add: reg_inv_def)

lemma reg_invI:
  assumes "\<And>f. events s f = None \<Longrightarrow> watched ctl s f = None"
    and "\<And>f ev. events s f = Some ev \<Longrightarrow>
           watched ctl s f = Some (events_mask (objs s ev)) \<and> fd (objs s ev) = f"
  shows "reg_inv ctl s"
  unfolding reg_inv_def
proof (intro conjI allI impI)
  fix f
  show "watched ctl s f = map_option (\<lambda>ev. events_mask (objs s ev)) (events s f)"
    using assms by (cases "events s f") auto
qed (use assms in blast)

lemma addEvent_reg:
  assumes "epoll_laws ctl" and "reg_inv ctl s" and "\<forall>f. events s f \<noteq> Some ev" and "0 \<le> getFd s ev"
  shows "reg_inv ctl (addEvent s ev)"
proof (cases "events s (getFd s ev)")
  case None
  let ?f = "getFd s ev" and ?s = "addEvent s ev"
  have "ctl (watched ctl s) (EPOLL_CTL_ADD ?f kEventRead) = (watched ctl s)(?f \<mapsto> kEventRead)"
    by (rule epoll_lawsD(1) [OF assms(1,4)], rule reg_invD(1) [OF assms(2) None])
  with None have s: "watched ctl ?s = (watched ctl s)(?f \<mapsto> kEventRead)"
      "events ?s = (events s)(?f \<mapsto> ev)"
      "objs ?s = (objs s)(ev := (objs s ev)\<lparr>events_mask := kEventRead\<rparr>)"
    by (simp_all add: addEvent_def Let_def getEvents_def fun_eq_iff)
  show ?thesis
    using reg_invD [OF assms(2)] assms(3)
    by (intro reg_invI) (auto simp: s getFd_def split: if_splits)
qed (use assms(2) in \<open>simp add: addEvent_def\<close>)

lemma removeEvent_reg:
  assumes "epoll_laws ctl" and "reg_inv ctl s"
  shows "reg_inv ctl (removeEvent s ev)"
proof (cases "events s (getFd s ev)")
  case (Some ev')
  have "ctl (watched ctl s) (EPOLL_CTL_DEL (getFd s ev)) = (watched ctl s)(getFd s ev := None)"
    by (rule epoll_lawsD(3) [OF assms(1)], rule reg_invD(2) [OF assms(2) Some])
  with Some show ?thesis
    using reg_invD [OF assms(2)]
    by (intro reg_invI) (auto simp: removeEvent_def split: if_splits)
qed (use assms(2) in \<open>simp add: removeEvent_def\<close>)

lemma modify_reg:
  assumes "epoll_laws ctl" and "reg_inv ctl s" and "events s (getFd s ev) = Some ev"
  shows "reg_inv ctl (syscall (setEvents s ev m) (EPOLL_CTL_MOD (getFd s ev) m))"
proof -
  have w: "ctl (watched ctl s) (EPOLL_CTL_MOD (getFd s ev) m) = (watched ctl s)(getFd s ev \<mapsto> m)"
    by (rule epoll_lawsD(2) [OF assms(1)], rule reg_invD(2) [OF assms(2,3)])
  have other: "ev' \<noteq> ev" if "events s f = Some ev'" "f \<noteq> getFd s ev" for f ev'
    using reg_invD(3) [OF assms(2)] that by (auto simp: getFd_def)
  let ?t = "syscall (setEvents s ev m) (EPOLL_CTL_MOD (getFd s ev) m)"
  show ?thesis
  proof (rule reg_invI)
    fix f
    assume "events ?t f = None"
    then have "events s f = None" and "f \<noteq> getFd s ev" using assms(3) by auto
    then show "watched ctl ?t f = None" using reg_invD(1) [OF assms(2)] by (simp add: w)
  next
    fix f ev'
    assume "events ?t f = Some ev'"
    then have e: "events s f = Some ev'" by simp
    show "watched ctl ?t f = Some (events_mask (objs ?t ev')) \<and> fd (objs ?t ev') = f"
    proof (cases "f = getFd s ev")
      case True
      with e assms(3) have "ev' = ev" by simp
      moreover have "watched ctl ?t f = Some m" using True by (simp add: w)
      moreover have "fd (objs s ev) = f" using True by (simp add: getFd_def)
      ultimately show ?thesis by simp
    next
      case False
      with other [OF e] reg_invD(2,3) [OF assms(2) e] show ?thesis by (simp add: w)
    qed
  qed
qed

lemma enableEventReading_reg:
  assumes "epoll_laws ctl" and "reg_inv ctl s" and "events s (getFd s ev) \<in> {None, Some ev}"
  shows "reg_inv ctl (enableEventReading s ev b)"
  using assms(2,3) modify_reg [OF assms(1,2)]
  by (auto simp: enableEventReading_def Let_def getEvents_def)

lemma enableEventWriting_reg:
  assumes "epoll_laws ctl" and "reg_inv ctl s" and "events s (getFd s ev) \<in> {None, Some ev}"
  shows "reg_inv ctl (enableEventWriting s ev b)"
  using assms(2,3) modify_reg [OF assms(1,2)]
  by (auto simp: enableEventWriting_def Let_def getEvents_def)

lemma close_event_reg:
  assumes "epoll_laws ctl" and "reg_inv ctl s" and "\<forall>f. events s f \<noteq> Some ev"
    and "events s (getFd s ev) = None"
  shows "reg_inv ctl (close_event s ev)"
  using assms(2-4) reg_invD [OF assms(2)]
  by (auto simp: close_event_def Let_def epoll_lawsD(4) [OF assms(1)] getFd_def intro!: reg_invI
      split: if_splits)

lemma new_Event_frame [simp]:
  "timing (new_Event s ev f) = timing s" "queue (new_Event s ev f) = queue s"
  "ran (new_Event s ev f) = ran s" "owner (new_Event s ev f) = owner s"
  "unread (new_Event s ev f) = unread s" "pipe (new_Event s ev f) = pipe s"
  "epoll_events_size (new_Event s ev f) = epoll_events_size s"
  "events (new_Event s ev f) = events s"
  by (simp_all add: new_Event_def)

lemma new_Event_reg:
  assumes "reg_inv ctl s" and "\<forall>f. events s f \<noteq> Some ev"
  shows "reg_inv ctl (new_Event s ev f)"
  using assms(2) reg_invD [OF assms(1)]
  by (intro reg_invI) (auto simp: new_Event_def watched_def split: if_splits)

lemma setFd_reg:
  assumes "reg_inv ctl s" and "\<forall>f. events s f \<noteq> Some ev"
  shows "reg_inv ctl (setFd s ev f)"
  using assms(2) reg_invD [OF assms(1)]
  by (intro reg_invI) (auto simp: setFd_def watched_def split: if_splits)

lemma setFd_frame [simp]:
  "getFd (setFd s ev f) ev = f" "events (setFd s ev f) = events s" "owner (setFd s ev f) = owner s"
  "timing (setFd s ev f) = timing s" "watched ctl (setFd s ev f) = watched ctl s"
  by (simp_all add: setFd_def getFd_def watched_def)

lemma reg_inv_timing [simp]: "reg_inv ctl (l\<lparr>timing := tw\<rparr>) = reg_inv ctl l"
  by (simp add: reg_inv_def)

lemma getFd_timing [simp]: "getFd (l\<lparr>timing := tw\<rparr>) e = getFd l e"
  by (simp add: getFd_def)

subsection \<open>The write-interest interface\<close>

text \<open>
  What an object that queues output relies on: for a registered event it can switch on and
  off whether the kernel reports that its descriptor is writable, without disturbing others.
\<close>

locale write_interest =
  fixes inv :: "'s \<Rightarrow> bool"
    and registered :: "'s \<Rightarrow> 'e \<Rightarrow> bool"
    and wants_write :: "'s \<Rightarrow> 'e \<Rightarrow> bool"
    and set_writing :: "'s \<Rightarrow> 'e \<Rightarrow> bool \<Rightarrow> 's"
  assumes set_ok: "inv s \<Longrightarrow> registered s e \<Longrightarrow>
      inv (set_writing s e b) \<and> registered (set_writing s e b) e
        \<and> wants_write (set_writing s e b) e = b"
    and set_other: "inv s \<Longrightarrow> registered s e \<Longrightarrow> registered s e' \<Longrightarrow> e' \<noteq> e \<Longrightarrow>
      registered (set_writing s e b) e' \<and> wants_write (set_writing s e b) e' = wants_write s e'"
begin

lemma last_setting_wins:
  assumes "inv s" and "registered s e"
  shows "inv (foldl (\<lambda>s b. set_writing s e b) s bs) \<and> registered (foldl (\<lambda>s b. set_writing s e b) s bs) e
     \<and> wants_write (foldl (\<lambda>s b. set_writing s e b) s bs) e
         = (if bs = [] then wants_write s e else last bs)"
  using assms
proof (induction bs arbitrary: s)
  case Nil
  then show ?case by simp
next
  case (Cons b bs)
  note st = set_ok [OF Cons.prems, of b]
  with Cons.IH [of "set_writing s e b"] show ?case by auto
qed

lemma others_undisturbed:
  assumes "inv s" and "registered s e" and "registered s e'" and "e' \<noteq> e"
  shows "wants_write (foldl (\<lambda>s b. set_writing s e b) s bs) e' = wants_write s e'"
  using assms
proof (induction bs arbitrary: s)
  case Nil
  then show ?case by simp
next
  case (Cons b bs)
  note st = set_ok [OF Cons.prems(1,2), of b] and so = set_other [OF Cons.prems, of b]
  from Cons.IH [of "set_writing s e b"] st so Cons.prems(4) show ?case by simp
qed

end

text \<open>The event object is the one registered under its descriptor.\<close>

definition registered :: "event_loop \<Rightarrow> nat \<Rightarrow> bool" where
  "registered s ev \<longleftrightarrow> events s (getFd s ev) = Some ev"

lemma removeEvent_frame:
  "getFd (removeEvent l ev) e = getFd l e" "owner (removeEvent l ev) = owner l"
  "timing (removeEvent l ev) = timing l" "pipe (removeEvent l ev) = pipe l"
  "registered l ev \<Longrightarrow> events (removeEvent l ev) = (events l)(getFd l ev := None)"
  by (auto simp: removeEvent_def getFd_def registered_def split: option.splits)

text \<open>Removing and closing an event makes loop and kernel forget its descriptor, and no other.\<close>

lemma forget_event:
  assumes "epoll_laws ctl" and "reg_inv ctl l" and "registered l ev"
  defines "l' \<equiv> close_event (removeEvent l ev) ev"
  shows "reg_inv ctl l'" and "events l' = (events l)(getFd l ev := None)"
    and "getFd l' e = (if e = ev then -1 else getFd l e)" and "watched ctl l' (getFd l ev) = None"
    and "timing l' = timing l" and "owner l' = owner l" and "pipe l' = pipe l"
proof -
  let ?l = "removeEvent l ev"
  have e: "events ?l = (events l)(getFd l ev := None)" by (rule removeEvent_frame(5) [OF assms(3)])
  have "\<forall>f. events ?l f \<noteq> Some ev" using reg_invD(3) [OF assms(2)] e by (auto simp: getFd_def)
  then show r: "reg_inv ctl l'"
    unfolding l'_def using e
    by (intro close_event_reg [OF assms(1) removeEvent_reg [OF assms(1,2)]]) (simp_all add: removeEvent_frame)
  show e': "events l' = (events l)(getFd l ev := None)"
    using e by (simp add: l'_def close_event_def Let_def)
  show "getFd l' e = (if e = ev then -1 else getFd l e)"
    using removeEvent_frame(1) [of l ev] by (auto simp: l'_def close_event_def Let_def getFd_def)
  show "watched ctl l' (getFd l ev) = None" using reg_invD(1) [OF r] e' by simp
  show "timing l' = timing l" "owner l' = owner l" "pipe l' = pipe l"
    by (auto simp: l'_def close_event_def Let_def removeEvent_frame)
qed

text \<open>The kernel reports the event's descriptor when it is writable.\<close>

definition watches_write :: "(kernel \<Rightarrow> syscall \<Rightarrow> kernel) \<Rightarrow> event_loop \<Rightarrow> nat \<Rightarrow> bool" where
  "watches_write ctl s ev \<longleftrightarrow>
     (case watched ctl s (getFd s ev) of None \<Rightarrow> False | Some m \<Rightarrow> m AND EPOLLOUT \<noteq> 0)"

lemma write_bit: "(m OR EPOLLOUT) AND EPOLLOUT \<noteq> 0" "(m AND NOT EPOLLOUT) AND EPOLLOUT = 0"
proof -
  have "(m OR EPOLLOUT) AND EPOLLOUT = EPOLLOUT"
    by (rule bit_word_eqI) (auto simp: bit_simps)
  then show "(m OR EPOLLOUT) AND EPOLLOUT \<noteq> 0" by (simp add: epoll_consts)
  show "(m AND NOT EPOLLOUT) AND EPOLLOUT = 0"
    by (rule bit_word_eqI) (auto simp: bit_simps)
qed

lemma enableEventWriting_frame:
  "events (enableEventWriting s ev b) = events s" "getFd (enableEventWriting s ev b) e = getFd s e"
  "timing (enableEventWriting s ev b) = timing s" "owner (enableEventWriting s ev b) = owner s"
  "queue (enableEventWriting s ev b) = queue s"
  by (auto simp: enableEventWriting_def Let_def getFd_def split: option.splits)

interpretation loop_writes: write_interest "\<lambda>s. epoll_laws ctl \<and> reg_inv ctl s" registered
    "watches_write ctl" enableEventWriting for ctl
proof unfold_locales
  fix s ev b
  assume inv: "epoll_laws ctl \<and> reg_inv ctl s" and r: "registered s ev"
  let ?t = "enableEventWriting s ev b"
  have e: "events s (getFd s ev) = Some ev" using r by (simp add: registered_def)
  have i: "reg_inv ctl ?t" using inv e by (intro enableEventWriting_reg) auto
  have rt: "events ?t (getFd ?t ev) = Some ev"
    using e by (simp add: enableEventWriting_frame)
  have "watched ctl ?t (getFd ?t ev) = Some (events_mask (objs ?t ev))"
    using reg_invD(2) [OF i rt] .
  moreover have "events_mask (objs ?t ev)
      = (if b then getEvents s ev OR kEventWrite else getEvents s ev AND NOT kEventWrite)"
    using e by (simp add: enableEventWriting_def Let_def)
  ultimately have "watches_write ctl ?t ev = b"
    using write_bit [of "getEvents s ev"] by (simp add: watches_write_def kEventWrite_def)
  with inv i rt show "(epoll_laws ctl \<and> reg_inv ctl ?t) \<and> registered ?t ev \<and> watches_write ctl ?t ev = b"
    by (simp add: registered_def)
next
  fix s ev ev' b
  assume inv: "epoll_laws ctl \<and> reg_inv ctl s" and r: "registered s ev" "registered s ev'" "ev' \<noteq> ev"
  let ?t = "enableEventWriting s ev b"
  have e: "events s (getFd s ev) = Some ev" "events s (getFd s ev') = Some ev'"
    using r by (simp_all add: registered_def)
  have i: "reg_inv ctl ?t" using inv e by (intro enableEventWriting_reg) auto
  have rt: "events ?t (getFd ?t ev') = Some ev'" using e by (simp add: enableEventWriting_frame)
  have "watched ctl ?t (getFd ?t ev') = watched ctl s (getFd s ev')"
    using reg_invD(2) [OF i rt] reg_invD(2) [OF conjunct2 [OF inv] e(2)] r(3) e(1)
    by (simp add: enableEventWriting_def Let_def)
  with rt show "registered ?t ev' \<and> watches_write ctl ?t ev' = watches_write ctl s ev'"
    by (simp add: registered_def watches_write_def)
qed

subsection \<open>Rounds of the loop: lemmas\<close>

text \<open>Closures that the wheel can carry out: known entries and periods it covers.\<close>

fun task_ok :: "nat \<Rightarrow> task \<Rightarrow> bool" where
  "task_ok n (EveryTask i f) = valid_delay i"
| "task_ok n (InsertTask d e) = (eid e < n \<and> (\<forall>i f. payload e = Every i f \<longrightarrow> valid_delay i))"
| "task_ok n _ = True"

lemma task_ok_mono: "task_ok n f \<Longrightarrow> n \<le> m \<Longrightarrow> task_ok m f"
  by (cases f) auto

definition loop_ok :: "event_loop \<Rightarrow> bool" where
  "loop_ok s \<longleftrightarrow> tw_inv (timing s) \<and> (\<forall>f \<in> set (queue s). task_ok (next_id (timing s)) f)"

lemma runAfter_total:
  assumes "tw_inv s"
  shows "\<exists>s'. runAfter s d f = Some s' \<and> tw_inv s' \<and> next_id s \<le> next_id s'"
proof (cases "valid_delay d")
  case True
  show ?thesis using runAfter_valid [OF assms True, of f] by (auto simp: insertEntry_slots)
next
  case False
  let ?e = "Entry (next_id s) (Once f)"
  let ?s = "s\<lparr>next_id := Suc (next_id s)\<rparr>"
  have i: "insertEntry ?s d ?e = ?s"
    using False by (simp add: insertEntry_slots slots_Nil_iff [THEN iffD2])
  have "\<not> held s ?e" using fresh_entry(1) [OF assms, of ?e] by (simp add: held_iff)
  then have "runAfter s d f = fire ?s ?e" by (simp add: runAfter_def i release_def)
  moreover have "\<exists>s'. fire ?s ?e = Some s' \<and> tw_inv s' \<and> next_id ?s \<le> next_id s'"
    using fire_ok [OF alloc_inv [OF assms], of ?e] by auto
  ultimately show ?thesis by auto
qed

lemma runEvery_total:
  assumes "tw_inv s" and "valid_delay i"
  shows "\<exists>s'. runEvery s i f = Some s' \<and> tw_inv s' \<and> next_id s \<le> next_id s'"
proof -
  have "sized s" using assms(1) by (simp add: tw_inv_def)
  note r = runEvery_valid [OF this assms(2), of f]
  have "tw_inv (insertEntry (s\<lparr>next_id := Suc (next_id s)\<rparr>) i (Entry (next_id s) (Every i f)))"
    using assms(2) by (intro insertEntry_inv [OF alloc_inv [OF assms(1)]]) auto
  with r show ?thesis by simp
qed

lemma run_task_ok:
  assumes "tw_inv (timing s)" and "task_ok (next_id (timing s)) f"
  shows "\<exists>tw. run_task s f = Some (s\<lparr>timing := tw, ran := ran s @ [f]\<rparr>) \<and> tw_inv tw
     \<and> next_id (timing s) \<le> next_id tw"
proof (cases f)
  case (AfterTask d g)
  with runAfter_total [OF assms(1), of d g] show ?thesis by (auto simp: run_task_def)
next
  case (EveryTask i g)
  with runEvery_total [OF assms(1), of i g] assms(2) show ?thesis by (auto simp: run_task_def)
next
  case (InsertTask d e)
  let ?tw = "insertEntry (timing s) d e"
  have e: "eid e < next_id (timing s)" "\<And>i g. payload e = Every i g \<Longrightarrow> valid_delay i"
    using assms(2) InsertTask by simp_all
  have "tw_inv ?tw" by (rule insertEntry_inv [OF assms(1) e])
  then have "\<exists>tw. release ?tw e = Some tw \<and> tw_inv tw \<and> next_id (timing s) \<le> next_id tw"
    using fire_ok [of ?tw e] e by (cases "held ?tw e") (auto simp: release_def insertEntry_slots)
  then show ?thesis using InsertTask by (auto simp: run_task_def)
next
  case (UserTask n)
  then show ?thesis using assms by (intro exI [of _ "timing s"]) (simp add: run_task_def)
qed

lemma run_tasks_ok:
  assumes "tw_inv (timing s)" and "\<forall>f \<in> set fs. task_ok (next_id (timing s)) f"
  shows "\<exists>tw. run_tasks s fs = Some (s\<lparr>timing := tw, ran := ran s @ fs, queue := drop (length fs) (queue s)\<rparr>)
     \<and> tw_inv tw \<and> next_id (timing s) \<le> next_id tw"
  using assms
proof (induction fs arbitrary: s)
  case Nil
  then show ?case by (intro exI [of _ "timing s"]) simp
next
  case (Cons f fs)
  obtain tw where tw: "run_task s f = Some (s\<lparr>timing := tw, ran := ran s @ [f]\<rparr>)" "tw_inv tw"
      "next_id (timing s) \<le> next_id tw"
    using run_task_ok [OF Cons.prems(1), of f] Cons.prems(2) by auto
  let ?s1 = "s\<lparr>timing := tw, ran := ran s @ [f], queue := tl (queue s)\<rparr>"
  have "\<forall>f \<in> set fs. task_ok (next_id (timing ?s1)) f"
    using Cons.prems(2) tw(3) task_ok_mono by auto
  with Cons.IH [of ?s1] tw(2) obtain tw' where
    "run_tasks ?s1 fs = Some (?s1\<lparr>timing := tw', ran := ran ?s1 @ fs,
        queue := drop (length fs) (queue ?s1)\<rparr>)" "tw_inv tw'" "next_id tw \<le> next_id tw'" by auto
  with tw show ?case
    by (intro exI [of _ tw']) (simp add: drop_Suc)
qed

lemma runFunctions_ok:
  assumes "loop_ok s"
  shows "\<exists>tw. runFunctions s = Some (s\<lparr>timing := tw, ran := ran s @ queue s, queue := []\<rparr>)
     \<and> tw_inv tw \<and> next_id (timing s) \<le> next_id tw"
  using assms run_tasks_ok [of s "queue s"] by (simp add: runFunctions_def loop_ok_def)

lemma onTimer_total:
  assumes "tw_inv tw"
  shows "\<exists>tw'. onTimer tw now = Some tw' \<and> tw_inv tw'"
proof -
  have i: "tw_inv (tw\<lparr>last_ts := n\<rparr>)" for n
    using assms by (simp add: tw_inv_def distinct_slots_def)
  with advance_ok [OF i [of now]] assms show ?thesis
    by (auto simp: onTimer_def Let_def evolves_def)
qed

text \<open>A handler that always returns and keeps the loop well-formed.\<close>

definition handler_ok :: "handler \<Rightarrow> bool" where
  "handler_ok h \<longleftrightarrow> (\<forall>ev cb s. loop_ok s \<longrightarrow> (\<exists>s'. h ev cb s = Some s' \<and> loop_ok s'))"

lemma dispatch_all_ok:
  assumes "handler_ok h" and "loop_ok s"
  shows "\<exists>s'. dispatch_all h s ready = Some s' \<and> loop_ok s'"
  using assms(2)
proof (induction ready arbitrary: s)
  case Nil
  then show ?case by simp
next
  case (Cons x ready)
  obtain f m where x: "x = (f, m)" by (cases x)
  have "\<exists>s1. (case events s f of None \<Rightarrow> Some s
      | Some ev \<Rightarrow> (case which_callback m of None \<Rightarrow> Some s | Some cb \<Rightarrow> h ev cb s)) = Some s1
      \<and> loop_ok s1"
    using Cons.prems assms(1) by (auto simp: handler_ok_def split: option.splits)
  with Cons.IH x show ?case by auto
qed

lemma loop_once_ok:
  assumes "handler_ok h" and "loop_ok s"
  shows "\<exists>s'. loop_once h waited now s = Some s' \<and> loop_ok s' \<and> (waited \<noteq> None \<longrightarrow> queue s' = [])"
proof (cases waited)
  case None
  with assms show ?thesis by (simp add: loop_once_def)
next
  case (Some ready)
  obtain s1 where s1: "dispatch_all h s ready = Some s1" "loop_ok s1"
    using dispatch_all_ok [OF assms] by blast
  let ?s2 = "if length ready = epoll_events_size s1
    then s1\<lparr>epoll_events_size := epoll_events_size s1 * 2\<rparr> else s1"
  have "loop_ok ?s2" using s1(2) by (simp add: loop_ok_def)
  from runFunctions_ok [OF this] obtain s3 where s3: "runFunctions ?s2 = Some s3"
      "tw_inv (timing s3)" "queue s3 = []" by auto
  obtain tw where tw: "onTimer (timing s3) now = Some tw" "tw_inv tw"
    using onTimer_total [OF s3(2)] by blast
  show ?thesis
    using Some s1(1) s3 tw by (simp add: loop_once_def Let_def loop_ok_def)
qed

subsection \<open>Registration histories\<close>

datatype reg_op =
    NewEvent nat int
  | AddEvent nat
  | RemoveEvent nat
  | EnableReading nat bool
  | EnableWriting nat bool
  | CloseEvent nat

fun reg_apply :: "event_loop \<Rightarrow> reg_op \<Rightarrow> event_loop" where
  "reg_apply s (NewEvent ev f) = new_Event s ev f"
| "reg_apply s (AddEvent ev) = addEvent s ev"
| "reg_apply s (RemoveEvent ev) = removeEvent s ev"
| "reg_apply s (EnableReading ev b) = enableEventReading s ev b"
| "reg_apply s (EnableWriting ev b) = enableEventWriting s ev b"
| "reg_apply s (CloseEvent ev) = close_event s ev"

text \<open>
  What the callers must respect: an object is constructed, registered and closed only while
  it is not registered; it is constructed with no descriptor, or with an open one that no other object
  holds, and registered only with a descriptor; and an operation on a descriptor is asked for by its own object.
\<close>

fun reg_legal :: "event_loop \<Rightarrow> reg_op \<Rightarrow> bool" where
  "reg_legal s (NewEvent ev f) =
     ((\<forall>g. events s g \<noteq> Some ev) \<and> (f = -1 \<or> 0 \<le> f \<and> (\<forall>e. getFd s e \<noteq> f)))"
| "reg_legal s (AddEvent ev) = ((\<forall>g. events s g \<noteq> Some ev) \<and> 0 \<le> getFd s ev)"
| "reg_legal s (RemoveEvent ev) = True"
| "reg_legal s (EnableReading ev b) = (events s (getFd s ev) \<in> {None, Some ev})"
| "reg_legal s (EnableWriting ev b) = (events s (getFd s ev) \<in> {None, Some ev})"
| "reg_legal s (CloseEvent ev) = ((\<forall>g. events s g \<noteq> Some ev) \<and> events s (getFd s ev) = None)"

inductive reg_reachable :: "event_loop \<Rightarrow> bool" where
  init: "new_EventLoop t False epfd = Some s \<Longrightarrow> reg_reachable s"
| step: "reg_reachable s \<Longrightarrow> reg_legal s r \<Longrightarrow> reg_reachable (reg_apply s r)"

inductive_cases reg_reachableE: "reg_reachable s"

lemma new_EventLoop_reg: "new_EventLoop t b epfd = Some s \<Longrightarrow> reg_inv ctl s"
  by (auto simp: new_EventLoop_def reg_inv_def watched_def split: if_splits)

lemma reg_apply_inv:
  assumes "epoll_laws ctl" and "reg_inv ctl s" and "reg_legal s r"
  shows "reg_inv ctl (reg_apply s r)"
  using assms
  by (cases r) (simp_all add: addEvent_reg removeEvent_reg enableEventReading_reg
      enableEventWriting_reg close_event_reg new_Event_reg)

lemma reg_reachable_inv: "reg_reachable s \<Longrightarrow> epoll_laws ctl \<Longrightarrow> reg_inv ctl s"
  by (induction rule: reg_reachable.induct) (auto intro: new_EventLoop_reg reg_apply_inv)

text \<open>A kernel that behaves as documented, and ignores the calls it refuses, such as adding -1.\<close>

fun sample_ctl :: "kernel \<Rightarrow> syscall \<Rightarrow> kernel" where
  "sample_ctl k (EPOLL_CTL_ADD f m) = (if 0 \<le> f \<and> k f = None then k(f \<mapsto> m) else k)"
| "sample_ctl k (EPOLL_CTL_MOD f m) = (if k f = None then k else k(f \<mapsto> m))"
| "sample_ctl k (EPOLL_CTL_DEL f) = k(f := None)"
| "sample_ctl k (Close f) = k(f := None)"
| "sample_ctl k (PipeWrite n) = k"

lemma sample_ctl_laws: "epoll_laws sample_ctl"
  by (auto simp: epoll_laws_def)

definition sample_loop :: event_loop where
  "sample_loop = the (new_EventLoop 1 False 3)"

lemma sample_loop: "new_EventLoop 1 False 3 = Some sample_loop" "owner sample_loop = 1"
    "queue sample_loop = []" "pipe sample_loop = None" "timing sample_loop = new_TimingWheel"
    "events sample_loop = Map.empty" "epoll_events_size sample_loop = 1024"
    "ran sample_loop = []" "reg_inv sample_ctl sample_loop"
  by (simp_all add: sample_loop_def new_EventLoop_def reg_inv_def watched_def)

lemma sample_loop_fd [simp]: "getFd sample_loop e = -1"
  by (simp add: sample_loop_def new_EventLoop_def getFd_def)

lemma getFd_new_Event [simp]: "getFd (new_Event s ev f) e = (if e = ev then f else getFd s e)"
  by (simp add: getFd_def new_Event_def)

subsection \<open>Properties\<close>

text \<open>
  C11. The kernel watches exactly what is registered: after any history of constructing,
  adding, removing, enabling and closing events in which the callers respect the ownership
  rules and add no event without a descriptor, the epoll set maps every descriptor to the mask
  its registered event holds, and nothing else is watched.
\<close>

theorem registry_matches_kernel:
  assumes "epoll_laws ctl" and "reg_reachable s"
  shows "watched ctl s f = map_option (\<lambda>ev. events_mask (objs s ev)) (events s f)
     \<and> (\<forall>ev. events s f = Some ev \<longrightarrow> getFd s ev = f)"
  using reg_reachable_inv [OF assms(2,1)] by (simp add: reg_inv_def getFd_def)

theorem registry_matches_kernel_witness:
  "watched sample_ctl
     (reg_apply (reg_apply (reg_apply sample_loop (NewEvent 0 5)) (AddEvent 0)) (EnableWriting 0 True))
     5 = Some 7"
proof -
  have "reg_reachable sample_loop" by (rule reg_reachable.init [OF sample_loop(1)])
  then have "reg_reachable (reg_apply sample_loop (NewEvent 0 5))"
    by (rule reg_reachable.step) (simp add: sample_loop)
  then have "reg_reachable (reg_apply (reg_apply sample_loop (NewEvent 0 5)) (AddEvent 0))"
    by (rule reg_reachable.step) (simp add: sample_loop)
  then have r: "reg_reachable (reg_apply (reg_apply (reg_apply sample_loop (NewEvent 0 5)) (AddEvent 0))
      (EnableWriting 0 True))"
    by (rule reg_reachable.step) (simp add: sample_loop new_Event_def addEvent_def getFd_def Let_def)
  show ?thesis
    using registry_matches_kernel [OF sample_ctl_laws r, of 5]
    by (simp add: sample_loop new_Event_def addEvent_def enableEventWriting_def getFd_def
        getEvents_def Let_def kEventRead_def kEventWrite_def epoll_consts)
qed

text \<open>
  When \<open>pipe()\<close> fails, the \<open>PipeEvent\<close> keeps the descriptor -1. The loop puts it into its table and keeps it for
  good, although the kernel refuses it: nothing wakes the loop any more, and no later wake-up tries again.
\<close>

lemma failed_pipe_never_wakes:
  fixes ev :: nat
  assumes "epoll_laws ctl" and "reg_inv ctl s" and "pipe s = None" and "events s (-1) = None"
  defines "s1 \<equiv> weakup s ev (-1)"
  shows "events s1 (-1) = Some ev \<and> watched ctl s1 = watched ctl s \<and> pipe s1 = Some ev"
    and "watched ctl (weakup s1 ev' rfd) = watched ctl s \<and> events (weakup s1 ev' rfd) = events s1"
proof -
  have "watched ctl (new_Event (s\<lparr>pipe := Some ev\<rparr>) ev (-1)) = watched ctl s" by simp
  then show s1: "events s1 (-1) = Some ev \<and> watched ctl s1 = watched ctl s \<and> pipe s1 = Some ev"
    using assms(3,4) epoll_lawsD(5,6) [OF assms(1)]
    by (simp add: s1_def weakup_def addEvent_def Let_def)
  then show "watched ctl (weakup s1 ev' rfd) = watched ctl s \<and> events (weakup s1 ev' rfd) = events s1"
    using epoll_lawsD(5) [OF assms(1)] by (simp add: weakup_def Let_def)
qed

text \<open>
  An event that is closed without having been removed blocks its descriptor: when the
  kernel reuses the number for a new object, registering that object does nothing, so its
  descriptor is not watched, and the loop still maps the number to the dead object.
\<close>

lemma close_without_remove_blocks_reuse:
  fixes ev' :: nat
  assumes "epoll_laws ctl" and "reg_reachable s" and "events s f = Some ev" and "f \<noteq> -1"
  defines "s' \<equiv> addEvent (new_Event (close_event s ev) ev' f) ev'"
  shows "watched ctl s' f = None \<and> events s' f = Some ev"
proof -
  have "fd (objs s ev) = f"
    using reg_reachable_inv [OF assms(2,1)] assms(3) by (simp add: reg_inv_def)
  with assms(3,4) have c: "close_event s ev
      = (syscall s (Close f))\<lparr>objs := (objs s)(ev := (objs s ev)\<lparr>fd := -1\<rparr>)\<rparr>"
    by (simp add: close_event_def getFd_def Let_def)
  have "events (new_Event (close_event s ev) ev' f) f = Some ev"
    using assms(3) by (simp add: c new_Event_def)
  then have "s' = new_Event (close_event s ev) ev' f"
    by (simp add: s'_def addEvent_def getFd_def new_Event_def)
  with assms(1,3) show ?thesis
    by (simp add: c epoll_lawsD(4))
qed

lemma close_without_remove_blocks_reuse_witness:
  "watched sample_ctl (addEvent (new_Event (close_event
      (reg_apply (reg_apply sample_loop (NewEvent 0 5)) (AddEvent 0)) 0) 1 5) 1) 5 = None"
proof -
  have "reg_reachable sample_loop" by (rule reg_reachable.init [OF sample_loop(1)])
  then have "reg_reachable (reg_apply sample_loop (NewEvent 0 5))"
    by (rule reg_reachable.step) (simp add: sample_loop)
  then have r: "reg_reachable (reg_apply (reg_apply sample_loop (NewEvent 0 5)) (AddEvent 0))"
    by (rule reg_reachable.step) (simp add: sample_loop)
  have "events (reg_apply (reg_apply sample_loop (NewEvent 0 5)) (AddEvent 0)) 5 = Some 0"
    by (simp add: sample_loop new_Event_def addEvent_def getFd_def Let_def)
  from close_without_remove_blocks_reuse [OF sample_ctl_laws r this] show ?thesis by simp
qed

text \<open>Closures handed over by other threads: the thread, what a first wake-up allocates, the closure.\<close>

fun submit_all :: "event_loop \<Rightarrow> (nat \<times> (nat \<times> int) \<times> task) list \<Rightarrow> event_loop option" where
  "submit_all s [] = Some s"
| "submit_all s ((t, fresh, f) # xs) = do { s1 \<leftarrow> runInLoop s t fresh f; submit_all s1 xs }"

lemma addEvent_frame [simp]:
  "timing (addEvent s ev) = timing s" "queue (addEvent s ev) = queue s"
  "ran (addEvent s ev) = ran s" "owner (addEvent s ev) = owner s"
  "unread (addEvent s ev) = unread s" "pipe (addEvent s ev) = pipe s"
  "epoll_events_size (addEvent s ev) = epoll_events_size s"
  by (auto simp: addEvent_def Let_def setEvents_def syscall_def split: option.splits)

lemma weakup_frame [simp]:
  "timing (weakup s ev f) = timing s" "queue (weakup s ev f) = queue s"
  "ran (weakup s ev f) = ran s" "owner (weakup s ev f) = owner s"
  "unread (weakup s ev f) = Suc (unread s)" "epoll_events_size (weakup s ev f) = epoll_events_size s"
  by (auto simp: weakup_def Let_def syscall_def split: option.splits)

lemma submit_all_ok:
  assumes "\<forall>(t, fresh, f) \<in> set xs. t \<noteq> owner s"
  shows "\<exists>s1. submit_all s xs = Some s1 \<and> queue s1 = queue s @ map (\<lambda>(t, fresh, f). f) xs
     \<and> unread s1 = unread s + length xs \<and> timing s1 = timing s \<and> ran s1 = ran s
     \<and> epoll_events_size s1 = epoll_events_size s"
  using assms
proof (induction xs arbitrary: s)
  case Nil
  then show ?case by simp
next
  case (Cons x xs)
  obtain t ev rfd f where x: "x = (t, (ev, rfd), f)" by (metis prod.exhaust)
  let ?s = "weakup (s\<lparr>queue := queue s @ [f]\<rparr>) ev rfd"
  have "runInLoop s t (ev, rfd) f = Some ?s"
    using Cons.prems x by (simp add: runInLoop_def isInLoopThread_def)
  with Cons.IH [of ?s] Cons.prems x show ?case by auto
qed

text \<open>
  The loop's own pipe among the handlers: its \<open>onRead\<close> takes a word out, its other handlers do nothing.
\<close>

definition with_pipe :: "handler \<Rightarrow> handler" where
  "with_pipe h ev cb s =
     (if pipe s = Some ev then Some (if cb = OnRead then pipe_onRead s else s) else h ev cb s)"

text \<open>A handler takes nothing off the queue; it may run closures at once, and others may be queued meanwhile.\<close>

definition handler_queues :: "handler \<Rightarrow> bool" where
  "handler_queues h \<longleftrightarrow> (\<forall>ev cb s s'. h ev cb s = Some s' \<longrightarrow>
     (\<exists>zs qs. ran s' = ran s @ zs \<and> queue s' = queue s @ qs))"

lemma with_pipe_ok: "handler_ok h \<Longrightarrow> handler_ok (with_pipe h)"
  by (auto simp: handler_ok_def with_pipe_def loop_ok_def pipe_onRead_def)

lemma with_pipe_queues: "handler_queues h \<Longrightarrow> handler_queues (with_pipe h)"
  by (auto simp: handler_queues_def with_pipe_def pipe_onRead_def)

lemma dispatch_all_queues:
  "handler_queues h \<Longrightarrow> dispatch_all h s ready = Some s' \<Longrightarrow> \<exists>zs qs. ran s' = ran s @ zs \<and> queue s' = queue s @ qs"
proof (induction ready arbitrary: s)
  case (Cons x ready)
  obtain f m where x: "x = (f, m)" by (cases x)
  obtain s1 where s1: "(case events s f of None \<Rightarrow> Some s
      | Some ev \<Rightarrow> (case which_callback m of None \<Rightarrow> Some s | Some cb \<Rightarrow> h ev cb s)) = Some s1"
      "dispatch_all h s1 ready = Some s'"
    using Cons.prems(2) by (auto simp: x split: bind_splits)
  have "\<exists>zs qs. ran s1 = ran s @ zs \<and> queue s1 = queue s @ qs"
    using s1(1) Cons.prems(1) by (auto simp: handler_queues_def split: option.splits)
  with Cons.IH [OF Cons.prems(1) s1(2)] show ?case by force
qed auto

lemma pipe_readable: "which_callback EPOLLIN = Some OnRead"
  by (simp add: which_callback_def epoll_consts)



text \<open>
  The words pile up: a round takes one out of the pipe, however many there are. While every round finds \<open>k\<close> closures from other
  threads, \<open>n\<close> rounds leave \<open>n * (k - 1)\<close> more words in it. A real pipe is full some time; the thread
  that writes then waits with the mutex of the queue held, for which the loop waits as well.
\<close>

fun busy_rounds :: "handler \<Rightarrow> (nat \<times> (nat \<times> int) \<times> task) list \<Rightarrow> nat \<Rightarrow> event_loop \<Rightarrow> event_loop option" where
  "busy_rounds h xs 0 s = Some s"
| "busy_rounds h xs (Suc n) s = do {
     s1 \<leftarrow> submit_all s xs;
     s2 \<leftarrow> loop_once (with_pipe h) (Some [(getFd s1 (the (pipe s1)), EPOLLIN)]) 0 s1;
     busy_rounds h xs n s2
   }"

lemma submit_all_pipe:
  assumes "pipe s = Some p" and "\<forall>(t, fresh, f) \<in> set xs. t \<noteq> owner s"
  shows "\<exists>s1. submit_all s xs = Some s1 \<and> pipe s1 = Some p \<and> events s1 = events s \<and> objs s1 = objs s
     \<and> owner s1 = owner s \<and> timing s1 = timing s \<and> unread s1 = unread s + length xs
     \<and> queue s1 = queue s @ map (\<lambda>(t, fresh, f). f) xs"
  using assms
proof (induction xs arbitrary: s)
  case Nil
  then show ?case by simp
next
  case (Cons x xs)
  obtain t ev rfd f where x: "x = (t, (ev, rfd), f)" by (metis prod.exhaust)
  let ?s = "weakup (s\<lparr>queue := queue s @ [f]\<rparr>) ev rfd"
  have w: "?s = syscall (s\<lparr>queue := queue s @ [f], unread := Suc (unread s)\<rparr>) (PipeWrite 1)"
    using Cons.prems(1) by (simp add: weakup_def)
  have "runInLoop s t (ev, rfd) f = Some ?s"
    using Cons.prems x by (simp add: runInLoop_def isInLoopThread_def)
  moreover have "\<forall>(t, fresh, f) \<in> set xs. t \<noteq> owner ?s" "pipe ?s = Some p" using Cons.prems by (auto simp: w)
  ultimately show ?case using Cons.IH [of ?s] x by (auto simp: w)
qed

lemma busy_round:
  assumes "pipe s = Some p" and "registered s p" and "loop_ok s" and "xs \<noteq> []"
    and "\<forall>(t, fresh, f) \<in> set xs. t \<noteq> owner s \<and> (\<exists>m. f = UserTask m)"
  shows "\<exists>s1 s2. submit_all s xs = Some s1
     \<and> loop_once (with_pipe h) (Some [(getFd s1 (the (pipe s1)), EPOLLIN)]) 0 s1 = Some s2
     \<and> pipe s2 = Some p \<and> registered s2 p \<and> loop_ok s2 \<and> owner s2 = owner s \<and> unread s2 = unread s + (length xs - 1)"
proof -
  obtain s1 where s1: "submit_all s xs = Some s1" "pipe s1 = Some p" "events s1 = events s" "objs s1 = objs s"
      "owner s1 = owner s" "timing s1 = timing s" "unread s1 = unread s + length xs"
      "queue s1 = queue s @ map (\<lambda>(t, fresh, f). f) xs"
    using submit_all_pipe [OF assms(1), of xs] assms(5) by auto
  have reg: "events s1 (getFd s1 p) = Some p" using assms(2) s1(3,4) by (simp add: registered_def getFd_def)
  define sg where "sg = (if Suc 0 = epoll_events_size (pipe_onRead s1)
    then (pipe_onRead s1)\<lparr>epoll_events_size := epoll_events_size (pipe_onRead s1) * 2\<rparr> else pipe_onRead s1)"
  have ok: "loop_ok sg"
    using assms(3,5) s1(6,8) by (auto simp: sg_def loop_ok_def pipe_onRead_def)
  obtain tw where r: "runFunctions sg = Some (sg\<lparr>timing := tw, ran := ran sg @ queue sg, queue := []\<rparr>)" "tw_inv tw"
    using runFunctions_ok [OF ok] by blast
  obtain tw' where tw': "onTimer tw 0 = Some tw'" "tw_inv tw'" using onTimer_total [OF r(2)] by blast
  let ?s2 = "sg\<lparr>timing := tw', ran := ran sg @ queue sg, queue := []\<rparr>"
  have "dispatch_all (with_pipe h) s1 [(getFd s1 p, EPOLLIN)] = Some (pipe_onRead s1)"
    using reg s1(2) by (simp add: pipe_readable with_pipe_def)
  then have "loop_once (with_pipe h) (Some [(getFd s1 (the (pipe s1)), EPOLLIN)]) 0 s1 = Some ?s2"
    using r(1) tw'(1) s1(2) by (simp add: loop_once_def Let_def sg_def [symmetric])
  moreover have "pipe ?s2 = Some p" "registered ?s2 p" "loop_ok ?s2" "owner ?s2 = owner s"
      "unread ?s2 = unread s + (length xs - 1)"
    using assms(2,4) s1(2-5,7) tw'(2) by (simp_all add: sg_def loop_ok_def registered_def getFd_def pipe_onRead_def) (cases xs; simp)
  ultimately show ?thesis using s1(1) by blast
qed

lemma wakeups_pile_up:
  assumes "pipe s = Some p" and "registered s p" and "loop_ok s" and "xs \<noteq> []"
    and "\<forall>(t, fresh, f) \<in> set xs. t \<noteq> owner s \<and> (\<exists>m. f = UserTask m)"
  shows "\<exists>s'. busy_rounds h xs n s = Some s' \<and> unread s' = unread s + n * (length xs - 1)"
  using assms(1-3,5)
proof (induction n arbitrary: s)
  case 0
  then show ?case by simp
next
  case (Suc n)
  obtain s1 s2 where s: "submit_all s xs = Some s1"
      "loop_once (with_pipe h) (Some [(getFd s1 (the (pipe s1)), EPOLLIN)]) 0 s1 = Some s2"
      "pipe s2 = Some p" "registered s2 p" "loop_ok s2" "owner s2 = owner s" "unread s2 = unread s + (length xs - 1)"
    using busy_round [OF Suc.prems(1-3) assms(4) Suc.prems(4)] by blast
  from Suc.IH [OF s(3-5)] Suc.prems(4) s(6,7) obtain s' where
    "busy_rounds h xs n s2 = Some s'" "unread s' = unread s + (length xs - 1) + n * (length xs - 1)" by auto
  then show ?case using s(1,2) by simp
qed

text \<open>
  A hand-over wakes the loop: after a closure was queued from another thread the pipe's
  read end is registered, the kernel watches it for input, and there is something to read,
  so the level-triggered \<open>epoll_wait\<close> returns.
\<close>

lemma submission_wakes_loop:
  assumes "epoll_laws ctl" and "reg_inv ctl s" and "t \<noteq> owner s"
    and "case pipe s of None \<Rightarrow> 0 \<le> rfd \<and> events s rfd = None \<and> (\<forall>g. events s g \<noteq> Some ev)
         | Some p \<Rightarrow> registered s p \<and> getEvents s p = kEventRead"
  shows "\<exists>s1 p. runInLoop s t (ev, rfd) f = Some s1 \<and> pipe s1 = Some p \<and> registered s1 p
     \<and> watched ctl s1 (getFd s1 p) = Some kEventRead \<and> 0 < unread s1 \<and> reg_inv ctl s1"
proof -
  let ?q = "s\<lparr>queue := queue s @ [f]\<rparr>"
  have run: "runInLoop s t (ev, rfd) f = Some (weakup ?q ev rfd)"
    using assms(3) by (simp add: runInLoop_def isInLoopThread_def)
  have iq: "reg_inv ctl ?q" using assms(2) by (simp add: reg_inv_def)
  let ?p = "case pipe s of None \<Rightarrow> ev | Some p \<Rightarrow> p"
  let ?s1 = "case pipe s of Some _ \<Rightarrow> ?q | None \<Rightarrow> addEvent (new_Event (?q\<lparr>pipe := Some ev\<rparr>) ev rfd) ev"
  have s1: "reg_inv ctl ?s1 \<and> pipe ?s1 = Some ?p \<and> registered ?s1 ?p \<and> getEvents ?s1 ?p = kEventRead"
  proof (cases "pipe s")
    case None
    let ?n = "new_Event (?q\<lparr>pipe := Some ev\<rparr>) ev rfd"
    have "reg_inv ctl (?q\<lparr>pipe := Some ev\<rparr>)" using iq by (simp add: reg_inv_def)
    then have "reg_inv ctl (addEvent ?n ev)"
      using assms(4) None by (intro addEvent_reg [OF assms(1)] new_Event_reg) (auto simp: getFd_def new_Event_def)
    moreover have "fd (objs ?n ev) = rfd" by (simp add: new_Event_def)
    ultimately show ?thesis
      using None assms(4) by (simp add: addEvent_def getFd_def getEvents_def registered_def Let_def)
  next
    case (Some p)
    with iq assms(4) show ?thesis by (simp add: registered_def getFd_def getEvents_def)
  qed
  let ?s2 = "weakup ?q ev rfd"
  have w: "?s2 = syscall (?s1\<lparr>unread := Suc (unread ?s1)\<rparr>) (PipeWrite 1)"
    by (simp add: weakup_def Let_def split: option.splits)
  have reg: "registered ?s2 ?p" "pipe ?s2 = Some ?p" and i2: "reg_inv ctl ?s2"
    and ge: "getEvents ?s2 ?p = kEventRead"
    using s1 epoll_lawsD(5) [OF assms(1)] unfolding w
    by (simp_all add: registered_def getFd_def getEvents_def reg_inv_def)
  have "watched ctl ?s2 (getFd ?s2 ?p) = Some kEventRead"
    using reg_invD(2) [OF i2] reg ge by (simp add: registered_def getEvents_def)
  with run reg i2 show ?thesis by auto
qed

lemma submission_wakes_loop_witness:
  "\<exists>s1. runInLoop sample_loop 2 (0, 5) (UserTask 1) = Some s1 \<and> pipe s1 \<noteq> None \<and> 0 < unread s1"
  using submission_wakes_loop [OF sample_ctl_laws sample_loop(9), of 2 5 0 "UserTask 1"]
  by (auto simp: sample_loop)

text \<open>
  The same call of \<open>runEvery\<close> means two things: made in the loop's own thread it sets up
  a timer that fires once and never again, made in another thread (and carried out by the
  loop) a periodic one.
\<close>

lemma runEvery_depends_on_thread:
  assumes "tw_inv (timing s)" and "queue s = []" and "0 < i" and "i < 60"
    and "t \<noteq> owner s" and "\<forall>e. held (timing s) e \<longrightarrow> payload e \<noteq> Every (int i) f"
  shows "\<exists>s1 s2 s3. loop_runEvery s (owner s) fresh (int i) f = Some s1
     \<and> (\<forall>n. \<exists>tw. iterate advance n (timing s1) = Some tw
            \<and> count_list (fired tw) (Entry (next_id (timing s)) (Once f)) = (if i \<le> n then 1 else 0))
     \<and> loop_runEvery s t fresh (int i) f = Some s2 \<and> runFunctions s2 = Some s3
     \<and> (\<forall>n. \<exists>tw. iterate advance n (timing s3) = Some tw
            \<and> runs (Every (int i) f) tw = runs (Every (int i) f) (timing s) + n div i)"
proof -
  obtain tw1 where tw1: "runAfter (timing s) (int i) f = Some tw1"
      "\<forall>n. \<exists>tw. iterate advance n tw1 = Some tw
         \<and> count_list (fired tw) (Entry (next_id (timing s)) (Once f)) = (if i \<le> n then 1 else 0)"
    using short_timer [OF assms(1), of "int i" f] assms(3,4) by auto
  obtain tw3 where tw3: "runEvery (timing s) (int i) f = Some tw3"
      "\<forall>n. \<exists>tw. iterate advance n tw3 = Some tw
         \<and> runs (Every (int i) f) tw = runs (Every (int i) f) (timing s) + n div i"
    using periodic_timer [OF assms(1,3,4,6)] by blast
  let ?s2 = "weakup (s\<lparr>queue := [EveryTask (int i) f]\<rparr>) (fst fresh) (snd fresh)"
  have own: "loop_runEvery s (owner s) fresh (int i) f = Some (s\<lparr>timing := tw1\<rparr>)"
    using tw1(1) assms(1) by (simp add: loop_runEvery_def isInLoopThread_def)
  have other: "loop_runEvery s t fresh (int i) f = Some ?s2"
    using assms(2,5) by (simp add: loop_runEvery_def isInLoopThread_def runInLoop_def)
  have run: "\<exists>s3. runFunctions ?s2 = Some s3 \<and> timing s3 = tw3"
    using tw3(1) assms(1) by (simp add: runFunctions_def run_task_def)
  from run obtain s3 where s3: "runFunctions ?s2 = Some s3" "timing s3 = tw3" by blast
  show ?thesis
    by (rule exI [of _ "s\<lparr>timing := tw1\<rparr>"], rule exI [of _ ?s2], rule exI [of _ s3])
      (use own other s3 tw1(2) tw3(2) in simp)
qed

lemma runEvery_depends_on_thread_witness:
  "\<exists>s1. loop_runEvery sample_loop 1 (0, 5) 10 7 = Some s1
     \<and> (\<exists>tw. iterate advance 40 (timing s1) = Some tw
          \<and> count_list (fired tw) (Entry 0 (Once 7)) = 1)"
proof -
  have i: "tw_inv (timing sample_loop)" "\<forall>e. held (timing sample_loop) e \<longrightarrow> payload e \<noteq> Every (int 10) 7"
      "2 \<noteq> owner sample_loop"
    using new_TimingWheel_inv by (simp_all add: sample_loop held_iff)
  obtain s1 where s1: "loop_runEvery sample_loop (owner sample_loop) (0, 5) (int 10) 7 = Some s1"
      "\<forall>n. \<exists>tw. iterate advance n (timing s1) = Some tw
         \<and> count_list (fired tw) (Entry (next_id (timing sample_loop)) (Once 7)) = (if 10 \<le> n then 1 else 0)"
    using runEvery_depends_on_thread [OF i(1) sample_loop(3) _ _ i(3,2), of "(0, 5)"] by fastforce
  have "next_id (timing sample_loop) = 0" by (simp add: sample_loop new_TimingWheel_def)
  with s1 spec [OF s1(2), of 40] show ?thesis by (simp add: sample_loop)
qed



end
