(* ===== verification/TcpConnection.thy ===== *)
theory TcpConnection
  imports MsgBuffer EventLoop
begin

unbundle bit_operations_syntax

text \<open>
  A TCP connection of \<open>src/network/net/TcpConnection.h\<close> and \<open>TcpConnection.cpp\<close> together
  with the loop it lives in and, for a connection of a server, the close callback of
  \<open>src/network/TcpServer.cpp\<close>. Addresses and lengths are 64-bit words, because the code
  keeps the results of \<open>write\<close> and \<open>writev\<close> in a \<open>size_t\<close>. What the kernel answers is a
  script: the results of the writes, and what the reads deliver; when a script is used up
  the descriptor would block. User callbacks are logged. The errors are a call from the
  wrong thread (the code exits), an assertion of the buffer, touching an object after
  its last reference is gone, and a timing wheel that does not return.
\<close>

subsection \<open>State\<close>

datatype conn_error = WrongThread | BufferAbort | UseAfterFree | Diverges

type_synonym addr = u64

record iovec =
  iov_base :: addr
  iov_len :: u64

text \<open>The result of a write: that many bytes, at most what was offered, or an error number.\<close>

datatype io_result = Wrote nat | Failed int

definition EINTR :: int where "EINTR = 4"
definition EAGAIN :: int where "EAGAIN = 11"
definition EWOULDBLOCK :: int where "EWOULDBLOCK = 11"

lemmas errno_consts = EINTR_def EAGAIN_def EWOULDBLOCK_def

definition retryable :: "int \<Rightarrow> bool" where
  "retryable err \<longleftrightarrow> \<not> (err \<noteq> EINTR \<and> err \<noteq> EAGAIN \<and> err \<noteq> EWOULDBLOCK)"

text \<open>Closures a connection hands to its loop from another thread.\<close>

datatype closure = SendBuffer addr u64 | SendNodes "(addr \<times> u64) list" | CloseConnection

text \<open>
  \<open>event_id\<close> is the connection's event object in the loop \<open>lp\<close>; \<open>memory\<close> the bytes that
  buffers point into; \<open>writes\<close> and \<open>reads\<close> the kernel's scripts; \<open>wire\<close> what reached the
  kernel; \<open>completions\<close> and \<open>seen\<close> the calls of the write-complete and message callbacks;
  \<open>in_server\<close> membership in the server's set, \<open>holders\<close> the number of other shared
  pointers to the connection.
\<close>

record tcp_connection =
  event_id :: nat
  lp :: event_loop
  closed :: bool
  message_buffer :: msgbuffer
  io_vec_list :: "iovec list"
  timeout_entry :: "entry option"
  max_idle_ms :: u32
  close_cb :: bool
  in_server :: bool
  holders :: nat
  memory :: "addr \<Rightarrow> byte"
  writes :: "io_result list"
  reads :: "(int + bytes) list"
  errno :: int
  wire :: bytes
  completions :: nat
  seen :: "bytes list"
  destroyed_cb :: nat
  deferred :: "closure list"

definition read_mem :: "(addr \<Rightarrow> byte) \<Rightarrow> addr \<Rightarrow> nat \<Rightarrow> bytes" where
  "read_mem m a n = map (\<lambda>i. m (a + of_nat i)) [0..<n]"

text \<open>The bytes an array of iovecs describes.\<close>

definition gather :: "(addr \<Rightarrow> byte) \<Rightarrow> iovec list \<Rightarrow> bytes" where
  "gather m vs = concat (map (\<lambda>v. read_mem m (iov_base v) (unat (iov_len v))) vs)"

subsection \<open>System calls\<close>

text \<open>
  \<open>sys_write c d\<close> offers the bytes \<open>d\<close>. The result is what the call returns, read as a
  \<open>size_t\<close>: -1 becomes the largest word.
\<close>

definition sys_write :: "tcp_connection \<Rightarrow> bytes \<Rightarrow> u64 \<times> tcp_connection" where
  "sys_write c d =
     (case writes c of
        [] \<Rightarrow> (-1, c\<lparr>errno := EAGAIN\<rparr>)
      | Failed e # rs \<Rightarrow> (-1, c\<lparr>errno := e, writes := rs\<rparr>)
      | Wrote n # rs \<Rightarrow>
          (of_nat (min n (length d)), c\<lparr>wire := wire c @ take n d, writes := rs\<rparr>))"

text \<open>One \<open>readv\<close> of the socket; bytes that do not fit stay in the socket.\<close>

definition sys_readv :: "(int + bytes) list \<Rightarrow> nat \<Rightarrow> int + bytes" where
  "sys_readv rs space =
     (case rs of [] \<Rightarrow> Inl EAGAIN | Inl e # _ \<Rightarrow> Inl e | Inr d # _ \<Rightarrow> Inr (take space d))"

definition after_readv :: "(int + bytes) list \<Rightarrow> nat \<Rightarrow> (int + bytes) list" where
  "after_readv rs space =
     (case rs of [] \<Rightarrow> [] | Inl e # rs' \<Rightarrow> rs'
      | Inr d # rs' \<Rightarrow> if length d \<le> space then rs' else Inr (drop space d) # rs')"

subsection \<open>Writing interest, callbacks, life time\<close>

definition enableWriting :: "tcp_connection \<Rightarrow> bool \<Rightarrow> tcp_connection" where
  "enableWriting c b = c\<lparr>lp := enableEventWriting (lp c) (event_id c) b\<rparr>"

definition write_complete_cb :: "tcp_connection \<Rightarrow> tcp_connection" where
  "write_complete_cb c = c\<lparr>completions := Suc (completions c)\<rparr>"

text \<open>
  The weak pointer to the timeout entry can be locked while a slot holds the entry. The limit is converted from
  \<open>uint32_t\<close> to \<open>int\<close>.
\<close>

definition extendLife :: "tcp_connection \<Rightarrow> tcp_connection" where
  "extendLife c =
     (case timeout_entry c of
        None \<Rightarrow> c
      | Some e \<Rightarrow>
          if held (timing (lp c)) e
          then c\<lparr>lp := (lp c)\<lparr>timing := insertEntry (timing (lp c)) (sint (max_idle_ms c)) e\<rparr>\<rparr>
          else c)"

definition kept_alive :: "tcp_connection \<Rightarrow> bool" where
  "kept_alive c \<longleftrightarrow> registered (lp c) (event_id c) \<or> in_server c \<or> 0 < holders c"

subsection \<open>Closing\<close>

text \<open>\<open>TcpServer::onConnectionClose\<close>.\<close>

definition onConnectionClose :: "tcp_connection \<Rightarrow> nat \<Rightarrow> conn_error + tcp_connection" where
  "onConnectionClose c t =
     (if \<not> isInLoopThread (lp c) t then Inl WrongThread
      else Inr (c\<lparr>in_server := False, lp := removeEvent (lp c) (event_id c),
                  destroyed_cb := Suc (destroyed_cb c)\<rparr>))"

text \<open>
  The argument of the callback is a temporary shared pointer. When it goes, and the server
  and the loop have dropped theirs, the object is destroyed while \<open>onClose\<close> still runs.
\<close>

definition onClose :: "tcp_connection \<Rightarrow> nat \<Rightarrow> conn_error + tcp_connection" where
  "onClose c t =
     (if \<not> isInLoopThread (lp c) t then Inl WrongThread
      else if closed c then Inr c
      else
        case (if close_cb c then onConnectionClose c t else Inr c) of
          Inl e \<Rightarrow> Inl e
        | Inr c1 \<Rightarrow>
            if close_cb c \<and> \<not> kept_alive c1 then Inl UseAfterFree
            else Inr (c1\<lparr>closed := True, lp := close_event (lp c1) (event_id c1)\<rparr>))"

definition onTimeout :: "tcp_connection \<Rightarrow> nat \<Rightarrow> conn_error + tcp_connection" where
  "onTimeout c t = onClose c t"

definition onError :: "tcp_connection \<Rightarrow> nat \<Rightarrow> conn_error + tcp_connection" where
  "onError c t = onClose c t"

text \<open>Handing a closure to the loop from another thread, and the loop running it later.\<close>

definition post :: "tcp_connection \<Rightarrow> nat \<times> int \<Rightarrow> closure \<Rightarrow> tcp_connection" where
  "post c fresh f =
     c\<lparr>deferred := deferred c @ [f],
       lp := weakup ((lp c)\<lparr>queue := queue (lp c) @ [UserTask (length (deferred c))]\<rparr>)
               (fst fresh) (snd fresh)\<rparr>"

definition forceClose :: "tcp_connection \<Rightarrow> nat \<Rightarrow> nat \<times> int \<Rightarrow> conn_error + tcp_connection" where
  "forceClose c t fresh =
     (if isInLoopThread (lp c) t then onClose c t else Inr (post c fresh CloseConnection))"

subsection \<open>Sending\<close>

text \<open>
  \<open>sendLen < 0\<close> is never true of a \<open>size_t\<close>, so the branch for errors is dead: a failed
  write gives \<open>sendLen\<close> the largest value.
\<close>

definition sendInLoop :: "tcp_connection \<Rightarrow> addr \<Rightarrow> u64 \<Rightarrow> tcp_connection" where
  "sendInLoop c buf len =
     (if closed c then c
      else
        let (sendLen, c1) = (if io_vec_list c = [] then sys_write c (read_mem (memory c) buf (unat len))
                             else (0, c));
            size = len - sendLen
        in if io_vec_list c = [] \<and> size = 0 then write_complete_cb c1
           else if 0 < size
           then enableWriting (c1\<lparr>io_vec_list :=
                  io_vec_list c1 @ [\<lparr>iov_base = buf + sendLen, iov_len = size\<rparr>]\<rparr>) True
           else c1)"

definition sendInLoop_nodes :: "tcp_connection \<Rightarrow> (addr \<times> u64) list \<Rightarrow> tcp_connection" where
  "sendInLoop_nodes c nodes =
     (if closed c then c
      else
        let c1 = c\<lparr>io_vec_list := io_vec_list c @ map (\<lambda>(b, l). \<lparr>iov_base = b, iov_len = l\<rparr>) nodes\<rparr>
        in if io_vec_list c1 \<noteq> [] then enableWriting c1 True else c1)"

definition send :: "tcp_connection \<Rightarrow> nat \<Rightarrow> nat \<times> int \<Rightarrow> addr \<Rightarrow> u64 \<Rightarrow> tcp_connection" where
  "send c t fresh buf len =
     (if closed c then c
      else if isInLoopThread (lp c) t then sendInLoop c buf len
      else post c fresh (SendBuffer buf len))"

definition send_nodes :: "tcp_connection \<Rightarrow> nat \<Rightarrow> nat \<times> int \<Rightarrow> (addr \<times> u64) list \<Rightarrow> tcp_connection" where
  "send_nodes c t fresh nodes =
     (if closed c then c
      else if isInLoopThread (lp c) t then sendInLoop_nodes c nodes
      else post c fresh (SendNodes nodes))"

definition run_closure :: "tcp_connection \<Rightarrow> closure \<Rightarrow> conn_error + tcp_connection" where
  "run_closure c f =
     (case f of
        SendBuffer buf len \<Rightarrow> Inr (sendInLoop c buf len)
      | SendNodes nodes \<Rightarrow> Inr (sendInLoop_nodes c nodes)
      | CloseConnection \<Rightarrow> onClose c (owner (lp c)))"

subsection \<open>The socket is writable\<close>

text \<open>Dropping \<open>n\<close> written bytes from the front of the queue: the inner loop of \<open>onWrite\<close>.\<close>

fun consume :: "u64 \<Rightarrow> iovec list \<Rightarrow> iovec list" where
  "consume n [] = []"
| "consume n (v # vs) =
     (if n = 0 then v # vs
      else if n < iov_len v then v\<lparr>iov_base := iov_base v + n, iov_len := iov_len v - n\<rparr> # vs
      else consume (n - iov_len v) vs)"

lemma consume_shorter: "length (consume n vs) \<le> length vs"
  by (induction n vs rule: consume.induct) (auto intro: le_SucI)

lemma consume_max: "vs \<noteq> [] \<Longrightarrow> length (consume (-1) vs) < length vs"
proof (cases vs)
  case (Cons v vs')
  have "\<not> (-1 :: u64) < iov_len v" by (simp add: not_less word_order.extremum)
  with Cons consume_shorter [of "-1 - iov_len v" vs'] show ?thesis by (simp add: le_imp_less_Suc)
qed simp

text \<open>
  The outer loop. It ends when the queue is empty or when \<open>writev\<close> returned 0, which the
  code takes for an error and then looks at \<open>errno\<close>.
\<close>

function onWrite_loop :: "tcp_connection \<Rightarrow> nat \<Rightarrow> conn_error + tcp_connection" where
  "onWrite_loop c t =
     (if io_vec_list c = [] then Inr c
      else
        let (sendLen, c1) = sys_write c (gather (memory c) (io_vec_list c))
        in if 0 < sendLen then
             let c2 = c1\<lparr>io_vec_list := consume sendLen (io_vec_list c1)\<rparr>
             in if io_vec_list c2 = [] then Inr (write_complete_cb (enableWriting c2 False))
                else onWrite_loop c2 t
           else if \<not> retryable (errno c1) then onClose c1 t
           else Inr c1)"
  by pat_completeness auto
termination
proof (relation "measures [\<lambda>(c, t). length (writes c), \<lambda>(c, t). length (io_vec_list c)]", goal_cases)
  case (2 c t x sendLen c1 c2)
  then show ?case
    using consume_max [of "io_vec_list c"]
    by (auto simp: sys_write_def split: list.splits io_result.splits)
qed simp

declare onWrite_loop.simps [simp del]

definition onWrite :: "tcp_connection \<Rightarrow> nat \<Rightarrow> conn_error + tcp_connection" where
  "onWrite c t =
     (if closed c then Inr c
      else
        let c1 = extendLife c
        in if io_vec_list c1 \<noteq> [] then onWrite_loop c1 t
           else Inr (write_complete_cb (enableWriting c1 False)))"

subsection \<open>The socket is readable\<close>

text \<open>
  \<open>cb\<close> is what the message callback does to the input buffer; each call is logged in
  \<open>seen\<close> with the content it found.
\<close>

definition avail :: "(int + bytes) list \<Rightarrow> nat" where
  "avail rs = sum_list (map (\<lambda>r. case r of Inl _ \<Rightarrow> 1 | Inr d \<Rightarrow> Suc (length d)) rs)"

function onRead_loop ::
    "(msgbuffer \<Rightarrow> msgbuffer) \<Rightarrow> tcp_connection \<Rightarrow> nat \<Rightarrow> conn_error + tcp_connection" where
  "onRead_loop cb c t =
     (let space = readFd_space (message_buffer c)
      in case readFd (sys_readv (reads c)) (message_buffer c) of
           None \<Rightarrow> Inl BufferAbort
         | Some (n, err, b) \<Rightarrow>
             let c1 = c\<lparr>message_buffer := b, reads := after_readv (reads c) space\<rparr>
             in if n > 0 then
                  onRead_loop cb (c1\<lparr>message_buffer := cb b, seen := seen c1 @ [content b]\<rparr>) t
                else if n = 0 then onClose c1 t
                else if \<not> retryable (case err of Some e \<Rightarrow> e | None \<Rightarrow> 0) then onClose c1 t
                else Inr c1)"
  by pat_completeness auto
termination
proof (relation "measure (\<lambda>(cb, c, t). avail (reads c))", goal_cases)
  case (2 cb c t space x n y err b c1)
  have "0 < readFd_space (message_buffer c)"
    by (simp add: readFd_space_def extrabuf_size_def)
  then show ?case
    using 2
    by (cases "reads c"; cases "hd (reads c)")
      (auto simp: readFd_def sys_readv_def after_readv_def avail_def Let_def bind_eq_Some_conv
        split: if_splits)
qed simp

declare onRead_loop.simps [simp del]

definition onRead ::
    "(msgbuffer \<Rightarrow> msgbuffer) \<Rightarrow> tcp_connection \<Rightarrow> nat \<Rightarrow> conn_error + tcp_connection" where
  "onRead cb c t = (if closed c then Inr c else onRead_loop cb (extendLife c) t)"


subsection \<open>Idle time\<close>

text \<open>
  The entry is owned by the slots alone once the function returns; if no slot took it, its
  destructor runs at once. The destructor locks the weak pointer to the connection, which
  keeps the connection alive while \<open>onTimeout\<close> runs.
\<close>

definition timeout_destructor :: "tcp_connection \<Rightarrow> nat \<Rightarrow> conn_error + tcp_connection" where
  "timeout_destructor c t =
     (if kept_alive c
      then (case onTimeout (c\<lparr>holders := Suc (holders c)\<rparr>) t of
              Inl e \<Rightarrow> Inl e | Inr c1 \<Rightarrow> Inr (c1\<lparr>holders := holders c1 - 1\<rparr>))
      else Inr c)"

definition enableCheckIdleTime ::
    "tcp_connection \<Rightarrow> nat \<Rightarrow> nat \<times> int \<Rightarrow> u32 \<Rightarrow> conn_error + tcp_connection" where
  "enableCheckIdleTime c t fresh timeout =
     (let tw = timing (lp c);
          e = Entry (next_id tw) (Idle (event_id c));
          l = (lp c)\<lparr>timing := tw\<lparr>next_id := Suc (next_id tw)\<rparr>\<rparr>;
          c1 = c\<lparr>max_idle_ms := timeout, timeout_entry := Some e\<rparr>
      in case loop_insertEntry l t fresh (sint timeout) e of
           None \<Rightarrow> Inl Diverges
         | Some l1 \<Rightarrow>
             if isInLoopThread (lp c) t \<and> \<not> held (timing l1) e
             then timeout_destructor
               (c1\<lparr>lp := l1\<lparr>timing := (timing l1)\<lparr>fired := fired (timing l1) @ [e]\<rparr>\<rparr>\<rparr>) t
             else Inr (c1\<lparr>lp := l1\<rparr>))"

text \<open>
  A second passes: the wheels advance, and if that dropped the last reference to the
  connection's entry its destructor runs.
\<close>

definition idle_tick :: "tcp_connection \<Rightarrow> nat \<Rightarrow> conn_error + tcp_connection" where
  "idle_tick c t =
     (case advance (timing (lp c)) of
        None \<Rightarrow> Inl Diverges
      | Some tw \<Rightarrow>
          let c1 = c\<lparr>lp := (lp c)\<lparr>timing := tw\<rparr>\<rparr>
          in case timeout_entry c of
               None \<Rightarrow> Inr c1
             | Some e \<Rightarrow>
                 if count_list (fired (timing (lp c))) e < count_list (fired tw) e
                 then timeout_destructor c1 t else Inr c1)"

definition new_TcpConnection ::
    "event_loop \<Rightarrow> nat \<Rightarrow> int \<Rightarrow> (addr \<Rightarrow> byte) \<Rightarrow> io_result list \<Rightarrow> (int + bytes) list \<Rightarrow> tcp_connection" where
  "new_TcpConnection l ev sockfd m ws rs =
     \<lparr>event_id = ev, lp = new_Event l ev sockfd, closed = False,
      message_buffer = new_MsgBuffer kInitialSize, io_vec_list = [], timeout_entry = None,
      max_idle_ms = 30, close_cb = False, in_server = False, holders = 0, memory = m, writes = ws,
      reads = rs, errno = 0, wire = [], completions = 0, seen = [], destroyed_cb = 0, deferred = []\<rparr>"

text \<open>\<open>TcpServer::onAccept\<close>, up to the user's callback for the new connection.\<close>

definition onAccept ::
    "event_loop \<Rightarrow> nat \<Rightarrow> nat \<times> int \<Rightarrow> nat \<Rightarrow> int \<Rightarrow> (addr \<Rightarrow> byte) \<Rightarrow> io_result list
       \<Rightarrow> (int + bytes) list \<Rightarrow> conn_error + tcp_connection" where
  "onAccept l t fresh ev sockfd m ws rs =
     (let c = new_TcpConnection l ev sockfd m ws rs;
          c1 = c\<lparr>close_cb := True, in_server := True, lp := addEvent (lp c) ev\<rparr>
      in enableCheckIdleTime c1 t fresh 30)"

subsection \<open>The output queue: lemmas\<close>

lemma length_read_mem [simp]: "length (read_mem m a n) = n"
  by (simp add: read_mem_def)

lemma read_mem_0 [simp]: "read_mem m a 0 = []"
  by (simp add: read_mem_def)

lemma read_mem_Suc: "read_mem m a (Suc n) = m a # read_mem m (a + 1) n"
proof -
  have "[0..<Suc n] = 0 # map Suc [0..<n]" by (simp add: upt_conv_Cons map_Suc_upt del: upt_Suc)
  then show ?thesis unfolding read_mem_def by (simp del: upt_Suc add: ac_simps)
qed

lemma drop_read_mem: "drop k (read_mem m a n) = read_mem m (a + of_nat k) (n - k)"
  by (rule nth_equalityI) (auto simp: read_mem_def ac_simps)

lemma gather_simps [simp]:
  "gather m [] = []"
  "gather m (v # vs) = read_mem m (iov_base v) (unat (iov_len v)) @ gather m vs"
  "gather m (us @ vs) = gather m us @ gather m vs"
  by (simp_all add: gather_def)

lemma gather_consume: "gather m (consume n vs) = drop (unat n) (gather m vs)"
proof (induction n vs rule: consume.induct)
  case (1 n)
  then show ?case by simp
next
  case (2 n v vs)
  consider "n = 0" | "n \<noteq> 0" "n < iov_len v" | "n \<noteq> 0" "iov_len v \<le> n" by fastforce
  then show ?case
  proof cases
    case 1
    then show ?thesis by simp
  next
    case 2
    then have "unat n \<le> unat (iov_len v)" and "unat (iov_len v - n) = unat (iov_len v) - unat n"
      by (simp_all add: unat_sub word_le_nat_alt word_less_nat_alt)
    with 2 show ?thesis by (simp add: drop_read_mem)
  next
    case 3
    then have "unat (n - iov_len v) = unat n - unat (iov_len v)" by (simp add: unat_sub)
    moreover have "\<not> n < iov_len v" using 3 by simp
    moreover have "unat (iov_len v) \<le> unat n" using 3(2) by (simp add: word_le_nat_alt)
    ultimately show ?thesis using 3 2 by simp
  qed
qed

definition nonempty_iovecs :: "iovec list \<Rightarrow> bool" where
  "nonempty_iovecs vs \<longleftrightarrow> (\<forall>v \<in> set vs. iov_len v \<noteq> 0)"

lemma nonempty_consume: "nonempty_iovecs vs \<Longrightarrow> nonempty_iovecs (consume n vs)"
proof (induction n vs rule: consume.induct)
  case (2 n v vs)
  have "n < iov_len v \<Longrightarrow> iov_len v - n \<noteq> 0" by (auto simp: word_less_nat_alt)
  with 2 show ?case by (auto simp: nonempty_iovecs_def)
qed simp

lemma gather_Nil_iff: "nonempty_iovecs vs \<Longrightarrow> (gather m vs = []) = (vs = [])"
proof (cases vs)
  case (Cons v vs')
  assume "nonempty_iovecs vs"
  with Cons have "unat (iov_len v) \<noteq> 0" by (simp add: nonempty_iovecs_def unat_eq_0)
  with Cons show ?thesis by (auto simp: read_mem_def)
qed simp

lemma consume_Nil_iff:
  "nonempty_iovecs vs \<Longrightarrow> (consume n vs = []) = (length (gather m vs) \<le> unat n)"
  using gather_Nil_iff [OF nonempty_consume, of vs m n] by (simp add: gather_consume)


text \<open>The bytes the kernel takes before its first refusal.\<close>

fun accepted :: "io_result list \<Rightarrow> nat" where
  "accepted [] = 0"
| "accepted (Wrote n # rs) = n + accepted rs"
| "accepted (Failed e # rs) = 0"

lemma unat_max: "unat (-1 :: u64) = 2 ^ 64 - 1"
  by (simp add: unsigned_minus_1_eq_mask mask_eq_exp_minus_1)

text \<open>
  A refused write looks like one that wrote everything: the queue is dropped.
\<close>

lemma onWrite_loop_refused:
  assumes "io_vec_list c \<noteq> []" and "nonempty_iovecs (io_vec_list c)"
    and "length (gather (memory c) (io_vec_list c)) < 2 ^ 64"
    and "sys_write c (gather (memory c) (io_vec_list c)) = (-1, c1)"
    and "io_vec_list c1 = io_vec_list c"
  shows "onWrite_loop c t = Inr (write_complete_cb (enableWriting (c1\<lparr>io_vec_list := []\<rparr>) False))"
proof -
  have "consume (-1) (io_vec_list c) = []"
    using assms(2,3) by (simp add: consume_Nil_iff [of _ _ "memory c"] unat_max)
  moreover have "0 < (-1 :: u64)" by (simp add: word_less_nat_alt unat_max)
  ultimately show ?thesis
    using assms by (simp add: onWrite_loop.simps [of c])
qed

lemma onWrite_loop_drains:
  assumes "io_vec_list c \<noteq> []" and "nonempty_iovecs (io_vec_list c)"
    and "length (gather (memory c) (io_vec_list c)) < 2 ^ 64" and "Wrote 0 \<notin> set (writes c)"
  shows "\<exists>c'. onWrite_loop c t = Inr c' \<and> io_vec_list c' = []
     \<and> wire c' = wire c @ take (accepted (writes c)) (gather (memory c) (io_vec_list c))
     \<and> completions c' = Suc (completions c) \<and> closed c' = closed c \<and> event_id c' = event_id c
     \<and> lp c' = enableEventWriting (lp c) (event_id c) False"
  using assms
proof (induction "length (writes c)" arbitrary: c)
  case 0
  then have "sys_write c (gather (memory c) (io_vec_list c)) = (-1, c\<lparr>errno := EAGAIN\<rparr>)"
    by (simp add: sys_write_def)
  from onWrite_loop_refused [OF "0.prems"(1-3) this] 0 show ?case
    by (simp add: write_complete_cb_def enableWriting_def)
next
  case (Suc len)
  let ?g = "gather (memory c) (io_vec_list c)"
  obtain r rs where w: "writes c = r # rs" using Suc.hyps(2) by (cases "writes c") auto
  show ?case
  proof (cases r)
    case (Failed e)
    then have "sys_write c ?g = (-1, c\<lparr>errno := e, writes := rs\<rparr>)"
      using w by (simp add: sys_write_def)
    from onWrite_loop_refused [OF Suc.prems(1-3) this] Failed w show ?thesis
      by (simp add: write_complete_cb_def enableWriting_def)
  next
    case (Wrote n)
    let ?k = "min n (length ?g)"
    let ?c1 = "c\<lparr>wire := wire c @ take n ?g, writes := rs\<rparr>"
    let ?c2 = "?c1\<lparr>io_vec_list := consume (of_nat ?k) (io_vec_list c)\<rparr>"
    have n: "0 < n" using Suc.prems(4) w Wrote by (cases n) auto
    have g: "?g \<noteq> []" using gather_Nil_iff [OF Suc.prems(2)] Suc.prems(1) by simp
    have u: "unat (of_nat ?k :: u64) = ?k"
      using Suc.prems(3) by (simp add: unat_of_nat)
    have sys: "sys_write c ?g = (of_nat ?k, ?c1)" using w Wrote by (simp add: sys_write_def)
    have pos: "0 < (of_nat ?k :: u64)" using n g by (simp add: word_less_nat_alt u)
    have g2: "gather (memory c) (consume (of_nat ?k) (io_vec_list c)) = drop ?k ?g"
      by (simp add: gather_consume u)
    show ?thesis
    proof (cases "consume (of_nat ?k) (io_vec_list c) = []")
      case True
      then have "length ?g \<le> n"
        using consume_Nil_iff [OF Suc.prems(2), of "of_nat ?k" "memory c"] u by simp
      then have "take n ?g = take (n + accepted rs) ?g" by simp
      with True sys pos Suc.prems(1) w Wrote show ?thesis
        by (simp add: onWrite_loop.simps [of c] write_complete_cb_def enableWriting_def)
    next
      case False
      have k: "?k = n"
        using False consume_Nil_iff [OF Suc.prems(2), of "of_nat ?k" "memory c"] u by simp
      have "\<exists>c'. onWrite_loop ?c2 t = Inr c' \<and> io_vec_list c' = []
         \<and> wire c' = wire ?c2 @ take (accepted (writes ?c2)) (gather (memory ?c2) (io_vec_list ?c2))
         \<and> completions c' = Suc (completions ?c2) \<and> closed c' = closed ?c2 \<and> event_id c' = event_id ?c2
         \<and> lp c' = enableEventWriting (lp ?c2) (event_id ?c2) False"
        using False w Suc.hyps(2) Suc.prems g2
        by (intro Suc.hyps(1)) (simp_all add: nonempty_consume)
      moreover have "onWrite_loop c t = onWrite_loop ?c2 t"
        using False sys pos Suc.prems(1) by (simp add: onWrite_loop.simps [of c])
      ultimately show ?thesis
        using w Wrote g2 unfolding k by (simp add: take_add)
    qed
  qed
qed

lemma extendLife_frame [simp]:
  "io_vec_list (extendLife c) = io_vec_list c" "memory (extendLife c) = memory c"
  "writes (extendLife c) = writes c" "wire (extendLife c) = wire c" "reads (extendLife c) = reads c"
  "completions (extendLife c) = completions c" "closed (extendLife c) = closed c"
  "event_id (extendLife c) = event_id c" "message_buffer (extendLife c) = message_buffer c"
  "seen (extendLife c) = seen c"
  by (auto simp: extendLife_def split: option.splits)

text \<open>A server connection to evaluate on: event 0 on descriptor 5 of \<open>sample_loop\<close>.\<close>

definition sample_conn :: "io_result list \<Rightarrow> (int + bytes) list \<Rightarrow> tcp_connection" where
  "sample_conn ws rs =
     \<lparr>event_id = 0, lp = addEvent (new_Event sample_loop 0 5) 0, closed = False,
      message_buffer = new_MsgBuffer kInitialSize, io_vec_list = [], timeout_entry = None,
      max_idle_ms = 30, close_cb = True, in_server = True, holders = 0,
      memory = (\<lambda>a. ucast a), writes = ws, reads = rs, errno = 0, wire = [], completions = 0,
      seen = [], destroyed_cb = 0, deferred = []\<rparr>"

lemma sample_conn [simp]:
  "event_id (sample_conn ws rs) = 0" "closed (sample_conn ws rs) = False"
  "io_vec_list (sample_conn ws rs) = []" "writes (sample_conn ws rs) = ws"
  "reads (sample_conn ws rs) = rs" "memory (sample_conn ws rs) = (\<lambda>a. ucast a)"
  "wire (sample_conn ws rs) = []" "close_cb (sample_conn ws rs)" "in_server (sample_conn ws rs)"
  "holders (sample_conn ws rs) = 0" "completions (sample_conn ws rs) = 0"
  "message_buffer (sample_conn ws rs) = new_MsgBuffer kInitialSize"
  "owner (lp (sample_conn ws rs)) = 1" "timing (lp (sample_conn ws rs)) = new_TimingWheel"
  "seen (sample_conn ws rs) = []" "timeout_entry (sample_conn ws rs) = None"
  by (simp_all add: sample_conn_def sample_loop)

lemma sample_conn_loop:
  "reg_inv sample_ctl (lp (sample_conn ws rs))" "registered (lp (sample_conn ws rs)) 0"
  "getFd (lp (sample_conn ws rs)) 0 = 5"
proof -
  have "reg_inv sample_ctl (new_Event sample_loop 0 5)"
    by (rule new_Event_reg [OF sample_loop(9)]) (simp add: sample_loop)
  then show "reg_inv sample_ctl (lp (sample_conn ws rs))"
    by (simp add: sample_conn_def) (rule addEvent_reg [OF sample_ctl_laws], simp_all add: sample_loop)
  show "registered (lp (sample_conn ws rs)) 0" "getFd (lp (sample_conn ws rs)) 0 = 5"
    by (simp_all add: sample_conn_def registered_def addEvent_def getFd_def Let_def new_Event_def
        sample_loop)
qed

subsection \<open>Properties: sending\<close>

text \<open>
  \<open>onWrite\<close> throws away what the kernel did not take. Whenever output is queued and
  the socket becomes writable, the call empties the queue, switches the writing
  interest off and reports completion, whatever the kernel answers; what reached the wire
  is only what the kernel took before its first refusal (an error, or a full socket buffer
  after a partial write), because -1 kept in a \<open>size_t\<close> counts as everything written.
\<close>

lemma onWrite_drops_what_is_refused:
  assumes "\<not> closed c" and "io_vec_list c \<noteq> []" and "nonempty_iovecs (io_vec_list c)"
    and "length (gather (memory c) (io_vec_list c)) < 2 ^ 64" and "Wrote 0 \<notin> set (writes c)"
  shows "\<exists>c'. onWrite c t = Inr c' \<and> io_vec_list c' = [] \<and> completions c' = Suc (completions c)
     \<and> wire c' = wire c @ take (accepted (writes c)) (gather (memory c) (io_vec_list c))
     \<and> lp c' = enableEventWriting (lp (extendLife c)) (event_id c) False"
  using onWrite_loop_drains [of "extendLife c" t] assms by (simp add: onWrite_def) blast


lemma onWrite_drops_what_is_refused_witness:
  "\<exists>c'. onWrite ((sample_conn [Wrote 2, Failed EAGAIN] [])
         \<lparr>io_vec_list := [\<lparr>iov_base = 7, iov_len = 4\<rparr>]\<rparr>) 1 = Inr c'
     \<and> io_vec_list c' = [] \<and> wire c' = [7, 8] \<and> completions c' = 1"
  using onWrite_drops_what_is_refused
    [of "(sample_conn [Wrote 2, Failed EAGAIN] []) \<lparr>io_vec_list := [\<lparr>iov_base = 7, iov_len = 4\<rparr>]\<rparr>" 1]
  by (auto simp: nonempty_iovecs_def read_mem_def upt_rec)

definition is_Wrote :: "io_result \<Rightarrow> bool" where
  "is_Wrote r = (case r of Wrote _ \<Rightarrow> True | Failed _ \<Rightarrow> False)"

definition queued_watched :: "(kernel \<Rightarrow> syscall \<Rightarrow> kernel) \<Rightarrow> tcp_connection \<Rightarrow> bool" where
  "queued_watched ctl c \<longleftrightarrow> reg_inv ctl (lp c) \<and> registered (lp c) (event_id c)
     \<and> (io_vec_list c \<noteq> [] \<longrightarrow> watches_write ctl (lp c) (event_id c))"

lemma sendInLoop_step:
  fixes buf :: addr and len :: u64
  assumes "epoll_laws ctl" and "queued_watched ctl c" and "\<not> closed c"
    and "writes c \<noteq> []" and "list_all is_Wrote (writes c)"
  defines "c' \<equiv> sendInLoop c buf len"
  shows "wire c' @ gather (memory c) (io_vec_list c')
           = wire c @ gather (memory c) (io_vec_list c) @ read_mem (memory c) buf (unat len)"
    and "queued_watched ctl c'" and "closed c' = closed c" and "memory c' = memory c"
    and "list_all is_Wrote (writes c')" and "length (writes c) \<le> Suc (length (writes c'))"
proof -
  obtain n rs where w: "writes c = Wrote n # rs"
    using assms(4,5) by (cases "writes c"; cases "hd (writes c)") (auto simp: is_Wrote_def)
  let ?d = "read_mem (memory c) buf (unat len)"
  let ?k = "of_nat (min n (unat len)) :: u64"
  have "unat len < 2 ^ LENGTH(64)" by (rule unsigned_less)
  then have lt: "min n (unat len) < 2 ^ 64" by simp
  then have k: "unat ?k = min n (unat len)" by (simp add: unat_of_nat)
  have "?k \<le> len" by (simp add: word_le_nat_alt k)
  then have s: "unat (len - ?k) = unat len - min n (unat len)" by (simp add: unat_sub k)
  have tail: "read_mem (memory c) (buf + ?k) (unat (len - ?k)) = drop n ?d"
    using s by (cases "n \<le> unat len") (simp_all add: drop_read_mem)
  define out where "out = (if io_vec_list c = [] then ?k else 0)"
  define c1 where "c1 = (if io_vec_list c = [] then c\<lparr>wire := wire c @ take n ?d, writes := rs\<rparr> else c)"
  have c': "c' = (if io_vec_list c = [] \<and> len - out = 0 then write_complete_cb c1
      else if 0 < len - out then enableWriting (c1\<lparr>io_vec_list :=
             io_vec_list c1 @ [\<lparr>iov_base = buf + out, iov_len = len - out\<rparr>]\<rparr>) True
      else c1)"
    using w assms(3) by (simp add: c'_def sendInLoop_def sys_write_def out_def c1_def)
  have nz: "0 < len - out \<longleftrightarrow> len - out \<noteq> 0" by (rule word_neq_0_conv [symmetric])
  have z: "unat len \<le> n" if "len - ?k = 0"
  proof -
    from that have "unat (len - ?k) = 0" by (simp only: unat_eq_0)
    with s show ?thesis by simp
  qed
  show "wire c' @ gather (memory c) (io_vec_list c')
           = wire c @ gather (memory c) (io_vec_list c) @ read_mem (memory c) buf (unat len)"
    using tail z unfolding c' nz
    by (auto simp: write_complete_cb_def enableWriting_def c1_def out_def)
  show "queued_watched ctl c'"
    using loop_writes.set_ok [of ctl "lp c" "event_id c" True] assms(1,2) unfolding c' nz
    by (auto simp: queued_watched_def write_complete_cb_def enableWriting_def c1_def out_def)
  show "closed c' = closed c" "memory c' = memory c" "list_all is_Wrote (writes c')"
    "length (writes c) \<le> Suc (length (writes c'))"
    using w assms(5) unfolding c' by (auto simp: write_complete_cb_def enableWriting_def c1_def)
qed

text \<open>
  C10. As long as the kernel refuses nothing, the stream is intact: after any sequence of
  \<open>send\<close>s in the loop's thread, with every partial write possible, what is on the wire
  followed by what is queued is exactly the buffers in the order they were sent, and the
  kernel watches for writability whenever something is queued.
\<close>

theorem sends_keep_order:
  assumes "epoll_laws ctl" and "queued_watched ctl c" and "\<not> closed c"
    and "length bufs \<le> length (writes c)" and "list_all is_Wrote (writes c)"
  defines "c' \<equiv> foldl (\<lambda>c (buf, len). sendInLoop c buf len) c bufs"
  shows "wire c' @ gather (memory c) (io_vec_list c')
           = wire c @ gather (memory c) (io_vec_list c)
             @ concat (map (\<lambda>(buf, len). read_mem (memory c) buf (unat len)) bufs)
     \<and> queued_watched ctl c'"
  using assms(1-5) unfolding c'_def
proof (induction bufs arbitrary: c)
  case Nil
  then show ?case by simp
next
  case (Cons x bufs)
  obtain buf len where x: "x = (buf, len)" by (cases x)
  have "writes c \<noteq> []" using Cons.prems(4) by auto
  note st = sendInLoop_step [OF Cons.prems(1-3) this Cons.prems(5), of buf len]
  have "length bufs \<le> length (writes (sendInLoop c buf len))"
    using st(6) Cons.prems(4) by simp
  moreover have "\<not> closed (sendInLoop c buf len)" using st(3) Cons.prems(3) by simp
  ultimately show ?case
    using Cons.IH [OF Cons.prems(1) st(2) _ _ st(5)] st(1,4) x by simp
qed

theorem sends_keep_order_witness:
  "wire (sendInLoop (sample_conn [Wrote 2] []) 7 4)
     @ gather ucast (io_vec_list (sendInLoop (sample_conn [Wrote 2] []) 7 4)) = [7, 8, 9, 10]"
proof -
  have q: "queued_watched sample_ctl (sample_conn [Wrote 2] [])"
    by (simp add: queued_watched_def sample_conn_loop)
  show ?thesis
    using sends_keep_order [OF sample_ctl_laws q, of "[(7, 4)]"]
    by (simp add: is_Wrote_def read_mem_def upt_rec)
qed

text \<open>
  A refused \<open>send\<close> corrupts the stream: when nothing is queued and \<open>write\<close> fails, for
  whatever reason, the connection is not closed, and what is queued starts one byte before
  the caller's buffer and is one byte too long.
\<close>

lemma refused_send_queues_wrong_bytes:
  fixes buf :: addr and len :: u64
  assumes "\<not> closed c" and "io_vec_list c = []" and "writes c = Failed e # rs" and "len \<noteq> -1"
  defines "c' \<equiv> sendInLoop c buf len"
  shows "\<not> closed c' \<and> wire c' = wire c \<and> completions c' = completions c
     \<and> gather (memory c) (io_vec_list c')
         = memory c (buf - 1) # read_mem (memory c) buf (unat len)"
proof -
  have nz: "len + 1 \<noteq> 0" using assms(4) by (metis add.commute add_eq_0_iff)
  then have u: "unat (len + 1) = Suc (unat len)" by (simp add: unatSuc add.commute)
  have "read_mem (memory c) (buf - 1) (Suc (unat len))
      = memory c (buf - 1) # read_mem (memory c) buf (unat len)"
    by (simp add: read_mem_Suc)
  then show ?thesis
    using assms nz u
    by (simp add: sendInLoop_def sys_write_def enableWriting_def word_neq_0_conv)
qed


lemma refused_send_queues_wrong_bytes_witness:
  "gather ucast (io_vec_list (sendInLoop (sample_conn [Failed EAGAIN] []) 7 2)) = [6, 7, 8]"
  using refused_send_queues_wrong_bytes [of "sample_conn [Failed EAGAIN] []" EAGAIN "[]" 2 7]
  by (simp add: read_mem_def upt_rec)

subsection \<open>Properties: closing\<close>

text \<open>
  A server connection that nobody else holds is used after it is destroyed: when the
  peer closes, or an error or a hang-up is reported, \<open>onClose\<close> drops the last references
  from inside the close callback and then still writes to the connection.
\<close>

lemma unheld_close_uses_freed_object:
  assumes "registered (lp c) (event_id c)" and "\<not> closed c" and "close_cb c" and "holders c = 0"
    and "t = owner (lp c)"
  shows "onClose c t = Inl UseAfterFree \<and> onError c t = Inl UseAfterFree
     \<and> (reads c = [Inr []] \<longrightarrow> buf_ok (message_buffer c) \<longrightarrow> onRead cb c t = Inl UseAfterFree)"
proof -
  have dead: "onClose c' t = Inl UseAfterFree"
    if "events (lp c') = events (lp c)" "objs (lp c') = objs (lp c)" "owner (lp c') = owner (lp c)"
      "event_id c' = event_id c" "closed c' = closed c" "close_cb c' = close_cb c"
      "holders c' = holders c" for c'
  proof -
    have "registered (lp c') (event_id c')"
      using assms(1) that by (simp add: registered_def getFd_def)
    note r = removeEvent_frame(5) [OF this]
    show ?thesis
      using assms that r
      by (simp add: onClose_def onConnectionClose_def isInLoopThread_def kept_alive_def registered_def
          removeEvent_frame)
  qed
  have "onRead cb c t = Inl UseAfterFree" if "reads c = [Inr []]" "buf_ok (message_buffer c)"
  proof -
    let ?c = "extendLife c"
    have "overwrite bs i [] = bs" for bs :: bytes and i
      by (simp add: overwrite_def)
    then have rd: "readFd (sys_readv (reads ?c)) (message_buffer ?c) = Some (0, None, message_buffer c)"
      using that by (simp add: readFd_def sys_readv_def)
    have "onRead_loop cb ?c t
        = onClose (?c\<lparr>message_buffer := message_buffer c, reads := after_readv (reads ?c)
            (readFd_space (message_buffer ?c))\<rparr>) t"
      unfolding onRead_loop.simps [of cb ?c] rd by simp
    also have "\<dots> = Inl UseAfterFree"
      by (rule dead) (auto simp: extendLife_def split: option.splits)
    finally show ?thesis using assms(2) by (simp add: onRead_def)
  qed
  with dead [of c] show ?thesis by (simp add: onError_def)
qed

lemma unheld_close_uses_freed_object_witness:
  "onRead id (sample_conn [] [Inr []]) 1 = Inl UseAfterFree"
  using unheld_close_uses_freed_object [of "sample_conn [] [Inr []]" 1 id]
  by (simp add: sample_conn_loop)

text \<open>A connection that is held, by its user or by the timeout that closes it, closes safely.\<close>

lemma onClose_held:
  assumes "\<not> closed c" and "close_cb c" and "0 < holders c" and "t = owner (lp c)"
  shows "onClose c t = Inr (c\<lparr>in_server := False, destroyed_cb := Suc (destroyed_cb c), closed := True,
     lp := close_event (removeEvent (lp c) (event_id c)) (event_id c)\<rparr>)"
  using assms by (simp add: onClose_def onConnectionClose_def isInLoopThread_def kept_alive_def)

text \<open>
  C32. While somebody holds the connection, closing works and is idempotent: the server and
  the loop forget it, its descriptor is closed and no longer watched, the user is told once,
  and closing again changes nothing.
\<close>

theorem held_close_once:
  assumes "epoll_laws ctl" and "reg_inv ctl (lp c)" and "registered (lp c) (event_id c)"
    and "\<not> closed c" and "close_cb c" and "0 < holders c" and "t = owner (lp c)"
  shows "\<exists>c'. onClose c t = Inr c' \<and> closed c' \<and> \<not> in_server c'
     \<and> destroyed_cb c' = Suc (destroyed_cb c)
     \<and> watched ctl (lp c') (getFd (lp c) (event_id c)) = None
     \<and> getFd (lp c') (event_id c) = -1 \<and> reg_inv ctl (lp c') \<and> onClose c' t = Inr c'"
proof -
  note f = forget_event [OF assms(1-3)]
  note o = onClose_held [OF assms(4-7)]
  have "onClose (c\<lparr>in_server := False, destroyed_cb := Suc (destroyed_cb c), closed := True,
      lp := close_event (removeEvent (lp c) (event_id c)) (event_id c)\<rparr>) t
    = Inr (c\<lparr>in_server := False, destroyed_cb := Suc (destroyed_cb c), closed := True,
      lp := close_event (removeEvent (lp c) (event_id c)) (event_id c)\<rparr>)"
    using f(6) assms(7) by (simp add: onClose_def isInLoopThread_def)
  with f(1,3,4) o show ?thesis by auto
qed

theorem held_close_once_witness:
  "\<exists>c'. onClose ((sample_conn [] [])\<lparr>holders := 1\<rparr>) 1 = Inr c' \<and> closed c'
     \<and> watched sample_ctl (lp c') 5 = None"
  using held_close_once [OF sample_ctl_laws, of "(sample_conn [] [])\<lparr>holders := 1\<rparr>" 1]
    sample_conn_loop by (auto simp: sample_conn_loop)

subsection \<open>Properties: receiving\<close>

text \<open>
  A message callback that takes bytes from the front of the buffer, as many as it likes and none at all if it likes, and
  what it takes. The callback of the RTMP handshake is one: it leaves incomplete packets.
\<close>

definition takes_front :: "(msgbuffer \<Rightarrow> msgbuffer) \<Rightarrow> bool" where
  "takes_front cb \<longleftrightarrow> (\<forall>b. buf_ok b \<longrightarrow> buf_ok (cb b) \<and> (\<exists>k. content (cb b) = drop k (content b)))"

definition taken :: "(msgbuffer \<Rightarrow> msgbuffer) \<Rightarrow> msgbuffer \<Rightarrow> bytes" where
  "taken cb b = take (length (content b) - length (content (cb b))) (content b)"

lemma taken_rest: "takes_front cb \<Longrightarrow> buf_ok b \<Longrightarrow> taken cb b @ content (cb b) = content b"
proof -
  assume "takes_front cb" and "buf_ok b"
  then obtain k where k: "content (cb b) = drop k (content b)" by (auto simp: takes_front_def)
  show ?thesis
  proof (cases "k \<le> length (content b)")
    case True
    then show ?thesis by (simp add: taken_def k)
  next
    case False
    then show ?thesis by (simp add: taken_def k)
  qed
qed

text \<open>
  The calls of the callback, with the buffers \<open>bs\<close>, deliver the stream \<open>S\<close>: each call finds what has come in and was not
  taken before, the last one all of it, and \<open>rest\<close> is what stays.
\<close>

definition delivers :: "(msgbuffer \<Rightarrow> msgbuffer) \<Rightarrow> msgbuffer list \<Rightarrow> bytes \<Rightarrow> bytes \<Rightarrow> bool" where
  "delivers cb bs S rest \<longleftrightarrow> concat (map (taken cb) bs) @ rest = S
     \<and> (\<forall>i < length bs. \<exists>later. concat (map (taken cb) (take i bs)) @ content (bs ! i) @ later = S)
     \<and> (bs \<noteq> [] \<longrightarrow> concat (map (taken cb) (butlast bs)) @ content (last bs) = S)"

lemma delivers_Cons:
  assumes "delivers cb bs (content (cb b) @ S) rest" and "taken cb b @ content (cb b) = content b"
    and "bs = [] \<Longrightarrow> S = []"
  shows "delivers cb (b # bs) (content b @ S) rest"
proof -
  have S: "content b @ S = taken cb b @ content (cb b) @ S" using assms(2) by (metis append_assoc)
  have "\<exists>later. concat (map (taken cb) (take i (b # bs))) @ content ((b # bs) ! i) @ later = content b @ S"
    if "i < length (b # bs)" for i
  proof (cases i)
    case 0
    then show ?thesis by simp
  next
    case (Suc j)
    then have "j < length bs" using that by simp
    then obtain later where "concat (map (taken cb) (take j bs)) @ content (bs ! j) @ later = content (cb b) @ S"
      using assms(1) unfolding delivers_def by blast
    then show ?thesis unfolding S Suc by (intro exI [of _ later]) simp
  qed
  moreover have "concat (map (taken cb) (butlast (b # bs))) @ content (last (b # bs)) = content b @ S"
    using assms(1,3) S by (cases bs) (simp_all add: delivers_def)
  ultimately show ?thesis using assms(1) S by (simp add: delivers_def)
qed

lemma readFd_space_pos: "0 < readFd_space b"
  by (simp add: readFd_space_def extrabuf_size_def)

lemma onRead_loop_delivers:
  assumes "takes_front cb" and "buf_ok (message_buffer c)" and "reads c = map Inr ds" and "[] \<notin> set ds"
  shows "\<exists>c' bs. onRead_loop cb c t = Inr c' \<and> reads c' = [] \<and> closed c' = closed c
     \<and> seen c' = seen c @ map content bs \<and> (bs = []) = (ds = [])
     \<and> delivers cb bs (content (message_buffer c) @ concat ds) (content (message_buffer c'))"
  using assms(2-4)
proof (induction "avail (map Inr ds)" arbitrary: c ds rule: less_induct)
  case less
  let ?b = "message_buffer c"
  let ?n = "readFd_space ?b"
  show ?case
  proof (cases ds)
    case Nil
    then have "sys_readv (reads c) = (\<lambda>_. Inl EAGAIN)"
      using less.prems(2) by (simp add: sys_readv_def fun_eq_iff)
    then have r: "readFd (sys_readv (reads c)) ?b = Some (-1, Some EAGAIN, ?b)"
      by (simp add: readFd_def)
    have "onRead_loop cb c t = Inr (c\<lparr>reads := after_readv (reads c) ?n\<rparr>)"
      unfolding onRead_loop.simps [of cb c] r by (simp add: retryable_def Let_def)
    then show ?thesis using Nil less.prems(2) by (simp add: after_readv_def delivers_def)
  next
    case (Cons d ds')
    then have d: "d \<noteq> []" "sys_readv (reads c) ?n = Inr (take ?n d)"
      using less.prems by (auto simp: sys_readv_def)
    define ds2 where "ds2 = (if length d \<le> ?n then ds' else drop ?n d # ds')"
    have after: "after_readv (reads c) ?n = map Inr ds2"
      using less.prems(2) Cons by (simp add: after_readv_def ds2_def)
    have ds2: "take ?n d @ concat ds2 = concat ds" "[] \<notin> set ds2"
      "avail (map Inr ds2) < avail (map Inr ds)"
      using Cons less.prems(3) readFd_space_pos [of ?b] by (auto simp: ds2_def avail_def)
    obtain b where b: "readFd (sys_readv (reads c)) ?b = Some (int (length (take ?n d)), None, b)"
        "buf_ok b" "content b = content ?b @ take ?n d"
      using readFd_data [of ?b "sys_readv (reads c)" "take ?n d"] d(2) less.prems(1) by blast
    have pos: "0 < length (take ?n d)" using d(1) readFd_space_pos [of ?b] by (cases d) auto
    let ?c2 = "c\<lparr>reads := map Inr ds2, message_buffer := cb b, seen := seen c @ [content b]\<rparr>"
    have cb: "buf_ok (cb b)" using assms(1) b(2) by (simp add: takes_front_def)
    have step: "onRead_loop cb c t = onRead_loop cb ?c2 t"
      unfolding onRead_loop.simps [of cb c] b(1) using pos by (simp add: Let_def after)
    have "\<exists>c' bs. onRead_loop cb ?c2 t = Inr c' \<and> reads c' = [] \<and> closed c' = closed ?c2
        \<and> seen c' = seen ?c2 @ map content bs \<and> (bs = []) = (ds2 = [])
        \<and> delivers cb bs (content (message_buffer ?c2) @ concat ds2) (content (message_buffer c'))"
      using ds2(2,3) cb by (intro less.hyps) simp_all
    then obtain c' bs where c': "onRead_loop cb c t = Inr c'" "reads c' = []" "closed c' = closed c"
        "seen c' = seen c @ map content (b # bs)" "bs = [] \<Longrightarrow> concat ds2 = []"
        "delivers cb bs (content (cb b) @ concat ds2) (content (message_buffer c'))"
      unfolding step by auto
    have "delivers cb (b # bs) (content ?b @ concat ds) (content (message_buffer c'))"
      using delivers_Cons [OF c'(6) taken_rest [OF assms(1) b(2)] c'(5)] b(3) ds2(1) by simp
    with c'(1-4) Cons show ?thesis by (intro exI [of _ c'] exI [of _ "b # bs"]) simp
  qed
qed

text \<open>
  C15. \<open>onRead\<close> delivers the stream: with a message callback that takes bytes from the front of the buffer, and
  may leave what it likes, every call of it finds exactly what has come in and has not been taken before, the last one all data
  that waited in the socket, however the reads cut it; what was taken and what stays make up the
  stream, so that every byte is taken at most once and in order; the call returns when the
  socket has nothing more, and the connection stays open.
\<close>

theorem onRead_delivers_stream:
  assumes "takes_front cb" and "\<not> closed c" and "buf_ok (message_buffer c)"
    and "reads c = map Inr ds" and "[] \<notin> set ds"
  shows "\<exists>c' bs. onRead cb c t = Inr c' \<and> reads c' = [] \<and> \<not> closed c'
     \<and> seen c' = seen c @ map content bs \<and> (bs = []) = (ds = [])
     \<and> delivers cb bs (content (message_buffer c) @ concat ds) (content (message_buffer c'))"
  using onRead_loop_delivers [of cb "extendLife c" ds t] assms by (auto simp: onRead_def)

text \<open>With a callback that takes one byte at each call.\<close>

definition one_byte :: "msgbuffer \<Rightarrow> msgbuffer" where
  "one_byte b = the (retrieve b (min 1 (readableBytes b)))"

theorem onRead_delivers_stream_witness:
  "\<exists>c' bs. onRead one_byte (sample_conn [] [Inr [1, 2], Inr [3]]) 1 = Inr c' \<and> seen c' = map content bs \<and> bs \<noteq> []
     \<and> concat (map (taken one_byte) (butlast bs)) @ content (last bs) = [1, 2, 3]"
proof -
  have "takes_front one_byte"
    unfolding takes_front_def one_byte_def
  proof (intro allI impI)
    fix b
    assume "buf_ok b"
    from retrieve_ok [OF this, of "min 1 (readableBytes b)"]
    show "buf_ok (the (retrieve b (min 1 (readableBytes b))))
        \<and> (\<exists>k. content (the (retrieve b (min 1 (readableBytes b)))) = drop k (content b))" by auto
  qed
  from onRead_delivers_stream [OF this, of "sample_conn [] [Inr [1, 2], Inr [3]]" "[[1, 2], [3]]" 1]
  show ?thesis by (auto simp: delivers_def)
qed

subsection \<open>Properties: idle time\<close>

fun idle_ticks :: "tcp_connection \<Rightarrow> nat \<Rightarrow> nat \<Rightarrow> conn_error + tcp_connection" where
  "idle_ticks c t 0 = Inr c"
| "idle_ticks c t (Suc n) = (case idle_tick c t of Inl e \<Rightarrow> Inl e | Inr c' \<Rightarrow> idle_ticks c' t n)"

text \<open>A connection that sees traffic again after each of the given numbers of seconds.\<close>

fun traffic :: "tcp_connection \<Rightarrow> nat \<Rightarrow> nat list \<Rightarrow> conn_error + tcp_connection" where
  "traffic c t [] = Inr c"
| "traffic c t (n # ns) =
     (case idle_ticks (extendLife c) t n of Inl e \<Rightarrow> Inl e | Inr c' \<Rightarrow> traffic c' t ns)"

text \<open>An open connection, supervised with limit \<open>d\<close>, that times out in \<open>k\<close> seconds.\<close>

definition idle_left :: "tcp_connection \<Rightarrow> entry \<Rightarrow> nat \<Rightarrow> nat \<Rightarrow> bool" where
  "idle_left c e d k \<longleftrightarrow> tw_inv (timing (lp c)) \<and> timeout_entry c = Some e
     \<and> short_lived (timing (lp c)) e \<and> sint (max_idle_ms c) = int d \<and> 0 < d \<and> d < 60 \<and> 0 < k \<and> k \<le> d
     \<and> k - 1 \<in> occ (timing (lp c)) kTimingTypeSecond e
     \<and> (\<forall>i \<in> occ (timing (lp c)) kTimingTypeSecond e. i < k)
     \<and> \<not> closed c \<and> registered (lp c) (event_id c)"

lemma idle_left_tick:
  assumes "idle_left c e d (Suc k)"
  shows "\<exists>tw. advance (timing (lp c)) = Some tw \<and> tw_inv tw \<and> short_lived tw e
     \<and> occ tw kTimingTypeSecond e = {i. Suc i \<in> occ (timing (lp c)) kTimingTypeSecond e}
     \<and> (count_list (fired (timing (lp c))) e < count_list (fired tw) e \<longleftrightarrow> k = 0)"
proof -
  let ?tw = "timing (lp c)"
  have c: "tw_inv ?tw" "short_lived ?tw e" "k \<in> occ ?tw kTimingTypeSecond e"
      "\<forall>i \<in> occ ?tw kTimingTypeSecond e. i < Suc k"
    using assms by (simp_all add: idle_left_def)
  from second_wheel.step_ok [OF c(1,2)] obtain tw where tw: "advance ?tw = Some tw" "tw_inv tw"
      "short_lived tw e" "occ tw kTimingTypeSecond e = {i. Suc i \<in> occ ?tw kTimingTypeSecond e}"
      "count_list (fired tw) e = count_list (fired ?tw) e
        + (if occ ?tw kTimingTypeSecond e \<noteq> {} \<and> occ tw kTimingTypeSecond e = {} then 1 else 0)"
    by blast
  have "occ tw kTimingTypeSecond e = {} \<longleftrightarrow> k = 0"
  proof
    assume "occ tw kTimingTypeSecond e = {}"
    with tw(4) c(3) show "k = 0" by (cases k) auto
  next
    assume "k = 0"
    with tw(4) c(4) show "occ tw kTimingTypeSecond e = {}" by auto
  qed
  moreover have "occ ?tw kTimingTypeSecond e \<noteq> {}" using c(3) by auto
  ultimately have "count_list (fired ?tw) e < count_list (fired tw) e \<longleftrightarrow> k = 0"
    using tw(5) by simp
  with tw show ?thesis by blast
qed

lemma idle_step:
  assumes "idle_left c e d (Suc (Suc k))"
  shows "\<exists>c'. idle_tick c t = Inr c' \<and> idle_left c' e d (Suc k) \<and> owner (lp c') = owner (lp c)"
proof -
  from idle_left_tick [OF assms] obtain tw where tw: "advance (timing (lp c)) = Some tw" "tw_inv tw"
      "short_lived tw e" "occ tw kTimingTypeSecond e = {i. Suc i \<in> occ (timing (lp c)) kTimingTypeSecond e}"
      "\<not> count_list (fired (timing (lp c))) e < count_list (fired tw) e" by auto
  let ?c = "c\<lparr>lp := (lp c)\<lparr>timing := tw\<rparr>\<rparr>"
  have "idle_tick c t = Inr ?c"
    using tw(1,5) assms by (simp add: idle_tick_def idle_left_def)
  moreover have "idle_left ?c e d (Suc k)"
    using assms tw(2-4) by (auto simp: idle_left_def registered_def getFd_def)
  ultimately show ?thesis by (intro exI [of _ ?c]) simp
qed

lemma idle_last:
  assumes "idle_left c e d 1" and "t = owner (lp c)"
  shows "\<exists>c'. idle_tick c t = Inr c' \<and> closed c' \<and> holders c' = holders c"
proof -
  from idle_left_tick [of c e d 0] assms(1) obtain tw where tw: "advance (timing (lp c)) = Some tw"
      "count_list (fired (timing (lp c))) e < count_list (fired tw) e" by auto
  let ?c = "c\<lparr>lp := (lp c)\<lparr>timing := tw\<rparr>\<rparr>"
  have "idle_tick c t = timeout_destructor ?c t"
    using tw assms(1) by (simp add: idle_tick_def idle_left_def)
  moreover have "kept_alive ?c" "\<not> closed ?c"
    using assms(1) by (simp_all add: idle_left_def kept_alive_def registered_def getFd_def)
  ultimately show ?thesis
    using assms(2)
    by (auto simp: timeout_destructor_def onTimeout_def onClose_def onConnectionClose_def
        isInLoopThread_def kept_alive_def)
qed

lemma idle_extend:
  assumes "idle_left c e d k"
  shows "idle_left (extendLife c) e d d \<and> owner (lp (extendLife c)) = owner (lp c)"
proof -
  let ?tw = "timing (lp c)"
  have c: "tw_inv ?tw" "short_lived ?tw e" "0 < d" "d < 60" "k \<le> d" "timeout_entry c = Some e"
      "sint (max_idle_ms c) = int d" "\<forall>i \<in> occ ?tw kTimingTypeSecond e. i < k"
      "k - 1 \<in> occ ?tw kTimingTypeSecond e"
    using assms by (simp_all add: idle_left_def)
  have "held ?tw e" using held_short_lived [OF c(2)] c(9) by auto
  then have "extendLife c = c\<lparr>lp := (lp c)\<lparr>timing := insertEntry ?tw (int d) e\<rparr>\<rparr>"
    using c(6,7) by (simp add: extendLife_def)
  moreover note second_wheel.add_ok [OF c(1-4)]
  ultimately show ?thesis
    using assms c(5,8) by (auto simp: idle_left_def registered_def getFd_def)
qed

lemma idle_run:
  assumes "idle_left c e d k" and "n < k"
  shows "\<exists>c'. idle_ticks c t n = Inr c' \<and> idle_left c' e d (k - n) \<and> owner (lp c') = owner (lp c)"
  using assms
proof (induction n arbitrary: c k)
  case 0
  then show ?case by simp
next
  case (Suc n)
  have "k = Suc (Suc (k - 2))" using Suc.prems(2) by simp
  then obtain j where k: "k = Suc (Suc j)" ..
  from idle_step [of c e d j t] Suc.prems(1) k obtain c1 where c1: "idle_tick c t = Inr c1"
      "idle_left c1 e d (Suc j)" "owner (lp c1) = owner (lp c)" by blast
  have "n < Suc j" using Suc.prems(2) k by simp
  from Suc.IH [OF c1(2) this] obtain c2 where "idle_ticks c1 t n = Inr c2"
      "idle_left c2 e d (Suc j - n)" "owner (lp c2) = owner (lp c1)" by blast
  with c1(1,3) k show ?case by (intro exI [of _ c2]) simp
qed

lemma idle_ticks_Suc:
  "idle_ticks c t (Suc n) = (case idle_ticks c t n of Inl e \<Rightarrow> Inl e | Inr c' \<Rightarrow> idle_tick c' t)"
proof (induction n arbitrary: c)
  case 0
  show ?case by (cases "idle_tick c t") simp_all
next
  case (Suc n)
  show ?case
  proof (cases "idle_tick c t")
    case (Inr c')
    then have "idle_ticks c t (Suc m) = idle_ticks c' t m" for m by simp
    with Suc [of c'] show ?thesis by metis
  qed simp
qed

text \<open>
  C19. The idle supervision is exact for limits of less than 60 seconds (longer ones run out early,
  \<open>minute_timer_fires_early\<close>). However often a connection saw traffic, as long as
  each pause was shorter than its limit of \<open>d\<close> seconds it is still open; and from the last
  traffic on it stays open for \<open>d - 1\<close> seconds of silence and is closed by the \<open>d\<close>-th, the
  timeout itself holding a reference, so that closing is safe.
\<close>

theorem idle_supervision_exact:
  assumes "idle_left c e d k" and "t = owner (lp c)" and "\<forall>n \<in> set pauses. n < d"
  shows "\<exists>c1. traffic c t pauses = Inr c1 \<and> \<not> closed c1
     \<and> (\<forall>n < d. \<exists>c2. idle_ticks (extendLife c1) t n = Inr c2 \<and> \<not> closed c2)
     \<and> (\<exists>c2. idle_ticks (extendLife c1) t d = Inr c2 \<and> closed c2)"
proof -
  have "\<exists>c1 k1. traffic c t pauses = Inr c1 \<and> idle_left c1 e d k1 \<and> owner (lp c1) = owner (lp c)"
    using assms(1,3)
  proof (induction pauses arbitrary: c k)
    case Nil
    then show ?case by auto
  next
    case (Cons n ns)
    note ex = idle_extend [OF Cons.prems(1)]
    from idle_run [OF conjunct1 [OF ex], of n t] Cons.prems(2) obtain c1 where
      c1: "idle_ticks (extendLife c) t n = Inr c1" "idle_left c1 e d (d - n)"
        "owner (lp c1) = owner (lp c)" using ex by auto
    from Cons.IH [OF c1(2)] Cons.prems(2) c1 show ?case by auto
  qed
  then obtain c1 k1 where c1: "traffic c t pauses = Inr c1" "idle_left c1 e d k1"
      "owner (lp c1) = owner (lp c)" by blast
  note ex = idle_extend [OF c1(2)]
  have before: "\<exists>c2. idle_ticks (extendLife c1) t n = Inr c2 \<and> idle_left c2 e d (d - n)
      \<and> owner (lp c2) = owner (lp c)" if "n < d" for n
    using idle_run [OF conjunct1 [OF ex] that, of t] ex c1(3) by auto
  have "0 < d" using assms(1) by (simp add: idle_left_def)
  then obtain m where m: "d = Suc m" by (cases d) auto
  from before [of m] m obtain c2 where c2: "idle_ticks (extendLife c1) t m = Inr c2"
      "idle_left c2 e d 1" "owner (lp c2) = owner (lp c)" by auto
  from idle_last [OF c2(2), of t] c2(3) assms(2) obtain c3 where "idle_tick c2 t = Inr c3" "closed c3"
    by auto
  with c2(1) have "\<exists>c2. idle_ticks (extendLife c1) t d = Inr c2 \<and> closed c2"
    unfolding m idle_ticks_Suc by simp
  moreover have "\<forall>n < d. \<exists>c2. idle_ticks (extendLife c1) t n = Inr c2 \<and> \<not> closed c2"
    using before by (fastforce simp: idle_left_def)
  moreover have "\<not> closed c1" using c1(2) by (simp add: idle_left_def)
  ultimately show ?thesis using c1(1) by blast
qed


text \<open>
  A new connection is registered, belongs to the server, and is supervised with a limit of
  30 seconds; the timers that run already are left alone.
\<close>

lemma onAccept_ok:
  fixes l :: event_loop and f :: int and ev :: nat
  assumes "tw_inv (timing l)" and "events l f = None" and "t = owner l"
  defines "e \<equiv> Entry (next_id (timing l)) (Idle ev)"
  defines "tw \<equiv> (timing l)\<lparr>next_id := Suc (next_id (timing l))\<rparr>"
  shows "\<exists>c. onAccept l t fresh ev f m ws rs = Inr c \<and> idle_left c e 30 30
     \<and> lp c = (addEvent (new_Event l ev f) ev)\<lparr>timing := insertEntry tw 30 e\<rparr>
     \<and> event_id c = ev \<and> in_server c \<and> close_cb c \<and> holders c = 0
     \<and> writes c = ws \<and> reads c = rs \<and> io_vec_list c = []
     \<and> wire c = [] \<and> message_buffer c = new_MsgBuffer kInitialSize"
proof -
  let ?l = "addEvent (new_Event l ev f) ev"
  have tw: "tw_inv tw" using alloc_inv [OF assms(1)] by (simp add: tw_def)
  have none: "occ tw w e = {}" for w
    using fresh_entry(1) [OF assms(1), of e] by (simp add: tw_def e_def)
  have sl: "short_lived tw e" using none by (simp add: short_lived_def) (simp add: tw_def e_def)
  have ok: "tw_inv (insertEntry tw 30 e)" "short_lived (insertEntry tw 30 e) e"
      "occ (insertEntry tw 30 e) kTimingTypeSecond e = {29}"
    using second_wheel.add_ok [OF tw sl, of 30] none by simp_all
  have h: "held (insertEntry tw 30 e) e" using held_short_lived [OF ok(2)] ok(3) by simp
  have r: "registered ?l ev"
    using assms(2) by (simp add: registered_def addEvent_def getFd_def Let_def new_Event_def)
  let ?l1 = "?l\<lparr>timing := insertEntry tw 30 e\<rparr>"
  have "registered ?l1 ev" using r by (simp add: registered_def getFd_def)
  with h ok assms(3) show ?thesis
    by (simp add: onAccept_def new_TcpConnection_def enableCheckIdleTime_def loop_insertEntry_def isInLoopThread_def
        idle_left_def Let_def tw_def e_def)
qed

theorem idle_supervision_exact_witness:
  "\<exists>c c1. onAccept sample_loop 1 (0, 6) 0 5 ucast [] [] = Inr c
     \<and> traffic c 1 [29, 0, 29] = Inr c1 \<and> \<not> closed c1
     \<and> (\<exists>c2. idle_ticks (extendLife c1) 1 30 = Inr c2 \<and> closed c2)"
proof -
  from onAccept_ok [of sample_loop 5 1 "(0, 6)" 0 ucast "[]" "[]"] new_TimingWheel_inv
  obtain c e where c: "onAccept sample_loop 1 (0, 6) 0 5 ucast [] [] = Inr c" "idle_left c e 30 30"
      "owner (lp c) = owner sample_loop"
    by (force simp: sample_loop)
  then have t: "1 = owner (lp c)" by (simp add: sample_loop)
  from idle_supervision_exact [OF c(2) t, of "[29, 0, 29]"] c(1) show ?thesis by auto
qed

subsection \<open>User timeouts\<close>

text \<open>
  \<open>setTimeout\<close> hands the loop a timer. Its closure holds references to \<open>conn\<close>, a local variable of
  \<open>setTimeout\<close>, so it can be called while \<open>setTimeout\<close> runs and not once it has \<open>returned\<close>.
\<close>

definition setTimeout ::
    "tcp_connection \<Rightarrow> nat \<Rightarrow> nat \<times> int \<Rightarrow> u32 \<Rightarrow> nat \<Rightarrow> conn_error + tcp_connection" where
  "setTimeout c t fresh timeout f =
     (case loop_runAfter (lp c) t fresh (sint timeout) f of
        None \<Rightarrow> Inl Diverges
      | Some l \<Rightarrow> Inr (c\<lparr>lp := l\<rparr>))"

definition timeout_closure ::
    "bool \<Rightarrow> (tcp_connection \<Rightarrow> tcp_connection) \<Rightarrow> tcp_connection \<Rightarrow> conn_error + tcp_connection" where
  "timeout_closure returned cb c = (if returned then Inl UseAfterFree else Inr (cb c))"

text \<open>
  For a delay the wheel covers, \<open>setTimeout\<close> returns with the timer in the wheel and not fired: its
  closure, which will run when the wheel drops the entry, runs with dangling references.
\<close>

lemma setTimeout_outlives_its_variables:
  assumes "tw_inv (timing (lp c))" and "t = owner (lp c)" and "valid_delay (sint timeout)"
  shows "\<exists>c'. setTimeout c t fresh timeout f = Inr c'
     \<and> held (timing (lp c')) (Entry (next_id (timing (lp c))) (Once f))
     \<and> fired (timing (lp c')) = fired (timing (lp c)) \<and> timeout_closure True cb c' = Inl UseAfterFree"
  using runAfter_valid [OF assms(1,3), of f] assms(2,3)
  by (auto simp: setTimeout_def loop_runAfter_def isInLoopThread_def held_insertEntry timeout_closure_def)

end
