(* ===== verification/TcpClient.thy ===== *)
theory TcpClient
  imports TcpConnection
begin

text \<open>
  The client side connection of \<open>src/network/TcpClient.h\<close> and \<open>TcpClient.cpp\<close>, on top of
  \<open>TcpConnection\<close>. The results of creating the socket, of \<open>connect\<close> and of the socket's
  error option are inputs. The connection callback is logged in \<open>notified\<close>;
  \<open>connects\<close> counts the closures of \<open>connect\<close> that wait in the loop's queue. \<open>close_told\<close> says
  whether the user set a close callback; \<open>closings\<close> counts its calls. The close callback of a server,
  \<open>close_cb\<close> of the base class, is one that no client has.
\<close>

subsection \<open>State\<close>

datatype conn_status =
    kTcpConnStatusInit | kTcpConnStatusConnecting | kTcpConnStatusConnected
  | kTcpConnStatusDisconnected

record tcp_client =
  conn :: tcp_connection
  status :: conn_status
  notified :: "bool list"
  close_told :: bool
  closings :: nat
  connects :: nat

definition EINPROGRESS :: int where
  "EINPROGRESS = 115"

definition new_TcpClient ::
    "event_loop \<Rightarrow> nat \<Rightarrow> (addr \<Rightarrow> byte) \<Rightarrow> io_result list \<Rightarrow> (int + bytes) list \<Rightarrow> tcp_client" where
  "new_TcpClient l ev m ws rs =
     \<lparr>conn = new_TcpConnection l ev (-1) m ws rs, status = kTcpConnStatusInit, notified = [],
      close_told = False, closings = 0, connects = 0\<rparr>"

definition client_setCloseCallback :: "tcp_client \<Rightarrow> tcp_client" where
  "client_setCloseCallback c = c\<lparr>close_told := True\<rparr>"

text \<open>
  An operation of the base class, lifted to the client. If it closes the connection, the user's close
  callback is called.
\<close>

definition on_conn ::
    "tcp_client \<Rightarrow> (tcp_connection \<Rightarrow> conn_error + tcp_connection) \<Rightarrow> conn_error + tcp_client" where
  "on_conn c f =
     (case f (conn c) of
        Inl e \<Rightarrow> Inl e
      | Inr k \<Rightarrow> Inr (c\<lparr>conn := k,
          closings := (if closed k \<and> \<not> closed (conn c) \<and> close_told c then Suc (closings c) else closings c)\<rparr>))"

definition updateConnectionStatus :: "tcp_client \<Rightarrow> tcp_client" where
  "updateConnectionStatus c = c\<lparr>status := kTcpConnStatusConnected, notified := notified c @ [True]\<rparr>"

definition client_onClose :: "tcp_client \<Rightarrow> nat \<Rightarrow> conn_error + tcp_client" where
  "client_onClose c t =
     on_conn (c\<lparr>status := kTcpConnStatusDisconnected\<rparr>) (\<lambda>k. onClose k t)"

text \<open>
  An operation of the base class that may call the virtual \<open>onClose\<close>: if it closed the
  connection, it went through the client's \<open>onClose\<close>, which sets the status.
\<close>

definition on_conn_virtual ::
    "tcp_client \<Rightarrow> (tcp_connection \<Rightarrow> conn_error + tcp_connection) \<Rightarrow> conn_error + tcp_client" where
  "on_conn_virtual c f =
     (case on_conn c f of
        Inl e \<Rightarrow> Inl e
      | Inr c1 \<Rightarrow> Inr (c1\<lparr>
          status := (if closed (conn c1) \<and> \<not> closed (conn c) then kTcpConnStatusDisconnected else status c)\<rparr>))"

definition client_onError :: "tcp_client \<Rightarrow> nat \<Rightarrow> conn_error + tcp_client" where
  "client_onError c t = on_conn_virtual c (\<lambda>k. onError k t)"

text \<open>
  \<open>sock\<close> is the new descriptor, negative when creating it failed, \<open>ret\<close> and \<open>err\<close> the
  result of \<open>connect\<close> and the error number.
\<close>

definition connectInLoop ::
    "tcp_client \<Rightarrow> nat \<Rightarrow> int \<Rightarrow> int \<Rightarrow> int \<Rightarrow> conn_error + tcp_client" where
  "connectInLoop c t sock ret err =
     (if \<not> isInLoopThread (lp (conn c)) t then Inl WrongThread
      else
        let k = conn c;
            l1 = setFd (lp k) (event_id k) sock;
            c1 = c\<lparr>conn := k\<lparr>lp := l1\<rparr>\<rparr>
        in if sock < 0 then client_onClose c1 t
           else
             let k2 = enableWriting (k\<lparr>lp := addEvent l1 (event_id k)\<rparr>) True;
                 c2 = c\<lparr>status := kTcpConnStatusConnecting, conn := k2\<rparr>
             in if ret = 0 then Inr (updateConnectionStatus c2)
                else if ret = -1 \<and> err \<noteq> EINPROGRESS then client_onClose c2 t
                else Inr c2)"

text \<open>\<open>connect\<close> connects in the loop's thread, at once or by a closure; \<open>fresh\<close> as in \<open>runInLoop\<close>.\<close>

definition client_connect ::
    "tcp_client \<Rightarrow> nat \<Rightarrow> nat \<times> int \<Rightarrow> int \<Rightarrow> int \<Rightarrow> int \<Rightarrow> conn_error + tcp_client" where
  "client_connect c t fresh sock ret err =
     (if isInLoopThread (lp (conn c)) t then connectInLoop c t sock ret err
      else let l = lp (conn c)
           in Inr (c\<lparr>connects := Suc (connects c),
                conn := (conn c)\<lparr>lp := weakup (l\<lparr>queue := queue l @ [UserTask (connects c)]\<rparr>)
                          (fst fresh) (snd fresh)\<rparr>\<rparr>))"

definition client_run_connect :: "tcp_client \<Rightarrow> int \<Rightarrow> int \<Rightarrow> int \<Rightarrow> conn_error + tcp_client" where
  "client_run_connect c sock ret err =
     (if connects c = 0 then Inr c
      else connectInLoop (c\<lparr>connects := connects c - 1\<rparr>) (owner (lp (conn c))) sock ret err)"

text \<open>\<open>checkError\<close> reads the socket's error option \<open>so_error\<close>.\<close>

definition checkError :: "int \<Rightarrow> bool" where
  "checkError so_error = (so_error \<noteq> 0)"

definition client_onRead ::
    "(msgbuffer \<Rightarrow> msgbuffer) \<Rightarrow> int \<Rightarrow> tcp_client \<Rightarrow> nat \<Rightarrow> conn_error + tcp_client" where
  "client_onRead cb so_error c t =
     (if status c = kTcpConnStatusConnecting then
        if checkError so_error then client_onClose c t else Inr (updateConnectionStatus c)
      else if status c = kTcpConnStatusConnected then on_conn_virtual c (\<lambda>k. onRead cb k t)
      else Inr c)"

definition client_onWrite :: "int \<Rightarrow> tcp_client \<Rightarrow> nat \<Rightarrow> conn_error + tcp_client" where
  "client_onWrite so_error c t =
     (if status c = kTcpConnStatusConnecting then
        if checkError so_error then client_onClose c t else Inr (updateConnectionStatus c)
      else if status c = kTcpConnStatusConnected then on_conn_virtual c (\<lambda>k. onWrite k t)
      else Inr c)"

definition client_send_nodes ::
    "tcp_client \<Rightarrow> nat \<Rightarrow> nat \<times> int \<Rightarrow> (addr \<times> u64) list \<Rightarrow> tcp_client" where
  "client_send_nodes c t fresh nodes =
     (if status c = kTcpConnStatusConnected then c\<lparr>conn := send_nodes (conn c) t fresh nodes\<rparr> else c)"

text \<open>The overload for a buffer does not look at the buffer.\<close>

definition client_send :: "tcp_client \<Rightarrow> nat \<Rightarrow> addr \<Rightarrow> u64 \<Rightarrow> conn_error + tcp_client" where
  "client_send c t buf len =
     (let c1 = (if status c = kTcpConnStatusConnected
                then c\<lparr>conn := (conn c)\<lparr>lp := removeEvent (lp (conn c)) (event_id (conn c))\<rparr>\<rparr>
                else c)
      in on_conn (c1\<lparr>status := kTcpConnStatusConnected\<rparr>) (\<lambda>k. onClose k t))"

subsection \<open>Properties\<close>

text \<open>
  Sending a buffer through a client closes the connection: on an open, connected client
  in the loop's thread not one byte is written or queued, the descriptor is closed and no
  longer watched, and the client still says it is connected.
\<close>

lemma client_send_closes:
  assumes "epoll_laws ctl" and "reg_inv ctl (lp (conn c))" and "registered (lp (conn c)) (event_id (conn c))"
    and "status c = kTcpConnStatusConnected" and "\<not> closed (conn c)" and "\<not> close_cb (conn c)"
    and "t = owner (lp (conn c))" and "getFd (lp (conn c)) (event_id (conn c)) \<noteq> -1"
  shows "\<exists>c'. client_send c t buf len = Inr c' \<and> closed (conn c') \<and> status c' = kTcpConnStatusConnected
     \<and> wire (conn c') = wire (conn c) \<and> io_vec_list (conn c') = io_vec_list (conn c)
     \<and> getFd (lp (conn c')) (event_id (conn c)) = -1
     \<and> watched ctl (lp (conn c')) (getFd (lp (conn c)) (event_id (conn c))) = None"
proof -
  let ?k = "conn c"
  let ?f = "getFd (lp ?k) (event_id ?k)"
  let ?l = "removeEvent (lp ?k) (event_id ?k)"
  have ri: "reg_inv ctl ?l" by (rule removeEvent_reg [OF assms(1,2)])
  have "events ?l ?f = None" by (simp add: removeEvent_frame(5) [OF assms(3)])
  then have w: "watched ctl ?l ?f = None" by (rule reg_invD(1) [OF ri])
  have f: "getFd ?l (event_id ?k) = ?f" by (simp add: removeEvent_frame)
  have "watched ctl (close_event ?l (event_id ?k)) ?f = None"
    using f assms(8) epoll_lawsD(4) [OF assms(1)] by (simp add: close_event_def Let_def)
  moreover have "getFd (close_event ?l (event_id ?k)) (event_id ?k) = -1"
    by (simp add: close_event_def Let_def getFd_def)
  ultimately show ?thesis
    using assms(4-7)
    by (simp add: client_send_def on_conn_def onClose_def isInLoopThread_def removeEvent_frame Let_def)
qed

definition sample_client :: tcp_client where
  "sample_client = \<lparr>conn = (sample_conn [] [])\<lparr>close_cb := False\<rparr>, status = kTcpConnStatusConnected,
     notified = [True], close_told = False, closings = 0, connects = 0\<rparr>"

lemma client_send_closes_witness:
  "\<exists>c'. client_send sample_client 1 7 4 = Inr c' \<and> closed (conn c') \<and> wire (conn c') = []"
  using client_send_closes [OF sample_ctl_laws, of sample_client 1 7 4] sample_conn_loop
  by (auto simp: sample_client_def)

subsection \<open>Connecting\<close>

lemma connect_registers:
  assumes "epoll_laws ctl" and "reg_inv ctl l" and "\<forall>g. events l g \<noteq> Some ev" and "events l f = None" and "0 \<le> f"
  defines "l2 \<equiv> enableEventWriting (addEvent (setFd l ev f) ev) ev True"
  shows "reg_inv ctl l2" and "events l2 = (events l)(f \<mapsto> ev)" and "getFd l2 ev = f" and "owner l2 = owner l"
    and "watched ctl l2 = (watched ctl l)(f \<mapsto> kEventRead OR kEventWrite)"
proof -
  let ?l1 = "addEvent (setFd l ev f) ev"
  have r1: "reg_inv ctl ?l1"
    using addEvent_reg [OF assms(1) setFd_reg [OF assms(2,3)]] assms(3,5) by simp
  have w: "watched ctl l f = None" by (rule reg_invD(1) [OF assms(2,4)])
  have l1: "events ?l1 = (events l)(f \<mapsto> ev)" "getFd ?l1 ev = f" "getEvents ?l1 ev = kEventRead"
      "watched ctl ?l1 = (watched ctl l)(f \<mapsto> kEventRead)"
    using assms(4,5) epoll_lawsD(1) [OF assms(1), of f "watched ctl l" kEventRead] w
    by (simp_all add: addEvent_def Let_def getEvents_def getFd_def setFd_def fun_eq_iff)
  show "reg_inv ctl l2"
    unfolding l2_def using l1(1,2) by (intro enableEventWriting_reg [OF assms(1) r1]) simp
  show "events l2 = (events l)(f \<mapsto> ev)" "getFd l2 ev = f" "owner l2 = owner l"
    using l1(1,2) by (simp_all add: l2_def enableEventWriting_frame)
  show "watched ctl l2 = (watched ctl l)(f \<mapsto> kEventRead OR kEventWrite)"
    using l1 epoll_lawsD(2) [OF assms(1), of "watched ctl ?l1" f kEventRead]
    by (simp add: l2_def enableEventWriting_def Let_def getEvents_def fun_eq_iff)
qed

text \<open>
  C29. What a connection attempt ends in, for a client that was not closed before. While the
  attempt is under way the kernel watches the socket for reading and writing. The first event on
  it decides. Readable or writable, without an error on the socket, the client is connected
  and the connection callback is called once; with an error, or when the loop reports an error or a hang-up, as after a
  refused call of \<open>connect\<close>, the client is disconnected, the connection callback is not called, the close callback
  is called once if there is one, the descriptor is closed and no longer watched, and the
  loop's table still names the client under the number of the closed descriptor. When no socket can be made the client is
  disconnected and closed in the same way, and the table stays as it was.
\<close>

theorem connect_outcome:
  assumes "epoll_laws ctl" and "reg_inv ctl (lp (conn c))" and "\<forall>g. events (lp (conn c)) g \<noteq> Some (event_id (conn c))"
    and "events (lp (conn c)) sock = None" and "0 \<le> sock" and "t = owner (lp (conn c))"
    and "\<not> closed (conn c)" and "\<not> close_cb (conn c)" and "e \<noteq> 0" and "err \<noteq> EINPROGRESS"
  defines "watching k m \<equiv> events (lp (conn k)) sock = Some (event_id (conn c)) \<and> watched ctl (lp (conn k)) sock = m"
    and "ended k \<equiv> status k = kTcpConnStatusDisconnected \<and> notified k = notified c \<and> closed (conn k)
       \<and> closings k = closings c + (if close_told c then 1 else 0) \<and> getFd (lp (conn k)) (event_id (conn c)) = -1"
  shows "\<exists>c1 up down none. client_connect c t fresh sock (-1) EINPROGRESS = Inr c1
     \<and> status c1 = kTcpConnStatusConnecting \<and> notified c1 = notified c
     \<and> watching c1 (Some (kEventRead OR kEventWrite))
     \<and> client_onWrite 0 c1 t = Inr up \<and> client_onRead cb 0 c1 t = Inr up
     \<and> client_connect c t fresh sock 0 0 = Inr up
     \<and> status up = kTcpConnStatusConnected \<and> notified up = notified c @ [True] \<and> closings up = closings c
     \<and> watching up (Some (kEventRead OR kEventWrite))
     \<and> client_onWrite e c1 t = Inr down \<and> client_onRead cb e c1 t = Inr down
     \<and> client_onError c1 t = Inr down \<and> client_onClose c1 t = Inr down
     \<and> client_connect c t fresh sock (-1) err = Inr down \<and> ended down \<and> watching down None
     \<and> client_connect c t fresh (-1) ret err = Inr none \<and> ended none
     \<and> events (lp (conn none)) = events (lp (conn c)) \<and> watched ctl (lp (conn none)) = watched ctl (lp (conn c))"
proof -
  let ?k = "conn c" and ?n = "closings c + (if close_told c then 1 else 0)"
  let ?l = "enableEventWriting (addEvent (setFd (lp ?k) (event_id ?k) sock) (event_id ?k)) (event_id ?k) True"
  let ?c1 = "c\<lparr>status := kTcpConnStatusConnecting, conn := ?k\<lparr>lp := ?l\<rparr>\<rparr>"
  let ?down = "?c1\<lparr>status := kTcpConnStatusDisconnected,
      conn := ?k\<lparr>lp := close_event ?l (event_id ?k), closed := True\<rparr>, closings := ?n\<rparr>"
  let ?none = "c\<lparr>status := kTcpConnStatusDisconnected,
      conn := ?k\<lparr>lp := setFd (lp ?k) (event_id ?k) (-1), closed := True\<rparr>, closings := ?n\<rparr>"
  note l = connect_registers [OF assms(1-5)]
  have down: "client_onClose ?c1 t = Inr ?down" "client_onError ?c1 t = Inr ?down"
    using assms(6-8)
    by (simp_all add: client_onClose_def client_onError_def on_conn_virtual_def on_conn_def onError_def onClose_def
        isInLoopThread_def l(4))
  have conn: "client_connect c t fresh sock (-1) EINPROGRESS = Inr ?c1"
      "client_connect c t fresh sock 0 0 = Inr (updateConnectionStatus ?c1)"
      "client_connect c t fresh sock (-1) err = client_onClose ?c1 t"
    using assms(5,6,10)
    by (simp_all add: client_connect_def connectInLoop_def isInLoopThread_def enableWriting_def Let_def)
  have none: "client_connect c t fresh (-1) ret err = Inr ?none"
    using assms(6-8)
    by (simp add: client_connect_def connectInLoop_def isInLoopThread_def Let_def client_onClose_def on_conn_def onClose_def
        close_event_def)
  have cl: "getFd (close_event ?l (event_id ?k)) (event_id ?k) = -1"
      "events (close_event ?l (event_id ?k)) = events ?l"
      "watched ctl (close_event ?l (event_id ?k)) sock = None"
    using l(3) assms(5) epoll_lawsD(4) [OF assms(1)]
    by (simp_all add: close_event_def Let_def getFd_def)
  have up: "client_onWrite 0 ?c1 t = Inr (updateConnectionStatus ?c1)"
      "client_onRead cb 0 ?c1 t = Inr (updateConnectionStatus ?c1)"
      "client_onWrite e ?c1 t = client_onClose ?c1 t" "client_onRead cb e ?c1 t = client_onClose ?c1 t"
    using assms(9) by (simp_all add: client_onWrite_def client_onRead_def checkError_def)
  show ?thesis
    using conn down up none l(2,5) cl
    by (intro exI [of _ ?c1] exI [of _ "updateConnectionStatus ?c1"] exI [of _ ?down] exI [of _ ?none])
      (simp add: watching_def ended_def updateConnectionStatus_def)
qed

definition fresh_client :: tcp_client where
  "fresh_client = client_setCloseCallback (new_TcpClient sample_loop 5 (\<lambda>_. 0) [] [])"

theorem connect_outcome_witness:
  "\<exists>c1 up down none. client_connect fresh_client 1 (0, 0) 7 (-1) EINPROGRESS = Inr c1
     \<and> client_onWrite 0 c1 1 = Inr up \<and> notified up = [True]
     \<and> client_onError c1 1 = Inr down \<and> notified down = [] \<and> closings down = 1 \<and> closed (conn down)
     \<and> client_connect fresh_client 1 (0, 0) (-1) 0 0 = Inr none \<and> closed (conn none)"
proof -
  have e: "events sample_loop = Map.empty" by (simp add: sample_loop_def new_EventLoop_def)
  then have "reg_inv sample_ctl (new_Event sample_loop 5 (-1))" "events (new_Event sample_loop 5 (-1)) = Map.empty"
    using new_Event_reg [OF new_EventLoop_reg [OF sample_loop(1)]] by simp_all
  then show ?thesis
    using connect_outcome [OF sample_ctl_laws, of fresh_client 7 1 111 0 "(0, 0)" id 0] sample_loop(2)
    by (auto simp: fresh_client_def client_setCloseCallback_def new_TcpClient_def new_TcpConnection_def EINPROGRESS_def)
qed

text \<open>
  A client that was closed and connects again is deaf: the user is told that it is connected, but
  \<open>closed_\<close> stays set, so nothing is read or written any more and closing it does nothing.
\<close>

lemma reconnected_tcp_client_is_deaf:
  assumes "closed (conn c)" and "t = owner (lp (conn c))" and "0 \<le> sock"
  shows "\<exists>c1. connectInLoop c t sock 0 0 = Inr c1 \<and> status c1 = kTcpConnStatusConnected
     \<and> notified c1 = notified c @ [True] \<and> getFd (lp (conn c1)) (event_id (conn c)) = sock
     \<and> client_onRead cb e c1 t = Inr c1 \<and> client_onWrite e c1 t = Inr c1
     \<and> (\<exists>c2. client_onClose c1 t = Inr c2 \<and> getFd (lp (conn c2)) (event_id (conn c)) = sock)"
proof -
  let ?ev = "event_id (conn c)"
  let ?l = "enableEventWriting (addEvent (setFd (lp (conn c)) ?ev sock) ?ev) ?ev True"
  let ?c1 = "updateConnectionStatus (c\<lparr>status := kTcpConnStatusConnecting, conn := (conn c)\<lparr>lp := ?l\<rparr>\<rparr>)"
  have "getFd (addEvent (setFd l ev sock) ev) ev = sock" for l ev
    by (simp add: addEvent_def getFd_def setFd_def Let_def split: option.splits)
  then have l: "getFd ?l ?ev = sock" "owner ?l = owner (lp (conn c))"
    by (simp_all add: enableEventWriting_frame)
  have "connectInLoop c t sock 0 0 = Inr ?c1"
    using assms(2,3) by (simp add: connectInLoop_def isInLoopThread_def enableWriting_def Let_def)
  then show ?thesis
    using assms(1,2) l
    by (intro exI [of _ ?c1]) (simp add: updateConnectionStatus_def client_onRead_def client_onWrite_def
        on_conn_virtual_def onRead_def onWrite_def client_onClose_def on_conn_def onClose_def isInLoopThread_def)
qed

end
