(* ===== verification/TextNumbers.thy ===== *)
theory TextNumbers
  imports Prelude
begin

text \<open>
  The conversions between numbers and text of the C++ library that the program uses:
  \<open>std::to_string\<close>, \<open>std::stoi\<close> and the zero-padded \<open>%0nd\<close> of \<open>snprintf\<close>. \<open>None\<close> is an
  exception of \<open>std::stoi\<close>.
\<close>

subsection \<open>Numbers as text\<close>

definition digit_char :: "nat \<Rightarrow> char" where
  "digit_char d = char_of (48 + d)"

definition is_digit :: "char \<Rightarrow> bool" where
  "is_digit c \<longleftrightarrow> 48 \<le> (of_char c :: nat) \<and> (of_char c :: nat) \<le> 57"

definition digit_value :: "char \<Rightarrow> nat" where
  "digit_value c = of_char c - 48"

text \<open>\<open>std::to_string\<close> of an unsigned number.\<close>

fun to_string :: "nat \<Rightarrow> string" where
  "to_string n = (if n < 10 then [digit_char n] else to_string (n div 10) @ [digit_char (n mod 10)])"

declare to_string.simps [simp del]

text \<open>White space in the C locale.\<close>

definition is_space :: "char \<Rightarrow> bool" where
  "is_space c \<longleftrightarrow> (of_char c :: nat) \<in> {9, 10, 11, 12, 13, 32}"

fun digits_value :: "nat \<Rightarrow> string \<Rightarrow> nat" where
  "digits_value acc [] = acc"
| "digits_value acc (c # s) =
     (if is_digit c then digits_value (10 * acc + digit_value c) s else acc)"

text \<open>
  \<open>std::stoi\<close>: white space, a sign, digits; what follows the digits is ignored. No digits,
  or a value outside \<open>int\<close>, throws.
\<close>

definition stoi :: "string \<Rightarrow> int option" where
  "stoi s =
     (let s1 = dropWhile is_space s;
          neg = (s1 \<noteq> [] \<and> hd s1 = CHR ''-'');
          s2 = (if s1 \<noteq> [] \<and> (hd s1 = CHR ''-'' \<or> hd s1 = CHR ''+'') then tl s1 else s1);
          v = (if neg then - int (digits_value 0 s2) else int (digits_value 0 s2))
      in if s2 = [] \<or> \<not> is_digit (hd s2) then None
         else if v < - (2 ^ 31) \<or> 2 ^ 31 \<le> v then None
         else Some v)"

text \<open>
  \<open>atoi\<close>: no digits give 0, a value outside \<open>int\<close> is undefined behaviour (\<open>None\<close>).
\<close>

definition atoi :: "string \<Rightarrow> int option" where
  "atoi s =
     (let s1 = dropWhile is_space s;
          neg = (s1 \<noteq> [] \<and> hd s1 = CHR ''-'');
          s2 = (if s1 \<noteq> [] \<and> (hd s1 = CHR ''-'' \<or> hd s1 = CHR ''+'') then tl s1 else s1);
          v = (if neg then - int (digits_value 0 s2) else int (digits_value 0 s2))
      in if v < - (2 ^ 31) \<or> 2 ^ 31 \<le> v then None
         else Some v)"

text \<open>\<open>snprintf\<close> with \<open>%0kd\<close>, of a number that is not negative.\<close>

definition pad :: "nat \<Rightarrow> nat \<Rightarrow> string" where
  "pad k n = replicate (k - length (to_string n)) (CHR ''0'') @ to_string n"

subsection \<open>Lemmas\<close>

lemma digit_char: "d < 10 \<Longrightarrow> is_digit (digit_char d) \<and> digit_value (digit_char d) = d"
  by (simp add: digit_char_def is_digit_def digit_value_def)

lemma to_string_digits: "list_all is_digit (to_string n)"
proof (induction n rule: to_string.induct)
  case (1 n)
  then show ?case by (simp add: to_string.simps [of n] digit_char)
qed

lemma to_string_nonempty: "to_string n \<noteq> []"
  by (simp add: to_string.simps [of n])

lemma digits_value_append:
  "list_all is_digit xs \<Longrightarrow> digits_value acc (xs @ ys) = digits_value (digits_value acc xs) ys"
  by (induction xs arbitrary: acc) auto

lemma digits_value_to_string: "digits_value 0 (to_string n) = n"
proof (induction n rule: to_string.induct)
  case (1 n)
  show ?case
  proof (cases "n < 10")
    case True
    then show ?thesis by (simp add: to_string.simps [of n] digit_char)
  next
    case False
    then have "digits_value 0 (to_string n)
        = digits_value (digits_value 0 (to_string (n div 10))) [digit_char (n mod 10)]"
      by (simp add: to_string.simps [of n] digits_value_append to_string_digits)
    also have "\<dots> = n" using 1 False by (simp add: digit_char)
    finally show ?thesis .
  qed
qed

lemma stoi_to_string:
  assumes "n < 2 ^ 31"
  shows "stoi (to_string n) = Some (int n)"
proof -
  obtain c s where cs: "to_string n = c # s" using to_string_nonempty by (cases "to_string n") auto
  have c: "is_digit c" using to_string_digits [of n] cs by simp
  then have "\<not> is_space c" "c \<noteq> CHR ''-''" "c \<noteq> CHR ''+''"
    by (auto simp: is_digit_def is_space_def)
  with c cs digits_value_to_string [of n] assms show ?thesis
    by (simp add: stoi_def Let_def)
qed

lemma atoi_stoi: "stoi s = Some v \<Longrightarrow> atoi s = Some v"
  by (auto simp: stoi_def atoi_def Let_def split: if_splits)

end
