(* ===== verification/InetAddress.thy ===== *)
theory InetAddress
  imports TextNumbers
begin

text \<open>
  Addresses of \<open>src/network/net/InetAddress.h\<close> and \<open>InetAddress.cpp\<close>: an address and a
  port, both kept as text, and their conversion from and to socket addresses.
  \<open>inet_pton\<close> and \<open>inet_ntop\<close> are parameters. \<open>None\<close> is an exception of \<open>std::stoi\<close>
  or undefined behaviour of \<open>atoi\<close>.
\<close>

subsection \<open>Addresses\<close>

record inet_address =
  ip :: string
  port :: string
  is_ipv6 :: bool

definition new_InetAddress :: "string \<Rightarrow> u16 \<Rightarrow> bool \<Rightarrow> inet_address" where
  "new_InetAddress i p v6 = \<lparr>ip = i, port = to_string (unat p), is_ipv6 = v6\<rparr>"

definition parse_InetAddress :: "string \<Rightarrow> bool \<Rightarrow> inet_address" where
  "parse_InetAddress host v6 =
     (case find_sub '':'' host of
        None \<Rightarrow> \<lparr>ip = host, port = '''', is_ipv6 = v6\<rparr>
      | Some pos \<Rightarrow> \<lparr>ip = take pos host, port = drop (pos + 1) host, is_ipv6 = v6\<rparr>)"

definition getIP :: "inet_address \<Rightarrow> string" where
  "getIP a = ip a"

definition getPort :: "inet_address \<Rightarrow> u16 option" where
  "getPort a = (if port a = [] then Some 0 else map_option word_of_int (stoi (port a)))"

definition toIpPort :: "inet_address \<Rightarrow> string" where
  "toIpPort a = ip a @ '':'' @ port a"

text \<open>
  \<open>pton\<close> is \<open>inet_pton(AF_INET, ...)\<close> followed by \<open>ntohl\<close>: the number an IPv4 literal
  denotes, \<open>None\<close> for any other text, which leaves the zeroed structure as it is.
\<close>

definition IPV4_of :: "(string \<Rightarrow> u32 option) \<Rightarrow> string \<Rightarrow> u32" where
  "IPV4_of pton s = (case pton s of None \<Rightarrow> 0 | Some a \<Rightarrow> a)"

definition IPV4 :: "(string \<Rightarrow> u32 option) \<Rightarrow> inet_address \<Rightarrow> u32" where
  "IPV4 pton a = IPV4_of pton (ip a)"

definition isIPv6 :: "inet_address \<Rightarrow> bool" where
  "isIPv6 a = is_ipv6 a"

definition isIPv4 :: "inet_address \<Rightarrow> bool" where
  "isIPv4 a = (\<not> is_ipv6 a)"

definition isLoopbackIP :: "inet_address \<Rightarrow> bool" where
  "isLoopbackIP a \<longleftrightarrow> ip a = ''127.0.0.1'' \<or> ip a = ''::1''"

definition INADDR_LOOPBACK :: u32 where
  "INADDR_LOOPBACK = 0x7F000001"

definition isWanIP :: "(string \<Rightarrow> u32 option) \<Rightarrow> inet_address \<Rightarrow> bool" where
  "isWanIP pton a =
     (let aStart = IPV4_of pton ''10.0.0.0''; aEnd = IPV4_of pton ''10.255.255.255'';
          bStart = IPV4_of pton ''172.16.0.0''; bEnd = IPV4_of pton ''172.31.255.255'';
          cStart = IPV4_of pton ''192.168.0.0''; cEnd = IPV4_of pton ''192.168.255.255'';
          i = IPV4 pton a;
          isA = (aStart \<le> i \<and> i \<le> aEnd); isB = (bStart \<le> i \<and> i \<le> bEnd);
          isC = (cStart \<le> i \<and> i \<le> cEnd)
      in \<not> isA \<and> \<not> isB \<and> \<not> isC \<and> i \<noteq> INADDR_LOOPBACK)"

definition isLanIP :: "(string \<Rightarrow> u32 option) \<Rightarrow> inet_address \<Rightarrow> bool" where
  "isLanIP pton a =
     (let aStart = IPV4_of pton ''10.0.0.0''; aEnd = IPV4_of pton ''10.255.255.255'';
          bStart = IPV4_of pton ''172.16.0.0''; bEnd = IPV4_of pton ''172.31.255.255'';
          cStart = IPV4_of pton ''192.168.0.0''; cEnd = IPV4_of pton ''192.168.255.255'';
          i = IPV4 pton a;
          isA = (aStart \<le> i \<and> i \<le> aEnd); isB = (bStart \<le> i \<and> i \<le> bEnd);
          isC = (cStart \<le> i \<and> i \<le> cEnd)
      in isA \<or> isB \<or> isC)"

definition setIP :: "inet_address \<Rightarrow> string \<Rightarrow> inet_address" where
  "setIP a i = a\<lparr>ip := i\<rparr>"

definition setPort :: "inet_address \<Rightarrow> u16 \<Rightarrow> inet_address" where
  "setPort a p = a\<lparr>port := to_string (unat p)\<rparr>"

definition setIsIPv6 :: "inet_address \<Rightarrow> bool \<Rightarrow> inet_address" where
  "setIsIPv6 a v6 = a\<lparr>is_ipv6 := v6\<rparr>"

subsection \<open>Socket addresses\<close>

text \<open>
  A \<open>sockaddr_in\<close> or \<open>sockaddr_in6\<close>, address and port in host order, and the functions of
  the C library that read and print addresses; \<open>None\<close> is a text \<open>inet_pton\<close> rejects.
\<close>

datatype sockaddr = SockIn u32 u16 | SockIn6 "128 word" u16

record inet_lib =
  pton4 :: "string \<Rightarrow> u32 option"
  pton6 :: "string \<Rightarrow> 128 word option"
  ntop4 :: "u32 \<Rightarrow> string"
  ntop6 :: "128 word \<Rightarrow> string"

text \<open>Printed addresses are read back, and no printed IPv6 address is an IPv4 literal.\<close>

definition inet_laws :: "inet_lib \<Rightarrow> bool" where
  "inet_laws lib \<longleftrightarrow> (\<forall>a. pton4 lib (ntop4 lib a) = Some a) \<and> (\<forall>a. pton6 lib (ntop6 lib a) = Some a)
     \<and> (\<forall>a. pton4 lib (ntop6 lib a) = None)"

text \<open>
  The caller's structure is not cleared: when \<open>inet_pton\<close> rejects the text, the address
  field keeps what it held, here \<open>old4\<close> or \<open>old6\<close>.
\<close>

definition getSockAddress ::
    "inet_lib \<Rightarrow> u32 \<Rightarrow> 128 word \<Rightarrow> inet_address \<Rightarrow> sockaddr option" where
  "getSockAddress lib old4 old6 a =
     map_option (\<lambda>n.
       if is_ipv6 a
       then SockIn6 (case pton6 lib (ip a) of None \<Rightarrow> old6 | Some x \<Rightarrow> x) (word_of_int n)
       else SockIn (case pton4 lib (ip a) of None \<Rightarrow> old4 | Some x \<Rightarrow> x) (word_of_int n))
       (atoi (port a))"

subsection \<open>Lemmas\<close>

lemma inet_lawsD:
  assumes "inet_laws lib"
  shows "pton4 lib (ntop4 lib a) = Some a" "pton6 lib (ntop6 lib b) = Some b"
    "pton4 lib (ntop6 lib b) = None"
  using assms by (simp_all add: inet_laws_def)

lemma find_colon:
  "CHR '':'' \<notin> set i \<Longrightarrow> find_sub '':'' (i @ CHR '':'' # r) = Some (length i)"
  by (induction i) auto

lemma unat_u16: "unat (p :: u16) < 2 ^ 31"
proof -
  have "unat p < 2 ^ LENGTH(16)" by (rule unsigned_less)
  then show ?thesis by simp
qed

lemma atoi_port: "atoi (to_string (unat (p :: u16))) = Some (int (unat p))"
  by (rule atoi_stoi [OF stoi_to_string [OF unat_u16]])

lemma word_of_port [simp]: "word_of_int (int (unat (p :: u16))) = p"
  by simp

subsection \<open>Properties\<close>

text \<open>
  C38. An address survives being printed and parsed: for an address text without a colon,
  the constructor from \<open>ip:port\<close> text inverts \<open>toIpPort\<close> for every port, and \<open>getPort\<close>
  reads the number back.
\<close>

theorem ip_port_roundtrip:
  assumes "CHR '':'' \<notin> set i"
  shows "parse_InetAddress (toIpPort (new_InetAddress i p v6)) v6 = new_InetAddress i p v6
     \<and> getPort (parse_InetAddress (toIpPort (new_InetAddress i p v6)) v6) = Some p"
proof -
  have "parse_InetAddress (toIpPort (new_InetAddress i p v6)) v6 = new_InetAddress i p v6"
    using find_colon [OF assms] by (simp add: parse_InetAddress_def toIpPort_def new_InetAddress_def)
  moreover have "getPort (new_InetAddress i p v6) = Some p"
    using stoi_to_string [OF unat_u16, of p]
    by (simp add: getPort_def new_InetAddress_def to_string_nonempty)
  ultimately show ?thesis by simp
qed

theorem ip_port_roundtrip_witness:
  "getPort (parse_InetAddress (toIpPort (new_InetAddress ''10.0.0.1'' 1935 False)) False) = Some 1935"
  by (rule conjunct2 [OF ip_port_roundtrip]) simp

text \<open>
  An address with a colon in it, every IPv6 literal, is cut at its first colon.
\<close>

lemma ipv6_literal_cut:
  "ip (parse_InetAddress (toIpPort (new_InetAddress ''::1'' 80 True)) True) = ''''"
  by (simp add: parse_InetAddress_def toIpPort_def new_InetAddress_def)

subsection \<open>Address classes\<close>

text \<open>Dotted quads, the number one stands for, and the private ranges as the standards give them.\<close>

definition quad :: "nat \<Rightarrow> nat \<Rightarrow> nat \<Rightarrow> nat \<Rightarrow> string" where
  "quad a b c d = to_string a @ ''.'' @ to_string b @ ''.'' @ to_string c @ ''.'' @ to_string d"

definition quad_value :: "nat \<Rightarrow> nat \<Rightarrow> nat \<Rightarrow> nat \<Rightarrow> u32" where
  "quad_value a b c d = of_nat (((a * 256 + b) * 256 + c) * 256 + d)"

definition private_quad :: "nat \<Rightarrow> nat \<Rightarrow> nat \<Rightarrow> nat \<Rightarrow> bool" where
  "private_quad a b c d \<longleftrightarrow> a = 10 \<or> a = 172 \<and> 16 \<le> b \<and> b \<le> 31 \<or> a = 192 \<and> b = 168"

text \<open>What \<open>inet_pton\<close> documents, for the quads of a list.\<close>

definition reads_quads :: "(string \<Rightarrow> u32 option) \<Rightarrow> (nat \<times> nat \<times> nat \<times> nat) list \<Rightarrow> bool" where
  "reads_quads pton qs \<longleftrightarrow> (\<forall>(a, b, c, d) \<in> set qs. pton (quad a b c d) = Some (quad_value a b c d))"

definition range_ends :: "(nat \<times> nat \<times> nat \<times> nat) list" where
  "range_ends = [(10, 0, 0, 0), (10, 255, 255, 255), (172, 16, 0, 0), (172, 31, 255, 255),
     (192, 168, 0, 0), (192, 168, 255, 255)]"

lemma unat_quad_value:
  assumes "a < 256" and "b < 256" and "c < 256" and "d < 256"
  shows "unat (quad_value a b c d) = ((a * 256 + b) * 256 + c) * 256 + d"
proof -
  have "((a * 256 + b) * 256 + c) * 256 + d < 2 ^ LENGTH(32)" using assms by simp
  then show ?thesis unfolding quad_value_def unat_of_nat by (rule mod_less)
qed

lemma quad_ranges:
  fixes a :: nat
  assumes "b < 256" and "c < 256" and "d < (256 :: nat)"
  defines "x \<equiv> ((a * 256 + b) * 256 + c) * 256 + d"
  shows "(167772160 \<le> x \<and> x \<le> 184549375) = (a = 10)"
    and "(2886729728 \<le> x \<and> x \<le> 2887778303)
       = (a = 172 \<and> 16 \<le> b \<and> b \<le> 31)"
    and "(3232235520 \<le> x \<and> x \<le> 3232301055)
       = (a = 192 \<and> b = 168)"
    and "(x = 2130706433) = (a = 127 \<and> b = 0 \<and> c = 0 \<and> d = 1)"
proof -
  have x: "x = a * 16777216 + (b * 65536 + (c * 256 + d))" by (simp add: x_def)
  show "(167772160 \<le> x \<and> x \<le> 184549375) = (a = 10)"
    unfolding x by (insert assms(1-3), intro iffI conjI; (elim conjE)?; linarith)
  have r: "b * 65536 + (c * 256 + d) < 16777216" "c * 256 + d < 65536" using assms(1-3) by linarith+
  show "(2886729728 \<le> x \<and> x \<le> 2887778303)
       = (a = 172 \<and> 16 \<le> b \<and> b \<le> 31)"
  proof
    assume h: "2886729728 \<le> x \<and> x \<le> 2887778303"
    then have "a = 172" using r(1) unfolding x by linarith
    then show "a = 172 \<and> 16 \<le> b \<and> b \<le> 31" using h r(2) unfolding x by simp
  next
    assume "a = 172 \<and> 16 \<le> b \<and> b \<le> 31"
    then show "2886729728 \<le> x \<and> x \<le> 2887778303" using r(2) unfolding x by simp
  qed
  show "(3232235520 \<le> x \<and> x \<le> 3232301055)
       = (a = 192 \<and> b = 168)"
  proof
    assume h: "3232235520 \<le> x \<and> x \<le> 3232301055"
    then have "a = 192" using r(1) unfolding x by linarith
    then show "a = 192 \<and> b = 168" using h r(2) unfolding x by simp
  next
    assume "a = 192 \<and> b = 168"
    then show "3232235520 \<le> x \<and> x \<le> 3232301055" using r(2) unfolding x by simp
  qed
  show "(x = 2130706433) = (a = 127 \<and> b = 0 \<and> c = 0 \<and> d = 1)"
  proof
    assume h: "x = 2130706433"
    then have "a = 127" using r(1) unfolding x by linarith
    moreover from this have "b = 0" using h r(2) unfolding x by simp
    ultimately show "a = 127 \<and> b = 0 \<and> c = 0 \<and> d = 1" using h assms(3) unfolding x by presburger
  qed (simp add: x)
qed

lemma ends_literal:
  "''10.0.0.0'' = quad 10 0 0 0" "''10.255.255.255'' = quad 10 255 255 255"
  "''172.16.0.0'' = quad 172 16 0 0" "''172.31.255.255'' = quad 172 31 255 255"
  "''192.168.0.0'' = quad 192 168 0 0" "''192.168.255.255'' = quad 192 168 255 255"
  by code_simp+

text \<open>
  The classification of IPv4 addresses is the standards': for every address written as a dotted
  quad, \<open>isLanIP\<close> holds exactly for the private ranges 10/8, 172.16/12 and 192.168/16, and
  \<open>isWanIP\<close> exactly for the rest without 127.0.0.1. \<open>inet_pton\<close> is only used as
  documented, on this address and the ends of the ranges.
\<close>

lemma lan_is_private:
  assumes "a < 256" and "b < 256" and "c < 256" and "d < 256"
    and "reads_quads pton ((a, b, c, d) # range_ends)"
  shows "isLanIP pton (new_InetAddress (quad a b c d) p v6) = private_quad a b c d
     \<and> isWanIP pton (new_InetAddress (quad a b c d) p v6)
         = (\<not> private_quad a b c d \<and> (a, b, c, d) \<noteq> (127, 0, 0, 1))"
proof -
  let ?x = "quad_value a b c d"
  have v: "IPV4_of pton (quad 10 0 0 0) = quad_value 10 0 0 0"
    "IPV4_of pton (quad 10 255 255 255) = quad_value 10 255 255 255"
    "IPV4_of pton (quad 172 16 0 0) = quad_value 172 16 0 0"
    "IPV4_of pton (quad 172 31 255 255) = quad_value 172 31 255 255"
    "IPV4_of pton (quad 192 168 0 0) = quad_value 192 168 0 0"
    "IPV4_of pton (quad 192 168 255 255) = quad_value 192 168 255 255"
    "IPV4 pton (new_InetAddress (quad a b c d) p v6) = ?x"
    using assms(5) by (simp_all add: IPV4_of_def IPV4_def new_InetAddress_def reads_quads_def range_ends_def)
  note x = unat_quad_value [OF assms(1-4)]
  note r = quad_ranges [OF assms(2-4), of a]
  have "(?x = INADDR_LOOPBACK) = (unat ?x = 0x7F000001)"
    by (simp add: word_unat_eq_iff INADDR_LOOPBACK_def)
  then have lb: "(?x = INADDR_LOOPBACK) = (a = 127 \<and> b = 0 \<and> c = 0 \<and> d = 1)"
    using r(4) x by simp
  have A: "(quad_value 10 0 0 0 \<le> ?x \<and> ?x \<le> quad_value 10 255 255 255) = (a = 10)"
    using r(1) unfolding word_le_nat_alt x by (simp add: unat_quad_value)
  have B: "(quad_value 172 16 0 0 \<le> ?x \<and> ?x \<le> quad_value 172 31 255 255) = (a = 172 \<and> 16 \<le> b \<and> b \<le> 31)"
    using r(2) unfolding word_le_nat_alt x by (simp add: unat_quad_value)
  have C: "(quad_value 192 168 0 0 \<le> ?x \<and> ?x \<le> quad_value 192 168 255 255) = (a = 192 \<and> b = 168)"
    using r(3) unfolding word_le_nat_alt x by (simp add: unat_quad_value)
  show ?thesis
    unfolding isLanIP_def isWanIP_def Let_def ends_literal v A B C lb by (auto simp: private_quad_def)
qed

definition sample_pton :: "string \<Rightarrow> u32 option" where
  "sample_pton = map_of
     [(''172.20.1.9'', quad_value 172 20 1 9),
      (''10.0.0.0'', quad_value 10 0 0 0), (''10.255.255.255'', quad_value 10 255 255 255),
      (''172.16.0.0'', quad_value 172 16 0 0), (''172.31.255.255'', quad_value 172 31 255 255),
      (''192.168.0.0'', quad_value 192 168 0 0), (''192.168.255.255'', quad_value 192 168 255 255)]"

lemma lan_is_private_witness:
  "isLanIP sample_pton (new_InetAddress ''172.20.1.9'' 80 False)
     \<and> \<not> isWanIP sample_pton (new_InetAddress ''172.20.1.9'' 80 False)"
proof -
  have q: "quad 172 20 1 9 = ''172.20.1.9''" by code_simp
  have "reads_quads sample_pton ((172, 20, 1, 9) # range_ends)"
    unfolding reads_quads_def range_ends_def by (simp add: sample_pton_def q del: One_nat_def flip: ends_literal)
  then show ?thesis
    using lan_is_private [of 172 20 1 9 sample_pton 80 False] unfolding q by (simp add: private_quad_def)
qed

end
