(* ===== verification/FileLogMgr.thy ===== *)
theory FileLogMgr
  imports StringUtils TextNumbers
begin

text \<open>
  Log files and their rotation: \<open>src/base/FileLog.cpp\<close> and \<open>src/base/FileLogMgr.cpp\<close>. The
  file system is a store of directory entries and file contents; a descriptor is the file
  it refers to. Whether \<open>open\<close> and \<open>rename\<close> succeed is an input. The lock around the
  manager's table and the console messages are left out.
\<close>

subsection \<open>Files\<close>

text \<open>\<open>entries\<close> maps paths to files (inodes), \<open>contents\<close> holds what is in them.\<close>

record file_system =
  entries :: "string \<Rightarrow> nat option"
  contents :: "nat \<Rightarrow> string"
  next_inode :: nat

text \<open>\<open>open\<close> with \<open>O_CREAT | O_APPEND\<close>.\<close>

definition sys_open :: "file_system \<Rightarrow> string \<Rightarrow> nat \<times> file_system" where
  "sys_open fs path =
     (case entries fs path of
        Some i \<Rightarrow> (i, fs)
      | None \<Rightarrow> (next_inode fs,
          fs\<lparr>entries := (entries fs)(path \<mapsto> next_inode fs),
             contents := (contents fs)(next_inode fs := ''''), next_inode := Suc (next_inode fs)\<rparr>))"

text \<open>\<open>rename\<close>: the new name replaces what it named before.\<close>

definition sys_rename :: "file_system \<Rightarrow> string \<Rightarrow> string \<Rightarrow> file_system" where
  "sys_rename fs old new =
     (if old = new then fs else fs\<lparr>entries := (entries fs)(new := entries fs old, old := None)\<rparr>)"

definition sys_append :: "file_system \<Rightarrow> nat \<Rightarrow> string \<Rightarrow> file_system" where
  "sys_append fs i d = fs\<lparr>contents := (contents fs)(i := contents fs i @ d)\<rparr>"

subsection \<open>A log file\<close>

datatype RotateType = kNoRotate | kRotateHour | kRotateDay | kRotateMinute

record file_log =
  log_fd :: "nat option"
  filePath :: string
  rotateType :: RotateType

definition new_FileLog :: file_log where
  "new_FileLog = \<lparr>log_fd = None, filePath = '''', rotateType = kNoRotate\<rparr>"

definition open_log :: "bool \<Rightarrow> file_system \<Rightarrow> file_log \<Rightarrow> string \<Rightarrow> bool \<times> file_system \<times> file_log" where
  "open_log ok fs l path =
     (if ok then let (i, fs') = sys_open fs path in (True, fs', l\<lparr>filePath := path, log_fd := Some i\<rparr>)
      else (False, fs, l\<lparr>filePath := path, log_fd := None\<rparr>))"

text \<open>Without a file the message goes to the standard output, which is not modelled.\<close>

definition writeLog :: "file_system \<Rightarrow> file_log \<Rightarrow> string \<Rightarrow> file_system" where
  "writeLog fs l message = (case log_fd l of None \<Rightarrow> fs | Some i \<Rightarrow> sys_append fs i message)"

text \<open>\<open>dup2\<close> makes the log's descriptor, if it is open, refer to the newly opened file.\<close>

definition rotate_log :: "bool \<Rightarrow> bool \<Rightarrow> file_system \<Rightarrow> file_log \<Rightarrow> string \<Rightarrow> file_system \<times> file_log" where
  "rotate_log rename_ok open_ok fs l path =
     (if path = [] then (fs, l)
      else if \<not> rename_ok then (fs, l)
      else
        let fs1 = sys_rename fs (filePath l) path
        in if \<not> open_ok then (fs1, l)
           else let (i, fs2) = sys_open fs1 (filePath l) in (fs2, if log_fd l = None then l else l\<lparr>log_fd := Some i\<rparr>))"

definition setRotateType :: "file_log \<Rightarrow> RotateType \<Rightarrow> file_log" where
  "setRotateType l ty = l\<lparr>rotateType := ty\<rparr>"

text \<open>\<open>lseek\<close> fails without a file, and -1 as an unsigned number is large.\<close>

definition getFileSize :: "file_system \<Rightarrow> file_log \<Rightarrow> nat" where
  "getFileSize fs l = (case log_fd l of None \<Rightarrow> 2 ^ 64 - 1 | Some i \<Rightarrow> length (contents fs i))"

subsection \<open>The manager\<close>

text \<open>The last values are -1 until the first check. \<open>rotations\<close> logs the calls of \<open>rotate\<close>.\<close>

record file_log_mgr =
  logs :: "(string \<times> file_log) list"
  lastYear :: int
  lastMonth :: int
  lastDay :: int
  lastHour :: int
  lastMinute :: int
  fs :: file_system

definition new_FileLogMgr :: "file_system \<Rightarrow> file_log_mgr" where
  "new_FileLogMgr f = \<lparr>logs = [], lastYear = -1, lastMonth = -1, lastDay = -1, lastHour = -1,
     lastMinute = -1, fs = f\<rparr>"

definition getFileLog :: "bool \<Rightarrow> file_log_mgr \<Rightarrow> string \<Rightarrow> file_log option \<times> file_log_mgr" where
  "getFileLog ok m fileName =
     (case map_of (logs m) fileName of
        Some l \<Rightarrow> (Some l, m)
      | None \<Rightarrow>
          let (opened, f, l) = open_log ok (fs m) new_FileLog fileName
          in if opened then (Some l, m\<lparr>logs := (fileName, l) # logs m, fs := f\<rparr>) else (None, m\<lparr>fs := f\<rparr>))"

definition removeFileLog :: "file_log_mgr \<Rightarrow> file_log \<Rightarrow> file_log_mgr" where
  "removeFileLog m l = m\<lparr>logs := filter (\<lambda>(n, _). n \<noteq> filePath l) (logs m)\<rparr>"

definition rotated_path :: "string \<Rightarrow> string \<Rightarrow> string" where
  "rotated_path path buf =
     getFilePath path @ ''/'' @ getFileNameWithoutExt path @ buf @ ''.'' @ getFileExt path"

definition day_suffix :: "file_log_mgr \<Rightarrow> string" where
  "day_suffix m = ''_'' @ pad 4 (nat (lastYear m)) @ pad 2 (nat (lastMonth m)) @ pad 2 (nat (lastDay m))"

definition hour_suffix :: "file_log_mgr \<Rightarrow> string" where
  "hour_suffix m = day_suffix m @ ''T'' @ pad 2 (nat (lastHour m))"

definition minute_suffix :: "file_log_mgr \<Rightarrow> string" where
  "minute_suffix m = hour_suffix m @ pad 2 (nat (lastMinute m))"

text \<open>\<open>oks\<close> says for each path whether renaming to it and reopening the log succeed.\<close>

definition rotate_with ::
    "(string \<Rightarrow> bool \<times> bool) \<Rightarrow> file_system \<Rightarrow> file_log \<Rightarrow> string \<Rightarrow> file_system \<times> file_log" where
  "rotate_with oks f l suffix =
     (if getFileSize f l = 0 then (f, l)
      else let path = rotated_path (filePath l) suffix
           in rotate_log (fst (oks path)) (snd (oks path)) f l path)"

definition rotateDays ::
    "(string \<Rightarrow> bool \<times> bool) \<Rightarrow> file_log_mgr \<Rightarrow> file_system \<Rightarrow> file_log \<Rightarrow> file_system \<times> file_log" where
  "rotateDays oks m f l = rotate_with oks f l (day_suffix m)"

definition rotateHours ::
    "(string \<Rightarrow> bool \<times> bool) \<Rightarrow> file_log_mgr \<Rightarrow> file_system \<Rightarrow> file_log \<Rightarrow> file_system \<times> file_log" where
  "rotateHours oks m f l = rotate_with oks f l (hour_suffix m)"

definition rotateMinutes ::
    "(string \<Rightarrow> bool \<times> bool) \<Rightarrow> file_log_mgr \<Rightarrow> file_system \<Rightarrow> file_log \<Rightarrow> file_system \<times> file_log" where
  "rotateMinutes oks m f l = rotate_with oks f l (minute_suffix m)"

text \<open>The loop of \<open>onCheck\<close> over the table.\<close>

fun rotate_all ::
    "(string \<Rightarrow> bool \<times> bool) \<Rightarrow> file_log_mgr \<Rightarrow> bool \<times> bool \<times> bool \<Rightarrow> file_system
       \<Rightarrow> (string \<times> file_log) list \<Rightarrow> file_system \<times> (string \<times> file_log) list" where
  "rotate_all oks m changed f [] = (f, [])"
| "rotate_all oks m (dayC, hourC, minC) f ((n, l) # ls) =
     (let (f1, l1) = (if dayC \<and> rotateType l = kRotateDay then rotateDays oks m f l else (f, l));
          (f2, l2) = (if hourC \<and> rotateType l1 = kRotateHour then rotateHours oks m f1 l1 else (f1, l1));
          (f3, l3) = (if minC \<and> rotateType l2 = kRotateMinute then rotateMinutes oks m f2 l2 else (f2, l2));
          (f4, ls') = rotate_all oks m (dayC, hourC, minC) f3 ls
      in (f4, (n, l3) # ls'))"

text \<open>The time is given as year, month, day, hour, minute.\<close>

definition onCheck ::
    "(string \<Rightarrow> bool \<times> bool) \<Rightarrow> int \<times> int \<times> int \<times> int \<times> int \<Rightarrow> file_log_mgr \<Rightarrow> file_log_mgr" where
  "onCheck oks now m =
     (let (year, month, day, hour, minute) = now;
          m1 = (if lastDay m = -1 then m\<lparr>lastDay := day\<rparr> else m);
          m2 = (if lastHour m1 = -1 then m1\<lparr>lastHour := hour\<rparr> else m1);
          m3 = (if lastMinute m2 = -1 then m2\<lparr>lastMinute := minute\<rparr> else m2);
          dayC = (lastDay m3 \<noteq> day); hourC = (lastHour m3 \<noteq> hour); minC = (lastMinute m3 \<noteq> minute)
      in if \<not> dayC \<and> \<not> hourC \<and> \<not> minC then m3
         else
           let m4 = m3\<lparr>lastYear := year, lastMonth := month\<rparr>;
               (f, ls) = rotate_all oks m4 (dayC, hourC, minC) (fs m4) (logs m4)
           in m4\<lparr>logs := ls, fs := f, lastDay := day, lastHour := hour, lastMinute := minute\<rparr>)"


subsection \<open>Properties\<close>

text \<open>Directory entries refer to files that exist.\<close>

definition fs_ok :: "file_system \<Rightarrow> bool" where
  "fs_ok f \<longleftrightarrow> (\<forall>p i. entries f p = Some i \<longrightarrow> i < next_inode f)"

lemma rotate_log_ok:
  fixes path p :: string
  assumes "fs_ok f" and "entries f (filePath l) = Some i" and "log_fd l = Some i"
    and "path \<noteq> []" and "path \<noteq> filePath l"
  defines "r \<equiv> rotate_log True True f l path"
  shows "entries (fst r) path = Some i" and "contents (fst r) i = contents f i"
    and "log_fd (snd r) = Some (next_inode f)" and "filePath (snd r) = filePath l"
    and "entries (fst r) (filePath l) = Some (next_inode f)" and "contents (fst r) (next_inode f) = []"
    and "i \<noteq> next_inode f"
    and "p \<noteq> path \<Longrightarrow> p \<noteq> filePath l \<Longrightarrow> entries (fst r) p = entries f p"
proof -
  have i: "i < next_inode f" using assms(1,2) by (simp add: fs_ok_def)
  have r: "r = (f\<lparr>entries := (entries f)(path \<mapsto> i, filePath l \<mapsto> next_inode f),
       contents := (contents f)(next_inode f := []), next_inode := Suc (next_inode f)\<rparr>,
     l\<lparr>log_fd := Some (next_inode f)\<rparr>)"
    using assms(2-5) by (simp add: r_def rotate_log_def sys_rename_def sys_open_def fun_eq_iff)
  show "entries (fst r) path = Some i" "contents (fst r) i = contents f i"
    "log_fd (snd r) = Some (next_inode f)" "filePath (snd r) = filePath l"
    "entries (fst r) (filePath l) = Some (next_inode f)" "contents (fst r) (next_inode f) = []"
    "i \<noteq> next_inode f" "p \<noteq> path \<Longrightarrow> p \<noteq> filePath l \<Longrightarrow> entries (fst r) p = entries f p"
    using assms(5) i by (simp_all add: r)
qed

text \<open>
  C36. Rotation loses nothing: when the calls succeed, the old file with everything logged so
  far is found under the new name, the log's own path names a new file, the log's
  descriptor writes to that one and no longer to the old one, and no other path changes.
\<close>

theorem rotation_keeps_log:
  assumes "fs_ok f" and "entries f (filePath l) = Some i" and "log_fd l = Some i"
    and "path \<noteq> []" and "path \<noteq> filePath l"
  shows "case rotate_log True True f l path of (f1, l1) \<Rightarrow>
      let f2 = writeLog f1 l1 message
      in entries f2 path = Some i \<and> contents f2 i = contents f i
       \<and> (\<exists>j. entries f2 (filePath l) = Some j \<and> contents f2 j = message)
       \<and> (\<forall>p. p \<noteq> path \<longrightarrow> p \<noteq> filePath l \<longrightarrow> entries f2 p = entries f p)"
  using rotate_log_ok [OF assms]
  by (auto simp: Let_def writeLog_def sys_append_def split: prod.splits)

definition sample_fs :: file_system where
  "sample_fs = \<lparr>entries = [''d/a.log'' \<mapsto> 0], contents = (\<lambda>_. ''x''), next_inode = 1\<rparr>"

definition sample_log :: file_log where
  "sample_log = \<lparr>log_fd = Some 0, filePath = ''d/a.log'', rotateType = kRotateDay\<rparr>"

lemma sample_fs: "fs_ok sample_fs" "entries sample_fs (filePath sample_log) = Some 0"
    "log_fd sample_log = Some 0" "getFileSize sample_fs sample_log = 1"
  by (simp_all add: fs_ok_def sample_fs_def sample_log_def getFileSize_def)

theorem rotation_keeps_log_witness:
  "case rotate_log True True sample_fs sample_log ''d/b.log'' of (f1, l1) \<Rightarrow>
     entries (writeLog f1 l1 ''y'') ''d/b.log'' = Some 0"
  using rotation_keeps_log [OF sample_fs(1-3), of "''d/b.log''" "''y''"]
  by (auto simp: Let_def sample_log_def split: prod.splits)

lemma rotate_with_type: "rotateType (snd (rotate_with oks f l sfx)) = rotateType l"
  by (simp add: rotate_with_def rotate_log_def Let_def split: prod.splits)

lemma rotate_all_daily:
  assumes "rotateType l = kRotateDay"
  shows "rotate_all oks m (True, h, c) f [(n, l)]
           = (fst (rotateDays oks m f l), [(n, snd (rotateDays oks m f l))])"
proof -
  obtain f1 l1 where r: "rotateDays oks m f l = (f1, l1)" by (cases "rotateDays oks m f l")
  then have "rotateType l1 = kRotateDay"
    using assms rotate_with_type [of oks f l "day_suffix m"] by (simp add: rotateDays_def)
  with r assms show ?thesis by simp
qed

text \<open>
  A daily log is filed under a date that mixes two days: when the day has changed since
  the last check, the old file gets the year and the month of the new day with the day of
  the old one, so what was logged on 31 January is filed under 31 February.
\<close>

lemma daily_log_misfiled:
  assumes "fs_ok (fs m)" and "logs m = [(n, l)]" and "rotateType l = kRotateDay"
    and "entries (fs m) (filePath l) = Some i" and "log_fd l = Some i"
    and "getFileSize (fs m) l \<noteq> 0" and "lastDay m \<noteq> -1" and "lastDay m \<noteq> day"
    and "\<And>p. oks p = (True, True)"
    and "rotated_path (filePath l)
           (''_'' @ pad 4 (nat year) @ pad 2 (nat month) @ pad 2 (nat (lastDay m))) \<noteq> filePath l"
  shows "entries (fs (onCheck oks (year, month, day, hour, minute) m))
           (rotated_path (filePath l)
             (''_'' @ pad 4 (nat year) @ pad 2 (nat month) @ pad 2 (nat (lastDay m)))) = Some i"
proof -
  let ?path = "rotated_path (filePath l)
    (''_'' @ pad 4 (nat year) @ pad 2 (nat month) @ pad 2 (nat (lastDay m)))"
  have ne: "?path \<noteq> []" by (simp add: rotated_path_def)
  note r = rotate_log_ok(1) [OF assms(1,4,5) ne assms(10)]
  have "fs (onCheck oks (year, month, day, hour, minute) m) = fst (rotate_log True True (fs m) l ?path)"
    using assms(2,6-9)
    by (cases "lastHour m = -1"; cases "lastMinute m = -1")
      (simp_all add: onCheck_def rotate_all_daily [OF assms(3)] rotateDays_def rotate_with_def
        day_suffix_def Let_def del: rotate_all.simps)
  with r show ?thesis by simp
qed

lemma daily_log_misfiled_witness:
  "entries (fs (onCheck (\<lambda>_. (True, True)) (2024, 2, 1, 0, 0)
      \<lparr>logs = [(''d/a.log'', sample_log)], lastYear = 2024, lastMonth = 1, lastDay = 31,
       lastHour = 23, lastMinute = 59, fs = sample_fs\<rparr>)) ''d/a_20240231.log'' = Some 0"
proof -
  let ?m = "\<lparr>logs = [(''d/a.log'', sample_log)], lastYear = 2024, lastMonth = 1, lastDay = 31,
       lastHour = 23, lastMinute = 59, fs = sample_fs\<rparr>"
  have p: "rotated_path (filePath sample_log) (''_'' @ pad 4 (nat 2024) @ pad 2 (nat 2) @ pad 2 (nat 31))
      = ''d/a_20240231.log''"
    by code_simp
  have "''d/a_20240231.log'' \<noteq> filePath sample_log" by (simp add: sample_log_def)
  then show ?thesis
    using daily_log_misfiled [of ?m "''d/a.log''" sample_log 0 1 "\<lambda>_. (True, True)" 2024 2 0 0] sample_fs p
    by (simp add: sample_log_def)
qed

end
