(* ===== verification/SocketOpt.thy ===== *)
theory SocketOpt
  imports InetAddress
begin

unbundle bit_operations_syntax

text \<open>
  Sockets of \<open>src/network/net/SocketOpt.h\<close> and \<open>SocketOpt.cpp\<close>: the socket calls with
  their arguments, logged, and the conversion of the addresses they report. The results of
  the calls are inputs. The parameter \<open>lib\<close> holds \<open>inet_pton\<close> and \<open>inet_ntop\<close>.
\<close>

subsection \<open>Calls\<close>

datatype family = AF_INET | AF_INET6

datatype sock_option = SO_REUSEADDR | SO_REUSEPORT | SO_KEEPALIVE | TCP_NODELAY

datatype sock_call =
    Socket family bool
  | Bind int "sockaddr option" nat
  | Listen int nat
  | Connect int "sockaddr option" nat
  | Setsockopt int sock_option bool
  | SetFlags int u32

definition SOMAXCONN :: nat where "SOMAXCONN = 4096"
definition sizeof_sockaddr_in :: nat where "sizeof_sockaddr_in = 16"
definition sizeof_sockaddr_in6 :: nat where "sizeof_sockaddr_in6 = 28"
definition O_NONBLOCK :: u32 where "O_NONBLOCK = 2048"

record socket_opt =
  sock :: int
  sock_ipv6 :: bool

definition new_SocketOpt :: "int \<Rightarrow> bool \<Rightarrow> socket_opt" where
  "new_SocketOpt s v6 = \<lparr>sock = s, sock_ipv6 = v6\<rparr>"

text \<open>The descriptor \<open>fd\<close> the kernel hands out is an input; the call is logged.\<close>

definition createNonblockingTcp :: "family \<Rightarrow> sock_call" where
  "createNonblockingTcp f = Socket f True"

definition createNonblockingUdp :: "family \<Rightarrow> sock_call" where
  "createNonblockingUdp f = Socket f False"

definition sock_bind :: "inet_lib \<Rightarrow> u32 \<Rightarrow> 128 word \<Rightarrow> socket_opt \<Rightarrow> inet_address \<Rightarrow> sock_call" where
  "sock_bind lib old4 old6 s a =
     Bind (sock s) (getSockAddress lib old4 old6 a)
       (if isIPv6 a then sizeof_sockaddr_in6 else sizeof_sockaddr_in)"

definition sock_listen :: "socket_opt \<Rightarrow> sock_call" where
  "sock_listen s = Listen (sock s) SOMAXCONN"

definition sock_connect :: "inet_lib \<Rightarrow> u32 \<Rightarrow> 128 word \<Rightarrow> socket_opt \<Rightarrow> inet_address \<Rightarrow> sock_call" where
  "sock_connect lib old4 old6 s a =
     Connect (sock s) (getSockAddress lib old4 old6 a) sizeof_sockaddr_in6"

definition setReuseAddr :: "socket_opt \<Rightarrow> bool \<Rightarrow> sock_call" where
  "setReuseAddr s on = Setsockopt (sock s) SO_REUSEADDR on"

definition setReusePort :: "socket_opt \<Rightarrow> bool \<Rightarrow> sock_call" where
  "setReusePort s on = Setsockopt (sock s) SO_REUSEPORT on"

definition setKeepAlive :: "socket_opt \<Rightarrow> bool \<Rightarrow> sock_call" where
  "setKeepAlive s on = Setsockopt (sock s) SO_KEEPALIVE on"

definition setTcpNoDelay :: "socket_opt \<Rightarrow> bool \<Rightarrow> sock_call" where
  "setTcpNoDelay s on = Setsockopt (sock s) TCP_NODELAY on"

text \<open>\<open>flags\<close> is what \<open>fcntl(F_GETFL)\<close> returned.\<close>

definition setNonBlocking :: "socket_opt \<Rightarrow> u32 \<Rightarrow> bool \<Rightarrow> sock_call" where
  "setNonBlocking s flags on =
     SetFlags (sock s) (if on then flags OR O_NONBLOCK else flags AND NOT O_NONBLOCK)"

subsection \<open>Addresses the kernel reports\<close>

definition default_InetAddress :: inet_address where
  "default_InetAddress = \<lparr>ip = '''', port = '''', is_ipv6 = False\<rparr>"

text \<open>
  The branch for IPv6 does not set the family flag of the address.
\<close>

definition fill_address :: "inet_lib \<Rightarrow> sockaddr \<Rightarrow> inet_address \<Rightarrow> inet_address" where
  "fill_address lib s a =
     (case s of
        SockIn6 x p \<Rightarrow> setPort (setIP a (ntop6 lib x)) p
      | SockIn x p \<Rightarrow> setIsIPv6 (setPort (setIP a (ntop4 lib x)) p) False)"

text \<open>\<open>accept4\<close> returned an error number or a descriptor and the peer.\<close>

definition sock_accept ::
    "inet_lib \<Rightarrow> int + int \<times> sockaddr \<Rightarrow> inet_address \<Rightarrow> int \<times> inet_address" where
  "sock_accept lib r peer =
     (case r of Inl e \<Rightarrow> (-1, peer) | Inr (fd, s) \<Rightarrow> (fd, fill_address lib s peer))"

definition getPeerAddr :: "inet_lib \<Rightarrow> sockaddr \<Rightarrow> inet_address" where
  "getPeerAddr lib peer = fill_address lib peer default_InetAddress"

definition getLocalAddr :: "inet_lib \<Rightarrow> sockaddr \<Rightarrow> inet_address" where
  "getLocalAddr lib local = fill_address lib local default_InetAddress"

definition dumpSockAddr :: "inet_lib \<Rightarrow> sockaddr \<Rightarrow> string" where
  "dumpSockAddr lib s =
     (case s of
        SockIn x p \<Rightarrow> ntop4 lib x @ '':'' @ to_string (unat p)
      | SockIn6 x p \<Rightarrow> ntop6 lib x @ '':'' @ to_string (unat p))"

subsection \<open>Lemmas\<close>

lemma dump_is_ip_port: "dumpSockAddr lib s = toIpPort (getPeerAddr lib s)"
  by (cases s) (simp_all add: dumpSockAddr_def toIpPort_def getPeerAddr_def fill_address_def
      setPort_def setIP_def setIsIPv6_def)

lemma nonblocking_flag:
  "\<exists>fl. setNonBlocking s flags on = SetFlags (sock s) fl \<and> (fl AND O_NONBLOCK \<noteq> 0) = on
     \<and> fl AND NOT O_NONBLOCK = flags AND NOT O_NONBLOCK"
proof -
  have "(flags OR O_NONBLOCK) AND O_NONBLOCK = O_NONBLOCK"
    "(flags AND NOT O_NONBLOCK) AND O_NONBLOCK = 0"
    "(flags OR O_NONBLOCK) AND NOT O_NONBLOCK = flags AND NOT O_NONBLOCK"
    "(flags AND NOT O_NONBLOCK) AND NOT O_NONBLOCK = flags AND NOT O_NONBLOCK"
    by (rule bit_word_eqI; auto simp: bit_simps)+
  then show ?thesis by (cases on) (simp_all add: setNonBlocking_def O_NONBLOCK_def)
qed

subsection \<open>Properties\<close>

text \<open>A library that prints an address as a tag and a decimal number.\<close>

definition sample_lib :: inet_lib where
  "sample_lib =
     \<lparr>pton4 = (\<lambda>s. if s \<noteq> [] \<and> hd s = CHR ''4'' then Some (of_nat (digits_value 0 (tl s))) else None),
      pton6 = (\<lambda>s. if s \<noteq> [] \<and> hd s = CHR ''6'' then Some (of_nat (digits_value 0 (tl s))) else None),
      ntop4 = (\<lambda>a. CHR ''4'' # to_string (unat a)),
      ntop6 = (\<lambda>a. CHR ''6'' # to_string (unat a))\<rparr>"

lemma sample_lib_laws: "inet_laws sample_lib"
  by (simp add: inet_laws_def sample_lib_def digits_value_to_string)

text \<open>
  The peer of an accepted IPv4 connection turns back into its own socket address; the
  peer of an IPv6 connection does not: it turns into an IPv4 socket address with the right
  port and whatever address the caller's structure held before.
\<close>

lemma accepted_peer_address:
  assumes "inet_laws lib"
  shows "getSockAddress lib old4 old6 (snd (sock_accept lib (Inr (fd, s)) default_InetAddress))
     = Some (case s of SockIn x p \<Rightarrow> SockIn x p | SockIn6 x p \<Rightarrow> SockIn old4 p)"
  using inet_lawsD [OF assms]
  by (cases s) (simp_all add: sock_accept_def fill_address_def getSockAddress_def
      default_InetAddress_def setPort_def setIP_def setIsIPv6_def atoi_port)

lemma accepted_peer_address_witness:
  "getSockAddress sample_lib 9 0 (snd (sock_accept sample_lib (Inr (5, SockIn6 1 80)) default_InetAddress))
     = Some (SockIn 9 80)
   \<and> getSockAddress sample_lib 9 0 (snd (sock_accept sample_lib (Inr (5, SockIn 7 80)) default_InetAddress))
     = Some (SockIn 7 80)"
  using accepted_peer_address [OF sample_lib_laws] by simp

end
