(* ===== verification/UdpSocket.thy ===== *)
theory UdpSocket
  imports TcpConnection SocketOpt
begin

text \<open>
  Datagram sockets of \<open>src/network/UdpSocket.h\<close> and \<open>UdpSocket.cpp\<close>. The classes that derive
  from \<open>UdpSocket\<close> (theory \<open>UdpClient\<close>) are extensions of its record; \<open>onClose\<close>, which they override, is an
  argument of the operations that call it. The answers of \<open>sendto\<close> are an infinite script,
  so that a loop that never ends shows: such a loop is \<open>Diverges\<close>. What the user's
  write-complete and message callbacks do are arguments too.
\<close>

subsection \<open>State\<close>

record udp_node =
  node_buf :: addr
  node_len :: u64
  node_addr :: addr
  node_addr_len :: u32

datatype send_answer = Accepted | Refused int

datatype udp_closure = SendDatagram udp_node | SendDatagrams "udp_node list" | CloseSocket

text \<open>
  \<open>attempts\<close> counts the calls of \<open>sendto\<close>; \<open>arrivals\<close> is what \<open>recvfrom\<close> will report:
  error numbers, and datagrams with their senders; when it is used up the call would block.
  \<open>sent\<close> and \<open>received\<close> log the datagrams the kernel took, with the bytes of their target
  addresses, and the contents the message callback found. \<open>u_holders\<close> is the number of shared
  pointers besides the loop's.
\<close>

record udp_socket =
  u_event :: nat
  u_loop :: event_loop
  u_closed :: bool
  u_buffer :: msgbuffer
  buffer_list :: "udp_node list"
  u_max_idle :: int
  u_timeout_entry :: "entry option"
  u_memory :: "addr \<Rightarrow> byte"
  answers :: "nat \<Rightarrow> send_answer"
  attempts :: nat
  arrivals :: "(int + bytes \<times> sockaddr) list"
  u_errno :: int
  sent :: "(bytes \<times> bytes) list"
  u_completions :: nat
  received :: "(inet_address \<times> bytes) list"
  u_close_calls :: nat
  u_holders :: nat
  u_deferred :: "udp_closure list"

definition message_buffer_size :: nat where
  "message_buffer_size = 65535"

definition new_UdpSocket ::
    "event_loop \<Rightarrow> nat \<Rightarrow> int \<Rightarrow> (addr \<Rightarrow> byte) \<Rightarrow> (nat \<Rightarrow> send_answer)
       \<Rightarrow> (int + bytes \<times> sockaddr) list \<Rightarrow> nat \<Rightarrow> udp_socket" where
  "new_UdpSocket l ev sockfd m ans arr hs =
     \<lparr>u_event = ev, u_loop = new_Event l ev sockfd, u_closed = False,
      u_buffer = new_MsgBuffer message_buffer_size, buffer_list = [], u_max_idle = 30,
      u_timeout_entry = None, u_memory = m, answers = ans, attempts = 0, arrivals = arr,
      u_errno = 0, sent = [], u_completions = 0, received = [], u_close_calls = 0,
      u_holders = hs, u_deferred = []\<rparr>"

text \<open>The bytes a node points to, and those of the address it points to.\<close>

definition datagram :: "(addr \<Rightarrow> byte) \<Rightarrow> udp_node \<Rightarrow> bytes \<times> bytes" where
  "datagram m n =
     (read_mem m (node_buf n) (unat (node_len n)), read_mem m (node_addr n) (unat (node_addr_len n)))"

definition sys_sendto :: "'a udp_socket_scheme \<Rightarrow> udp_node \<Rightarrow> int \<times> 'a udp_socket_scheme" where
  "sys_sendto u n =
     (case answers u (attempts u) of
        Accepted \<Rightarrow> (int (unat (node_len n)),
          u\<lparr>attempts := Suc (attempts u), sent := sent u @ [datagram (u_memory u) n]\<rparr>)
      | Refused e \<Rightarrow> (-1, u\<lparr>attempts := Suc (attempts u), u_errno := e\<rparr>))"

definition udp_enableWriting :: "'a udp_socket_scheme \<Rightarrow> bool \<Rightarrow> 'a udp_socket_scheme" where
  "udp_enableWriting u b = u\<lparr>u_loop := enableEventWriting (u_loop u) (u_event u) b\<rparr>"

definition udp_extendLife :: "'a udp_socket_scheme \<Rightarrow> 'a udp_socket_scheme" where
  "udp_extendLife u =
     (case u_timeout_entry u of
        None \<Rightarrow> u
      | Some e \<Rightarrow>
          if held (timing (u_loop u)) e
          then u\<lparr>u_loop := (u_loop u)\<lparr>timing := insertEntry (timing (u_loop u)) (u_max_idle u) e\<rparr>\<rparr>
          else u)"

subsection \<open>Closing\<close>

text \<open>The event is closed but stays registered in the loop.\<close>

definition udp_onClose :: "'a udp_socket_scheme \<Rightarrow> 'a udp_socket_scheme" where
  "udp_onClose u =
     (if u_closed u then u
      else u\<lparr>u_closed := True, u_close_calls := Suc (u_close_calls u),
             u_loop := close_event (u_loop u) (u_event u)\<rparr>)"

text \<open>\<open>close\<close> is the \<open>onClose\<close> of the object's class.\<close>

definition udp_onError ::
    "('a udp_socket_scheme \<Rightarrow> conn_error + 'a udp_socket_scheme) \<Rightarrow> 'a udp_socket_scheme
       \<Rightarrow> conn_error + 'a udp_socket_scheme" where
  "udp_onError close u = close u"

definition udp_onTimeout ::
    "('a udp_socket_scheme \<Rightarrow> conn_error + 'a udp_socket_scheme) \<Rightarrow> 'a udp_socket_scheme
       \<Rightarrow> conn_error + 'a udp_socket_scheme" where
  "udp_onTimeout close u = close u"

definition udp_post :: "'a udp_socket_scheme \<Rightarrow> nat \<times> int \<Rightarrow> udp_closure \<Rightarrow> 'a udp_socket_scheme" where
  "udp_post u fresh f =
     u\<lparr>u_deferred := u_deferred u @ [f],
       u_loop := weakup ((u_loop u)\<lparr>queue := queue (u_loop u) @ [UserTask (length (u_deferred u))]\<rparr>)
                   (fst fresh) (snd fresh)\<rparr>"

definition udp_forceClose ::
    "('a udp_socket_scheme \<Rightarrow> conn_error + 'a udp_socket_scheme) \<Rightarrow> 'a udp_socket_scheme \<Rightarrow> nat
       \<Rightarrow> nat \<times> int \<Rightarrow> conn_error + 'a udp_socket_scheme" where
  "udp_forceClose close u t fresh =
     (if isInLoopThread (u_loop u) t then close u else Inr (udp_post u fresh CloseSocket))"

subsection \<open>Sending\<close>

text \<open>
  \<open>wc\<close> is the write-complete callback. The result of \<open>sendto\<close> is kept in an \<open>int\<close>.
\<close>

definition udp_sendInLoop ::
    "('a udp_socket_scheme \<Rightarrow> 'a udp_socket_scheme) \<Rightarrow> 'a udp_socket_scheme \<Rightarrow> udp_node
       \<Rightarrow> 'a udp_socket_scheme" where
  "udp_sendInLoop wc u n =
     (let (ret, u1) = (if buffer_list u = [] then sys_sendto u n else (0, u))
      in if buffer_list u = [] \<and> sint (word_of_int ret :: 32 word) > 0 then wc u1
         else udp_enableWriting (u1\<lparr>buffer_list := buffer_list u1 @ [n]\<rparr>) True)"

definition udp_sendInLoop_list ::
    "'a udp_socket_scheme \<Rightarrow> udp_node list \<Rightarrow> 'a udp_socket_scheme" where
  "udp_sendInLoop_list u ns =
     (let u1 = u\<lparr>buffer_list := buffer_list u @ ns\<rparr>
      in if buffer_list u1 \<noteq> [] then udp_enableWriting u1 True else u1)"

definition udp_send ::
    "('a udp_socket_scheme \<Rightarrow> 'a udp_socket_scheme) \<Rightarrow> 'a udp_socket_scheme \<Rightarrow> nat \<Rightarrow> nat \<times> int
       \<Rightarrow> udp_node \<Rightarrow> 'a udp_socket_scheme" where
  "udp_send wc u t fresh n =
     (if isInLoopThread (u_loop u) t then udp_sendInLoop wc u n
      else udp_post u fresh (SendDatagram n))"

definition udp_send_list ::
    "'a udp_socket_scheme \<Rightarrow> nat \<Rightarrow> nat \<times> int \<Rightarrow> udp_node list \<Rightarrow> 'a udp_socket_scheme" where
  "udp_send_list u t fresh ns =
     (if isInLoopThread (u_loop u) t then udp_sendInLoop_list u ns
      else udp_post u fresh (SendDatagrams ns))"

definition udp_run_closure ::
    "('a udp_socket_scheme \<Rightarrow> conn_error + 'a udp_socket_scheme)
       \<Rightarrow> ('a udp_socket_scheme \<Rightarrow> 'a udp_socket_scheme)
       \<Rightarrow> 'a udp_socket_scheme \<Rightarrow> udp_closure \<Rightarrow> conn_error + 'a udp_socket_scheme" where
  "udp_run_closure close wc u f =
     (case f of
        SendDatagram n \<Rightarrow> Inr (udp_sendInLoop wc u n)
      | SendDatagrams ns \<Rightarrow> Inr (udp_sendInLoop_list u ns)
      | CloseSocket \<Rightarrow> close u)"

text \<open>
  The loop of \<open>onWrite\<close>. A result of 0 is neither taken off the queue nor an error.
\<close>

partial_function (option) udp_onWrite_loop ::
    "('a udp_socket_scheme \<Rightarrow> conn_error + 'a udp_socket_scheme)
       \<Rightarrow> ('a udp_socket_scheme \<Rightarrow> 'a udp_socket_scheme)
       \<Rightarrow> 'a udp_socket_scheme \<Rightarrow> (conn_error + 'a udp_socket_scheme) option" where
  "udp_onWrite_loop close wc u =
     (let (ret, u1) = sys_sendto u (hd (buffer_list u));
          u2 = (if ret > 0 then u1\<lparr>buffer_list := tl (buffer_list u1)\<rparr> else u1)
      in if ret < 0 then
           if \<not> retryable (u_errno u2) then Some (close u2) else Some (Inr u2)
         else if buffer_list u2 = [] then Some (Inr (udp_enableWriting (wc u2) False))
         else udp_onWrite_loop close wc u2)"

definition udp_onWrite ::
    "('a udp_socket_scheme \<Rightarrow> conn_error + 'a udp_socket_scheme)
       \<Rightarrow> ('a udp_socket_scheme \<Rightarrow> 'a udp_socket_scheme)
       \<Rightarrow> 'a udp_socket_scheme \<Rightarrow> nat \<Rightarrow> conn_error + 'a udp_socket_scheme" where
  "udp_onWrite close wc u t =
     (if \<not> isInLoopThread (u_loop u) t then Inl WrongThread
      else if u_closed u then Inr u
      else
        let u1 = udp_extendLife u
        in if buffer_list u1 \<noteq> []
           then (case udp_onWrite_loop close wc u1 of None \<Rightarrow> Inl Diverges | Some r \<Rightarrow> r)
           else Inr (wc (udp_enableWriting u1 False)))"

subsection \<open>Receiving\<close>

text \<open>The sender's address; here both branches set the family.\<close>

definition sender_address :: "inet_lib \<Rightarrow> sockaddr \<Rightarrow> inet_address" where
  "sender_address lib s =
     (case s of
        SockIn6 x p \<Rightarrow> setIsIPv6 (setPort (setIP default_InetAddress (ntop6 lib x)) p) True
      | SockIn x p \<Rightarrow> setIsIPv6 (setPort (setIP default_InetAddress (ntop4 lib x)) p) False)"

text \<open>
  \<open>recvfrom\<close> may write \<open>message_buffer_size\<close> bytes wherever the buffer's write index is. If
  they do not fit, memory behind the buffer is overwritten, and the assertion of
  \<open>hasWritten\<close> aborts if what arrived does not fit either.
  A datagram of no bytes is passed over.
\<close>

function udp_onRead_loop ::
    "inet_lib \<Rightarrow> ('a udp_socket_scheme \<Rightarrow> conn_error + 'a udp_socket_scheme)
       \<Rightarrow> (inet_address \<Rightarrow> msgbuffer \<Rightarrow> msgbuffer) \<Rightarrow> 'a udp_socket_scheme
       \<Rightarrow> conn_error + 'a udp_socket_scheme" where
  "udp_onRead_loop lib close cb u =
     (case arrivals u of
        [] \<Rightarrow> Inr (u\<lparr>u_errno := EAGAIN\<rparr>)
      | Inl e # rs \<Rightarrow>
          let u1 = u\<lparr>arrivals := rs, u_errno := e\<rparr>
          in if \<not> retryable e then close u1 else Inr u1
      | Inr (d, from) # rs \<Rightarrow>
          let u1 = u\<lparr>arrivals := rs\<rparr>; d1 = take message_buffer_size d; b = u_buffer u
          in if d1 = [] then udp_onRead_loop lib close cb u1
             else
               case write_direct b d1 of
                 None \<Rightarrow> Inl BufferAbort
               | Some b1 \<Rightarrow>
                   let peer = sender_address lib from
                   in udp_onRead_loop lib close cb
                        (u1\<lparr>u_buffer := retrieveAll (cb peer b1),
                            received := received u1 @ [(peer, content b1)]\<rparr>))"
  by pat_completeness auto
termination
  by (relation "measure (\<lambda>(lib, close, cb, u). length (arrivals u))") auto

declare udp_onRead_loop.simps [simp del]

definition udp_onRead ::
    "inet_lib \<Rightarrow> ('a udp_socket_scheme \<Rightarrow> conn_error + 'a udp_socket_scheme)
       \<Rightarrow> (inet_address \<Rightarrow> msgbuffer \<Rightarrow> msgbuffer) \<Rightarrow> 'a udp_socket_scheme \<Rightarrow> nat
       \<Rightarrow> conn_error + 'a udp_socket_scheme" where
  "udp_onRead lib close cb u t =
     (if \<not> isInLoopThread (u_loop u) t then Inl WrongThread
      else if u_closed u then Inr u
      else udp_onRead_loop lib close cb (udp_extendLife u))"

subsection \<open>Time\<close>

definition udp_setTimeout ::
    "'a udp_socket_scheme \<Rightarrow> nat \<Rightarrow> nat \<times> int \<Rightarrow> u32 \<Rightarrow> nat \<Rightarrow> 'a udp_socket_scheme option" where
  "udp_setTimeout u t fresh timeout f =
     map_option (\<lambda>l. u\<lparr>u_loop := l\<rparr>) (loop_runAfter (u_loop u) t fresh (sint timeout) f)"

definition udp_kept_alive :: "'a udp_socket_scheme \<Rightarrow> bool" where
  "udp_kept_alive u \<longleftrightarrow> registered (u_loop u) (u_event u) \<or> 0 < u_holders u"

definition udp_timeout_destructor ::
    "('a udp_socket_scheme \<Rightarrow> conn_error + 'a udp_socket_scheme) \<Rightarrow> 'a udp_socket_scheme
       \<Rightarrow> conn_error + 'a udp_socket_scheme" where
  "udp_timeout_destructor close u =
     (if udp_kept_alive u
      then (case udp_onTimeout close (u\<lparr>u_holders := Suc (u_holders u)\<rparr>) of
              Inl e \<Rightarrow> Inl e | Inr u1 \<Rightarrow> Inr (u1\<lparr>u_holders := u_holders u1 - 1\<rparr>))
      else Inr u)"

definition udp_enableCheckIdleTime ::
    "('a udp_socket_scheme \<Rightarrow> conn_error + 'a udp_socket_scheme) \<Rightarrow> 'a udp_socket_scheme \<Rightarrow> nat
       \<Rightarrow> nat \<times> int \<Rightarrow> int \<Rightarrow> conn_error + 'a udp_socket_scheme" where
  "udp_enableCheckIdleTime close u t fresh idle_time =
     (let tw = timing (u_loop u);
          e = Entry (next_id tw) (Idle (u_event u));
          l = (u_loop u)\<lparr>timing := tw\<lparr>next_id := Suc (next_id tw)\<rparr>\<rparr>;
          u1 = u\<lparr>u_max_idle := idle_time, u_timeout_entry := Some e\<rparr>
      in case loop_insertEntry l t fresh idle_time e of
           None \<Rightarrow> Inl Diverges
         | Some l1 \<Rightarrow>
             if isInLoopThread (u_loop u) t \<and> \<not> held (timing l1) e
             then udp_timeout_destructor close
               (u1\<lparr>u_loop := l1\<lparr>timing := (timing l1)\<lparr>fired := fired (timing l1) @ [e]\<rparr>\<rparr>\<rparr>)
             else Inr (u1\<lparr>u_loop := l1\<rparr>))"

subsection \<open>Lemmas\<close>

text \<open>What \<open>sendto\<close> can report for the datagrams an application sends.\<close>

definition udp_count :: "'a udp_socket_scheme \<Rightarrow> 'a udp_socket_scheme" where
  "udp_count u = u\<lparr>u_completions := Suc (u_completions u)\<rparr>"

definition good_node :: "udp_node \<Rightarrow> bool" where
  "good_node n \<longleftrightarrow> 0 < unat (node_len n) \<and> unat (node_len n) < 2 ^ 31"

definition udp_flow :: "'a udp_socket_scheme \<Rightarrow> (bytes \<times> bytes) list" where
  "udp_flow u = sent u @ map (datagram (u_memory u)) (buffer_list u)"

definition udp_ok :: "(kernel \<Rightarrow> syscall \<Rightarrow> kernel) \<Rightarrow> 'a udp_socket_scheme \<Rightarrow> bool" where
  "udp_ok ctl u \<longleftrightarrow> reg_inv ctl (u_loop u) \<and> registered (u_loop u) (u_event u)
     \<and> (buffer_list u \<noteq> [] \<longrightarrow> watches_write ctl (u_loop u) (u_event u))"

lemma int_of_length: "0 < n \<Longrightarrow> n < 2 ^ 31 \<Longrightarrow> 0 < sint (word_of_int (int n) :: 32 word)"
  by (simp only: sint_sbintrunc') (simp add: signed_take_bit_int_eq_self)

lemma udp_enableWriting_ok:
  assumes "epoll_laws ctl" and "reg_inv ctl (u_loop u)" and "registered (u_loop u) (u_event u)"
    and "b \<or> buffer_list u = []"
  shows "udp_ok ctl (udp_enableWriting u b)"
  using loop_writes.set_ok [of ctl "u_loop u" "u_event u" b] assms
  by (auto simp: udp_ok_def udp_enableWriting_def)

lemma udp_disableWriting:
  assumes "epoll_laws ctl" and "udp_ok ctl u"
  shows "\<not> watches_write ctl (u_loop (udp_enableWriting u False)) (u_event (udp_enableWriting u False))"
  using loop_writes.set_ok [of ctl "u_loop u" "u_event u" False] assms
  by (simp add: udp_ok_def udp_enableWriting_def)

lemma udp_enableWriting_frame [simp]:
  "sent (udp_enableWriting u b) = sent u" "u_memory (udp_enableWriting u b) = u_memory u"
  "buffer_list (udp_enableWriting u b) = buffer_list u" "u_closed (udp_enableWriting u b) = u_closed u"
  "udp_flow (udp_enableWriting u b) = udp_flow u"
  "owner (u_loop (udp_enableWriting u b)) = owner (u_loop u)"
  by (simp_all add: udp_enableWriting_def udp_flow_def enableEventWriting_frame)

lemma udp_onClose_frame [simp]:
  "u_closed (udp_onClose u)" "udp_flow (udp_onClose u) = udp_flow u"
  "u_memory (udp_onClose u) = u_memory u" "buffer_list (udp_onClose u) = buffer_list u"
  "owner (u_loop (udp_onClose u)) = owner (u_loop u)"
  by (simp_all add: udp_onClose_def udp_flow_def close_event_def Let_def)

lemma udp_count_ok [simp]:
  "udp_ok ctl (udp_count u) = udp_ok ctl u" "udp_flow (udp_count u) = udp_flow u"
  "u_closed (udp_count u) = u_closed u" "u_memory (udp_count u) = u_memory u"
  "buffer_list (udp_count u) = buffer_list u" "u_loop (udp_count u) = u_loop u"
  "sent (udp_count u) = sent u"
  by (simp_all add: udp_count_def udp_ok_def udp_flow_def)

lemma udp_extendLife_frame [simp]:
  "sent (udp_extendLife u) = sent u" "u_memory (udp_extendLife u) = u_memory u"
  "buffer_list (udp_extendLife u) = buffer_list u" "u_closed (udp_extendLife u) = u_closed u"
  "udp_flow (udp_extendLife u) = udp_flow u" "answers (udp_extendLife u) = answers u"
  "attempts (udp_extendLife u) = attempts u" "arrivals (udp_extendLife u) = arrivals u"
  "u_buffer (udp_extendLife u) = u_buffer u" "received (udp_extendLife u) = received u"
  "u_event (udp_extendLife u) = u_event u" "owner (u_loop (udp_extendLife u)) = owner (u_loop u)"
  by (simp_all add: udp_extendLife_def udp_flow_def split: option.splits)

lemma watches_write_timing [simp]: "watches_write ctl (l\<lparr>timing := tw\<rparr>) ev = watches_write ctl l ev"
  by (simp add: watches_write_def getFd_def)

lemma udp_extendLife_ok [simp]: "udp_ok ctl (udp_extendLife u) = udp_ok ctl u"
  by (simp add: udp_extendLife_def udp_ok_def registered_def getFd_def split: option.splits)

lemma udp_onWrite_loop_ok:
  assumes "epoll_laws ctl" and "udp_ok ctl u" and "buffer_list u \<noteq> []"
    and "list_all good_node (buffer_list u)" and "\<not> u_closed u"
  shows "\<exists>u'. udp_onWrite_loop (Inr \<circ> udp_onClose) udp_count u = Some (Inr u')
     \<and> udp_flow u' = udp_flow u \<and> u_memory u' = u_memory u
     \<and> set (buffer_list u') \<subseteq> set (buffer_list u) \<and> (u_closed u' \<or> udp_ok ctl u')
     \<and> owner (u_loop u') = owner (u_loop u)"
  using assms(2-5)
proof (induction "length (buffer_list u)" arbitrary: u)
  case 0
  then show ?case by simp
next
  case (Suc k)
  then obtain n ns where bl: "buffer_list u = n # ns" by (cases "buffer_list u") auto
  have "0 < unat (node_len n)" using Suc.prems(3) bl by (simp add: good_node_def)
  then have pos: "0 < uint (node_len n)" by (metis of_nat_0_less_iff uint_nat)
  note unfold = udp_onWrite_loop.simps [of "Inr \<circ> udp_onClose" udp_count u]
  show ?case
  proof (cases "answers u (attempts u)")
    case (Refused e)
    let ?u1 = "u\<lparr>attempts := Suc (attempts u), u_errno := e\<rparr>"
    have "udp_flow ?u1 = udp_flow u" "udp_ok ctl ?u1"
      using Suc.prems(1) by (simp_all add: udp_flow_def udp_ok_def)
    then show ?thesis
      unfolding unfold by (simp add: sys_sendto_def Refused)
  next
    case Accepted
    let ?u1 = "u\<lparr>attempts := Suc (attempts u), sent := sent u @ [datagram (u_memory u) n],
                 buffer_list := ns\<rparr>"
    have flow: "udp_flow ?u1 = udp_flow u" by (simp add: udp_flow_def bl)
    show ?thesis
    proof (cases "ns = []")
      case True
      have "udp_ok ctl (udp_enableWriting (udp_count ?u1) False)"
        using Suc.prems(1) True assms(1)
        by (intro udp_enableWriting_ok) (auto simp: udp_ok_def udp_count_def)
      then show ?thesis
        unfolding unfold using pos True flow by (simp add: sys_sendto_def Accepted bl)
    next
      case False
      have "udp_ok ctl ?u1" using Suc.prems(1) bl by (simp add: udp_ok_def)
      from Suc.hyps(1) [OF _ this] False Suc.hyps(2) Suc.prems bl obtain u' where
        "udp_onWrite_loop (Inr \<circ> udp_onClose) udp_count ?u1 = Some (Inr u')"
        "udp_flow u' = udp_flow ?u1" "u_memory u' = u_memory u" "set (buffer_list u') \<subseteq> set ns"
        "u_closed u' \<or> udp_ok ctl u'" "owner (u_loop u') = owner (u_loop u)" by auto
      with flow show ?thesis
        unfolding unfold using pos False by (auto simp: sys_sendto_def Accepted bl)
    qed
  qed
qed

lemma udp_sendInLoop_ok:
  fixes u :: "'a udp_socket_scheme"
  assumes "good_node n"
  defines "u' \<equiv> udp_sendInLoop udp_count u n"
  shows "udp_flow u' = udp_flow u @ [datagram (u_memory u) n]" and "u_memory u' = u_memory u"
    and "u_closed u' = u_closed u" and "set (buffer_list u') \<subseteq> insert n (set (buffer_list u))"
    and "owner (u_loop u') = owner (u_loop u)"
    and "epoll_laws ctl \<Longrightarrow> udp_ok ctl u \<Longrightarrow> udp_ok ctl u'"
proof -
  have ret: "0 < sint (word_of_int (uint (node_len n)) :: 32 word)"
    using int_of_length [of "unat (node_len n)"] assms(1) by (simp add: good_node_def)
  let ?q = "\<lambda>u1. udp_enableWriting (u1\<lparr>buffer_list := buffer_list u1 @ [n]\<rparr>) True"
  let ?taken = "u\<lparr>attempts := Suc (attempts u), sent := sent u @ [datagram (u_memory u) n]\<rparr>"
  let ?refused = "\<lambda>e. u\<lparr>attempts := Suc (attempts u), u_errno := e\<rparr>"
  have cs: "u' = ?q u \<or> (buffer_list u = [] \<and> u' = udp_count ?taken) \<or> (\<exists>e. u' = ?q (?refused e))"
    using ret by (cases "buffer_list u = []"; cases "answers u (attempts u)")
      (auto simp: u'_def udp_sendInLoop_def sys_sendto_def)
  then show "udp_flow u' = udp_flow u @ [datagram (u_memory u) n]" and "u_memory u' = u_memory u"
    and "u_closed u' = u_closed u" and "set (buffer_list u') \<subseteq> insert n (set (buffer_list u))"
    and "owner (u_loop u') = owner (u_loop u)"
    by (auto simp: udp_flow_def)
  assume ctl: "epoll_laws ctl" "udp_ok ctl u"
  have "udp_ok ctl (?q u)" "udp_ok ctl (?q (?refused e))" for e
    by (rule udp_enableWriting_ok; use ctl in \<open>simp add: udp_ok_def\<close>)+
  moreover have "udp_ok ctl ?taken" using ctl by (simp add: udp_ok_def)
  ultimately show "udp_ok ctl u'"
    using cs by auto
qed

lemma udp_sendInLoop_list_ok:
  fixes u :: "'a udp_socket_scheme" and ns :: "udp_node list"
  defines "u' \<equiv> udp_sendInLoop_list u ns"
  shows "udp_flow u' = udp_flow u @ map (datagram (u_memory u)) ns" and "u_memory u' = u_memory u"
    and "u_closed u' = u_closed u" and "set (buffer_list u') = set (buffer_list u) \<union> set ns"
    and "owner (u_loop u') = owner (u_loop u)"
    and "epoll_laws ctl \<Longrightarrow> udp_ok ctl u \<Longrightarrow> udp_ok ctl u'"
proof -
  show "udp_flow u' = udp_flow u @ map (datagram (u_memory u)) ns" "u_memory u' = u_memory u"
    "u_closed u' = u_closed u" "set (buffer_list u') = set (buffer_list u) \<union> set ns"
    "owner (u_loop u') = owner (u_loop u)"
    by (auto simp: u'_def udp_sendInLoop_list_def udp_flow_def Let_def)
  assume ctl: "epoll_laws ctl" "udp_ok ctl u"
  then have "udp_ok ctl (udp_enableWriting (u\<lparr>buffer_list := buffer_list u @ ns\<rparr>) True)"
    by (intro udp_enableWriting_ok) (auto simp: udp_ok_def)
  then show "udp_ok ctl u'"
    using ctl(2) by (cases "buffer_list u @ ns = []")
      (simp_all add: u'_def udp_sendInLoop_list_def Let_def udp_ok_def)
qed

subsection \<open>Properties: sending\<close>

text \<open>What can happen to a socket in its loop: sends, and the descriptor becoming writable.\<close>

datatype udp_op = Submit udp_node | SubmitList "udp_node list" | Writable

fun udp_run :: "'a udp_socket_scheme \<Rightarrow> nat \<Rightarrow> udp_op list \<Rightarrow> conn_error + 'a udp_socket_scheme" where
  "udp_run u t [] = Inr u"
| "udp_run u t (Submit n # ops) = udp_run (udp_sendInLoop udp_count u n) t ops"
| "udp_run u t (SubmitList ns # ops) = udp_run (udp_sendInLoop_list u ns) t ops"
| "udp_run u t (Writable # ops) =
     (case udp_onWrite (Inr \<circ> udp_onClose) udp_count u t of
        Inl e \<Rightarrow> Inl e | Inr u1 \<Rightarrow> udp_run u1 t ops)"

fun submitted :: "udp_op \<Rightarrow> udp_node list" where
  "submitted (Submit n) = [n]"
| "submitted (SubmitList ns) = ns"
| "submitted Writable = []"

lemma udp_onWrite_ok:
  assumes "epoll_laws ctl" and "u_closed u \<or> udp_ok ctl u" and "t = owner (u_loop u)"
    and "list_all good_node (buffer_list u)"
  shows "\<exists>u'. udp_onWrite (Inr \<circ> udp_onClose) udp_count u t = Inr u'
     \<and> udp_flow u' = udp_flow u \<and> u_memory u' = u_memory u
     \<and> set (buffer_list u') \<subseteq> set (buffer_list u) \<and> (u_closed u' \<or> udp_ok ctl u')
     \<and> owner (u_loop u') = owner (u_loop u)"
proof (cases "u_closed u \<or> buffer_list u = []")
  case True
  let ?u = "udp_enableWriting (udp_extendLife u) False"
  have "udp_ok ctl ?u" if "udp_ok ctl u" "buffer_list u = []"
    using that assms(1) udp_extendLife_ok [of ctl u]
    by (intro udp_enableWriting_ok) (auto simp: udp_ok_def)
  with True assms show ?thesis
    by (auto simp: udp_onWrite_def isInLoopThread_def Let_def)
next
  case False
  then show ?thesis
    using udp_onWrite_loop_ok [of ctl "udp_extendLife u"] assms
    by (auto simp: udp_onWrite_def isInLoopThread_def Let_def)
qed

text \<open>
  C17. Datagrams of 1 to 2^31 - 1 bytes leave in the order they were handed over, none is lost or doubled: for any
  sequence of sends and writable events, and whatever the kernel answers, what was sent
  followed by what is queued is exactly what was submitted, a fatal error included; and as
  long as the socket is open the kernel watches for writability whenever something waits. An empty datagram is
  sent without end (\<open>empty_datagram_hangs_loop\<close>).
\<close>

theorem udp_sends_in_order:
  assumes "epoll_laws ctl" and "udp_ok ctl u" and "t = owner (u_loop u)"
    and "list_all good_node (buffer_list u @ concat (map submitted ops))"
  shows "\<exists>u'. udp_run u t ops = Inr u'
     \<and> sent u' @ map (datagram (u_memory u)) (buffer_list u')
         = sent u @ map (datagram (u_memory u)) (buffer_list u @ concat (map submitted ops))
     \<and> (\<not> u_closed u' \<and> buffer_list u' \<noteq> [] \<longrightarrow> watches_write ctl (u_loop u') (u_event u'))"
proof -
  have "\<exists>u'. udp_run u t ops = Inr u' \<and> u_memory u' = u_memory u
     \<and> udp_flow u' = udp_flow u @ map (datagram (u_memory u)) (concat (map submitted ops))
     \<and> (u_closed u' \<or> udp_ok ctl u')"
    if "u_closed u \<or> udp_ok ctl u" "t = owner (u_loop u)"
      "list_all good_node (buffer_list u @ concat (map submitted ops))" for u :: "'a udp_socket_scheme"
    using that
  proof (induction ops arbitrary: u)
    case Nil
    then show ?case by simp
  next
    case (Cons op ops)
    show ?case
    proof (cases op)
      case (Submit n)
      have n: "good_node n" using Cons.prems(3) Submit by simp
      note st = udp_sendInLoop_ok [OF n, where u = u]
      have "list_all good_node (buffer_list (udp_sendInLoop udp_count u n) @ concat (map submitted ops))"
        using Cons.prems(3) st(4) Submit by (auto simp: list_all_iff)
      from Cons.IH [OF _ _ this] Cons.prems st assms(1) Submit show ?thesis by auto
    next
      case (SubmitList ns)
      note st = udp_sendInLoop_list_ok [where u = u and ns = ns]
      have "list_all good_node (buffer_list (udp_sendInLoop_list u ns) @ concat (map submitted ops))"
        using Cons.prems(3) st(4) SubmitList by (auto simp: list_all_iff)
      from Cons.IH [OF _ _ this] Cons.prems st assms(1) SubmitList show ?thesis by auto
    next
      case Writable
      obtain u1 where u1: "udp_onWrite (Inr \<circ> udp_onClose) udp_count u t = Inr u1"
        "udp_flow u1 = udp_flow u" "u_memory u1 = u_memory u" "owner (u_loop u1) = owner (u_loop u)"
        "set (buffer_list u1) \<subseteq> set (buffer_list u)" "u_closed u1 \<or> udp_ok ctl u1"
        using udp_onWrite_ok [OF assms(1) Cons.prems(1,2)] Cons.prems(3) by auto
      have "list_all good_node (buffer_list u1 @ concat (map submitted ops))"
        using Cons.prems(3) u1(5) Writable by (auto simp: list_all_iff)
      from Cons.IH [OF u1(6) _ this] Cons.prems(2) u1 Writable show ?thesis by auto
    qed
  qed
  from this [of u] assms show ?thesis by (auto simp: udp_flow_def udp_ok_def)
qed

text \<open>A socket on an event loop, whose kernel answers as told, with one registered event.\<close>

definition sample_udp :: "(nat \<Rightarrow> send_answer) \<Rightarrow> (int + bytes \<times> sockaddr) list \<Rightarrow> udp_socket" where
  "sample_udp ans arr =
     (let u = new_UdpSocket sample_loop 1 5 (\<lambda>a. ucast a) ans arr 1
      in u\<lparr>u_loop := addEvent (u_loop u) 1\<rparr>)"

lemma sample_udp [simp]:
  "u_event (sample_udp ans arr) = 1" "u_closed (sample_udp ans arr) = False"
  "buffer_list (sample_udp ans arr) = []" "answers (sample_udp ans arr) = ans"
  "attempts (sample_udp ans arr) = 0" "arrivals (sample_udp ans arr) = arr"
  "u_memory (sample_udp ans arr) = (\<lambda>a. ucast a)" "sent (sample_udp ans arr) = []"
  "received (sample_udp ans arr) = []" "owner (u_loop (sample_udp ans arr)) = 1"
  "u_buffer (sample_udp ans arr) = new_MsgBuffer message_buffer_size"
  "u_timeout_entry (sample_udp ans arr) = None"
  by (simp_all add: sample_udp_def new_UdpSocket_def addEvent_def new_Event_def sample_loop Let_def)

lemma sample_udp_ok: "udp_ok sample_ctl (sample_udp ans arr)"
proof -
  have "reg_inv sample_ctl (new_Event sample_loop 1 5)"
    by (rule new_Event_reg [OF sample_loop(9)]) (simp add: sample_loop)
  then have "reg_inv sample_ctl (addEvent (new_Event sample_loop 1 5) 1)"
    by (rule addEvent_reg [OF sample_ctl_laws], simp_all add: sample_loop)
  then show ?thesis
    by (simp add: udp_ok_def sample_udp_def new_UdpSocket_def registered_def addEvent_def getFd_def
        Let_def new_Event_def sample_loop)
qed

definition sample_node :: "u64 \<Rightarrow> udp_node" where
  "sample_node len = \<lparr>node_buf = 7, node_len = len, node_addr = 100, node_addr_len = 2\<rparr>"

theorem udp_sends_in_order_witness:
  "\<exists>u'. udp_run (sample_udp (\<lambda>k. if k = 0 then Refused EAGAIN else Accepted) []) 1
           [Submit (sample_node 2), Submit (sample_node 3), Writable] = Inr u'
     \<and> sent u' @ map (datagram (\<lambda>a. ucast a)) (buffer_list u')
         = [([7, 8], [100, 101]), ([7, 8, 9], [100, 101])]"
  using udp_sends_in_order [OF sample_ctl_laws sample_udp_ok, of 1 _ "[]"
      "[Submit (sample_node 2), Submit (sample_node 3), Writable]"]
  by (fastforce simp: good_node_def sample_node_def datagram_def read_mem_def upt_rec)

text \<open>
  An empty datagram hangs the loop's thread: \<open>send\<close> of no bytes on an idle socket, which
  the kernel takes and answers with 0, queues the datagram although it has been sent, and the
  next writable event never returns, sending it for ever.
\<close>

lemma empty_datagram_hangs_loop:
  fixes u :: "'a udp_socket_scheme" and n :: udp_node and wc
  assumes "\<not> u_closed u" and "buffer_list u = []" and "node_len n = 0" and "t = owner (u_loop u)"
    and "\<forall>k. answers u k = Accepted"
  defines "u1 \<equiv> udp_sendInLoop wc u n"
  shows "sent u1 = sent u @ [datagram (u_memory u) n] \<and> buffer_list u1 = [n]
     \<and> udp_onWrite close wc u1 t = Inl Diverges"
proof -
  have u1: "u1 = udp_enableWriting (u\<lparr>attempts := Suc (attempts u),
      sent := sent u @ [datagram (u_memory u) n], buffer_list := [n]\<rparr>) True"
    using assms(2,3,5) by (simp add: u1_def udp_sendInLoop_def sys_sendto_def)
  define stuck where "stuck = (\<lambda>u :: 'a udp_socket_scheme.
    buffer_list u = [n] \<and> (\<forall>k. answers u k = Accepted))"
  have never: "udp_onWrite_loop close wc u = Some r \<Longrightarrow> \<not> stuck u" for u r
  proof (rule udp_onWrite_loop.raw_induct [of "\<lambda>close wc u r. \<not> stuck u" close wc, rotated])
    fix f close wc u r
    assume ih: "\<And>close wc u r. f close wc u = Some r \<Longrightarrow> \<not> stuck u"
      and step: "(let (ret, u1) = sys_sendto u (hd (buffer_list u));
          u2 = (if ret > 0 then u1\<lparr>buffer_list := tl (buffer_list u1)\<rparr> else u1)
        in if ret < 0 then
             if \<not> retryable (u_errno u2) then Some (close u2) else Some (Inr u2)
           else if buffer_list u2 = [] then Some (Inr (udp_enableWriting (wc u2) False))
           else f close wc u2) = Some r"
    show "\<not> stuck u"
    proof
      assume st: "stuck u"
      then have "f close wc (u\<lparr>attempts := Suc (attempts u), sent := sent u @ [datagram (u_memory u) n]\<rparr>) = Some r"
        using step assms(3) by (simp add: stuck_def sys_sendto_def)
      from ih [OF this] st show False by (simp add: stuck_def)
    qed
  qed
  have "stuck (udp_extendLife u1)"
    using assms(5) by (simp add: stuck_def u1 udp_enableWriting_def)
  with never have "udp_onWrite_loop close wc (udp_extendLife u1) = None"
    by (cases "udp_onWrite_loop close wc (udp_extendLife u1)") auto
  moreover have "owner (u_loop u1) = owner (u_loop u)" "u_closed u1 = u_closed u"
    by (simp_all add: u1)
  ultimately show ?thesis
    using assms(1,4) by (simp add: u1 udp_onWrite_def isInLoopThread_def Let_def)
qed

lemma empty_datagram_hangs_loop_witness:
  "udp_onWrite (Inr \<circ> udp_onClose) udp_count
     (udp_sendInLoop udp_count (sample_udp (\<lambda>_. Accepted) []) (sample_node 0)) 1 = Inl Diverges"
  using empty_datagram_hangs_loop [of "sample_udp (\<lambda>_. Accepted) []" "sample_node 0" 1
      udp_count "Inr \<circ> udp_onClose"]
  by (simp add: sample_node_def)

text \<open>
  A callback that sends can stall the socket: when the queue has been emptied the code
  first calls the write-complete callback and then stops watching for writability. If the
  callback sends a datagram that the kernel does not take at once, the datagram stays
  queued and nothing will ever report that the socket is writable.
\<close>

lemma callback_send_stalls:
  assumes "epoll_laws ctl" and "udp_ok ctl u" and "\<not> u_closed u" and "t = owner (u_loop u)"
    and "buffer_list u = [n]" and "good_node n"
    and "answers u (attempts u) = Accepted" and "answers u (Suc (attempts u)) = Refused e"
  shows "\<exists>u'. udp_onWrite close (\<lambda>u. udp_sendInLoop udp_count u m) u t = Inr u'
     \<and> buffer_list u' = [m] \<and> \<not> u_closed u'
     \<and> \<not> watches_write ctl (u_loop u') (u_event u')"
proof -
  let ?u = "udp_extendLife u"
  let ?u1 = "?u\<lparr>attempts := Suc (attempts u), sent := sent u @ [datagram (u_memory u) n],
      buffer_list := []\<rparr>"
  let ?u2 = "?u1\<lparr>attempts := Suc (Suc (attempts u)), u_errno := e, buffer_list := [m]\<rparr>"
  let ?u3 = "udp_enableWriting ?u2 True"
  have "0 < unat (node_len n)" using assms(6) by (simp add: good_node_def)
  then have pos: "0 < uint (node_len n)" by (metis of_nat_0_less_iff uint_nat)
  have send: "udp_sendInLoop udp_count ?u1 m = ?u3"
    using assms(8) by (simp add: udp_sendInLoop_def sys_sendto_def)
  have "udp_onWrite_loop close (\<lambda>u. udp_sendInLoop udp_count u m) ?u
      = Some (Inr (udp_enableWriting ?u3 False))"
    using assms(5,7) pos send
    by (simp add: udp_onWrite_loop.simps [of close "\<lambda>u. udp_sendInLoop udp_count u m" ?u]
        sys_sendto_def)
  moreover have "udp_ok ctl ?u" using assms(2) by simp
  then have "udp_ok ctl ?u3"
    by (intro udp_enableWriting_ok [OF assms(1)]) (auto simp: udp_ok_def)
  note udp_disableWriting [OF assms(1) this]
  ultimately show ?thesis
    using assms(3-5) by (simp add: udp_onWrite_def isInLoopThread_def Let_def)
qed

lemma callback_send_stalls_witness:
  "\<exists>u'. udp_onWrite (Inr \<circ> udp_onClose) (\<lambda>u. udp_sendInLoop udp_count u (sample_node 3))
       (udp_enableWriting ((sample_udp (\<lambda>k. if k = 0 then Accepted else Refused EAGAIN) [])
          \<lparr>buffer_list := [sample_node 2]\<rparr>) True) 1 = Inr u'
     \<and> buffer_list u' = [sample_node 3] \<and> \<not> watches_write sample_ctl (u_loop u') (u_event u')"
proof -
  let ?s = "sample_udp (\<lambda>k. if k = 0 then Accepted else Refused EAGAIN) []"
  let ?u = "udp_enableWriting (?s\<lparr>buffer_list := [sample_node 2]\<rparr>) True"
  have ok: "udp_ok sample_ctl ?u"
    using sample_udp_ok by (intro udp_enableWriting_ok [OF sample_ctl_laws]) (auto simp: udp_ok_def)
  have "answers ?u (attempts ?u) = Accepted" "answers ?u (Suc (attempts ?u)) = Refused EAGAIN"
    by (simp_all add: udp_enableWriting_def)
  moreover have "good_node (sample_node 2)" by (simp add: good_node_def sample_node_def)
  ultimately show ?thesis
    using callback_send_stalls [OF sample_ctl_laws ok, of 1 "sample_node 2" EAGAIN "Inr \<circ> udp_onClose" "sample_node 3"]
    by fastforce
qed

subsection \<open>Properties: receiving\<close>

text \<open>The input buffer between two datagrams: empty, with room for the largest read.\<close>

definition udp_buffer_ok :: "msgbuffer \<Rightarrow> bool" where
  "udp_buffer_ok b \<longleftrightarrow> readerIndex b = kCheapPrepend \<and> writerIndex b = kCheapPrepend
     \<and> kCheapPrepend + message_buffer_size \<le> length (buffer b)"

text \<open>A message callback that reads the buffer but does not make it smaller.\<close>

definition keeps_size :: "(inet_address \<Rightarrow> msgbuffer \<Rightarrow> msgbuffer) \<Rightarrow> bool" where
  "keeps_size cb \<longleftrightarrow> (\<forall>p b. length (buffer b) \<le> length (buffer (cb p b)))"

lemma new_buffer_ok: "udp_buffer_ok (new_MsgBuffer message_buffer_size)"
  by (simp add: udp_buffer_ok_def new_MsgBuffer_def)

text \<open>One datagram: it is stored, shown to the callback, and the buffer is reset.\<close>

lemma store_datagram:
  fixes d :: bytes
  assumes "udp_buffer_ok b" and "keeps_size cb"
  defines "d1 \<equiv> take message_buffer_size d"
  shows "\<exists>b1. write_direct b d1 = Some b1 \<and> content b1 = d1 \<and> udp_buffer_ok (retrieveAll (cb p b1))"
proof -
  have le: "length d1 \<le> writableBytes b" and len: "writerIndex b + length d1 \<le> length (buffer b)"
    using assms(1) by (auto simp: udp_buffer_ok_def d1_def buf_defs)
  have b: "buf_ok b" "content b = []"
    using assms(1) by (auto simp: udp_buffer_ok_def buf_ok_def buf_inv_def content_def buf_defs)
  from write_direct_ok [OF b(1) le] b(2) obtain b1 where b1: "write_direct b d1 = Some b1" "content b1 = d1"
      "length (buffer b1) = length (buffer b)" using len by auto
  have "length (buffer b1) \<le> length (buffer (cb p b1))"
    using assms(2) by (simp only: keeps_size_def)
  then have "udp_buffer_ok (retrieveAll (cb p b1))"
    using assms(1) b1(3) by (simp add: udp_buffer_ok_def retrieveAll_def)
  with b1 show ?thesis by blast
qed

text \<open>
  C22. With a message callback that takes what it likes from the buffer but does not make the underlying array
  smaller, every datagram that waits in the socket and is not empty reaches the callback once, in order,
  with its sender, alone in the buffer and cut to 65535 bytes; empty ones are passed over;
  no read overruns the buffer; and the loop ends at the first error, which closes the socket
  unless it says to try again.
\<close>

theorem udp_onRead_delivers:
  assumes "t = owner (u_loop u)" and "\<not> u_closed u" and "udp_buffer_ok (u_buffer u)"
    and "keeps_size cb" and "arrivals u = map Inr ds @ Inl e # rest"
  shows "\<exists>u'. udp_onRead lib close cb u t = (if retryable e then Inr u' else close u')
     \<and> received u' = received u @
         [(sender_address lib src, take message_buffer_size d). (d, src) \<leftarrow> ds, d \<noteq> []]
     \<and> arrivals u' = rest \<and> udp_buffer_ok (u_buffer u') \<and> u_closed u' = u_closed u"
proof -
  have "\<exists>u'. udp_onRead_loop lib close cb u = (if retryable e then Inr u' else close u')
     \<and> received u' = received u @
         [(sender_address lib src, take message_buffer_size d). (d, src) \<leftarrow> ds, d \<noteq> []]
     \<and> arrivals u' = rest \<and> udp_buffer_ok (u_buffer u') \<and> u_closed u' = u_closed u"
    if "udp_buffer_ok (u_buffer u)" "arrivals u = map Inr ds @ Inl e # rest"
    for u :: "'a udp_socket_scheme"
    using that
  proof (induction ds arbitrary: u)
    case Nil
    then show ?case
      by (intro exI [of _ "u\<lparr>arrivals := rest, u_errno := e\<rparr>"])
        (simp add: udp_onRead_loop.simps [of lib close cb u] Let_def)
  next
    case (Cons x ds)
    obtain d src where x: "x = (d, src)" by (cases x)
    let ?u1 = "u\<lparr>arrivals := map Inr ds @ Inl e # rest\<rparr>"
    show ?case
    proof (cases "d = []")
      case True
      have "udp_onRead_loop lib close cb u = udp_onRead_loop lib close cb ?u1"
        using Cons.prems(2) x True by (simp add: udp_onRead_loop.simps [of lib close cb u])
      with Cons.IH [of ?u1] Cons.prems(1) x True show ?thesis by auto
    next
      case False
      then have ne: "take message_buffer_size d \<noteq> []" by (simp add: message_buffer_size_def)
      obtain b1 where b1: "write_direct (u_buffer u) (take message_buffer_size d) = Some b1"
          "content b1 = take message_buffer_size d"
          "udp_buffer_ok (retrieveAll (cb (sender_address lib src) b1))"
        using store_datagram [OF Cons.prems(1) assms(4), of d "sender_address lib src"] by blast
      let ?u2 = "?u1\<lparr>u_buffer := retrieveAll (cb (sender_address lib src) b1),
          received := received u @ [(sender_address lib src, take message_buffer_size d)]\<rparr>"
      have "udp_onRead_loop lib close cb u = udp_onRead_loop lib close cb ?u2"
        using Cons.prems(2) x ne b1(1,2)
        by (simp add: udp_onRead_loop.simps [of lib close cb u] Let_def)
      with Cons.IH [of ?u2] b1(3) x False show ?thesis by auto
    qed
  qed
  from this [of "udp_extendLife u"] assms show ?thesis
    by (simp add: udp_onRead_def isInLoopThread_def)
qed

theorem udp_onRead_delivers_witness:
  "\<exists>u'. udp_onRead sample_lib (Inr \<circ> udp_onClose) (\<lambda>p b. b)
       (sample_udp (\<lambda>_. Accepted) [Inr ([1, 2], SockIn 9 53), Inr ([], SockIn 9 53), Inl EAGAIN]) 1 = Inr u'
     \<and> received u' = [(sender_address sample_lib (SockIn 9 53), [1, 2])]"
  using udp_onRead_delivers [of 1 "sample_udp (\<lambda>_. Accepted)
      [Inr ([1, 2], SockIn 9 53), Inr ([], SockIn 9 53), Inl EAGAIN]" "\<lambda>p b. b"
      "[([1, 2], SockIn 9 53), ([], SockIn 9 53)]" EAGAIN "[]" sample_lib "Inr \<circ> udp_onClose"]
    new_buffer_ok
  by (auto simp: keeps_size_def retryable_def message_buffer_size_def)

end
