(* ===== verification/UdpClient.thy ===== *)
theory UdpClient
  imports UdpSocket
begin

text \<open>
  The datagram server and client of \<open>src/network/UdpServer.cpp\<close> and \<open>UdpClient.cpp\<close>, both
  derived from \<open>UdpSocket\<close>: their records extend its record, so that its operations apply
  to them as they are. Results of system calls are inputs. \<open>starts\<close> and \<open>udp_connects\<close>
  count the closures of \<open>start\<close> and \<open>connect\<close> that wait in the loop's queue.
\<close>

subsection \<open>Operations\<close>

record udp_server = udp_socket +
  server_addr :: inet_address
  bound :: bool
  starts :: nat

definition new_UdpServer ::
    "event_loop \<Rightarrow> nat \<Rightarrow> inet_address \<Rightarrow> (addr \<Rightarrow> byte) \<Rightarrow> (nat \<Rightarrow> send_answer)
       \<Rightarrow> (int + bytes \<times> sockaddr) list \<Rightarrow> nat \<Rightarrow> udp_server" where
  "new_UdpServer l ev a m ans arr hs =
     udp_socket.extend (new_UdpSocket l ev (-1) m ans arr hs) (udp_server.fields a False 0)"

text \<open>\<open>sockfd\<close> and \<open>ret\<close> are the results of creating and binding the socket.\<close>

definition udp_server_open ::
    "udp_server \<Rightarrow> nat \<Rightarrow> int \<Rightarrow> int \<Rightarrow> conn_error + udp_server" where
  "udp_server_open u t sockfd ret =
     (if \<not> isInLoopThread (u_loop u) t then Inl WrongThread
      else
        let l1 = setFd (u_loop u) (u_event u) sockfd
        in if sockfd < 0 then Inr (u\<lparr>u_loop := l1\<rparr>)
           else Inr (u\<lparr>u_loop := addEvent l1 (u_event u), bound := (ret \<ge> 0)\<rparr>))"

text \<open>\<open>start\<close> opens in the loop's thread, at once or by a closure; \<open>fresh\<close> as in \<open>runInLoop\<close>.\<close>

definition udp_server_start ::
    "udp_server \<Rightarrow> nat \<Rightarrow> nat \<times> int \<Rightarrow> int \<Rightarrow> int \<Rightarrow> conn_error + udp_server" where
  "udp_server_start u t fresh sockfd ret =
     (if isInLoopThread (u_loop u) t then udp_server_open u t sockfd ret
      else Inr (u\<lparr>starts := Suc (starts u),
             u_loop := weakup ((u_loop u)\<lparr>queue := queue (u_loop u) @ [UserTask (starts u)]\<rparr>)
                         (fst fresh) (snd fresh)\<rparr>))"

definition udp_server_run_start :: "udp_server \<Rightarrow> int \<Rightarrow> int \<Rightarrow> conn_error + udp_server" where
  "udp_server_run_start u sockfd ret =
     (if starts u = 0 then Inr u
      else udp_server_open (u\<lparr>starts := starts u - 1\<rparr>) (owner (u_loop u)) sockfd ret)"

definition udp_server_stop :: "udp_server \<Rightarrow> nat \<Rightarrow> nat \<times> int \<Rightarrow> udp_server" where
  "udp_server_stop u t fresh =
     (if isInLoopThread (u_loop u) t then udp_onClose u else udp_post u fresh CloseSocket)"

record udp_client = udp_socket +
  connected :: bool
  client_peer :: inet_address
  sock_addr :: addr
  sock_addr_len :: u32
  notices :: "bool list"
  udp_connects :: nat

text \<open>\<open>sa\<close> is the address of \<open>sock_addr_\<close>, a \<open>sockaddr_in6\<close>.\<close>

definition new_UdpClient ::
    "event_loop \<Rightarrow> nat \<Rightarrow> inet_address \<Rightarrow> addr \<Rightarrow> (addr \<Rightarrow> byte) \<Rightarrow> (nat \<Rightarrow> send_answer)
       \<Rightarrow> (int + bytes \<times> sockaddr) list \<Rightarrow> nat \<Rightarrow> udp_client" where
  "new_UdpClient l ev a sa m ans arr hs =
     udp_socket.extend (new_UdpSocket l ev (-1) m ans arr hs) (udp_client.fields False a sa 28 [] 0)"

text \<open>
  The argument of \<open>removeEvent\<close> is a temporary; when the loop held the last other shared
  pointer, the object is destroyed at the end of that call.
\<close>

definition udp_client_onClose :: "udp_client \<Rightarrow> conn_error + udp_client" where
  "udp_client_onClose u =
     (if connected u then
        let u1 = u\<lparr>u_loop := removeEvent (u_loop u) (u_event u)\<rparr>
        in if \<not> udp_kept_alive u1 then Inl UseAfterFree
           else Inr (udp_onClose (u1\<lparr>connected := False\<rparr>))
      else Inr u)"

text \<open>
  \<open>fill\<close> is what \<open>getSockAddress\<close> writes to the client's address structure.
\<close>

definition udp_connectInLoop ::
    "(inet_address \<Rightarrow> addr \<Rightarrow> (addr \<Rightarrow> byte) \<Rightarrow> (addr \<Rightarrow> byte)) \<Rightarrow> udp_client \<Rightarrow> nat \<Rightarrow> int
       \<Rightarrow> conn_error + udp_client" where
  "udp_connectInLoop fill u t sockfd =
     (if \<not> isInLoopThread (u_loop u) t then Inl WrongThread
      else
        let l1 = setFd (u_loop u) (u_event u) sockfd
        in if sockfd < 0 then Inr (u\<lparr>u_loop := l1\<rparr>)
           else Inr (u\<lparr>connected := True, u_loop := addEvent l1 (u_event u),
                       u_memory := fill (client_peer u) (sock_addr u) (u_memory u),
                       notices := notices u @ [True]\<rparr>))"

definition udp_connect ::
    "(inet_address \<Rightarrow> addr \<Rightarrow> (addr \<Rightarrow> byte) \<Rightarrow> (addr \<Rightarrow> byte)) \<Rightarrow> udp_client \<Rightarrow> nat \<Rightarrow> nat \<times> int
       \<Rightarrow> int \<Rightarrow> conn_error + udp_client" where
  "udp_connect fill u t fresh sockfd =
     (if isInLoopThread (u_loop u) t then udp_connectInLoop fill u t sockfd
      else Inr (u\<lparr>udp_connects := Suc (udp_connects u),
             u_loop := weakup ((u_loop u)\<lparr>queue := queue (u_loop u) @ [UserTask (udp_connects u)]\<rparr>)
                         (fst fresh) (snd fresh)\<rparr>))"

definition udp_run_connect ::
    "(inet_address \<Rightarrow> addr \<Rightarrow> (addr \<Rightarrow> byte) \<Rightarrow> (addr \<Rightarrow> byte)) \<Rightarrow> udp_client \<Rightarrow> int
       \<Rightarrow> conn_error + udp_client" where
  "udp_run_connect fill u sockfd =
     (if udp_connects u = 0 then Inr u
      else udp_connectInLoop fill (u\<lparr>udp_connects := udp_connects u - 1\<rparr>) (owner (u_loop u)) sockfd)"

definition udp_client_send ::
    "(udp_client \<Rightarrow> udp_client) \<Rightarrow> udp_client \<Rightarrow> nat \<Rightarrow> nat \<times> int \<Rightarrow> addr \<Rightarrow> u64 \<Rightarrow> udp_client" where
  "udp_client_send wc u t fresh buf len =
     udp_send wc u t fresh \<lparr>node_buf = buf, node_len = len, node_addr = sock_addr u,
       node_addr_len = sock_addr_len u\<rparr>"

definition udp_client_send_list ::
    "udp_client \<Rightarrow> nat \<Rightarrow> nat \<times> int \<Rightarrow> udp_node list \<Rightarrow> udp_client" where
  "udp_client_send_list u t fresh ns = udp_send_list u t fresh ns"

subsection \<open>Properties\<close>

text \<open>
  A client that was closed and connects again is deaf: \<open>connectInLoop\<close> succeeds, the
  user is told so, but the flag \<open>closed_\<close> of the base class stays set, so every readable and
  every writable event returns at once without reading or sending anything, while \<open>onClose\<close>
  no longer closes the new descriptor.
\<close>

lemma reconnected_client_is_deaf:
  assumes "connected u" and "0 < u_holders u" and "t = owner (u_loop u)" and "0 \<le> sockfd"
  shows "\<exists>u1 u2. udp_client_onClose u = Inr u1 \<and> udp_connectInLoop fill u1 t sockfd = Inr u2
     \<and> connected u2 \<and> notices u2 = notices u @ [True]
     \<and> getFd (u_loop u2) (u_event u) = sockfd
     \<and> udp_onRead lib close cb u2 t = Inr u2 \<and> udp_onWrite close wc u2 t = Inr u2
     \<and> (\<exists>u3. udp_client_onClose u2 = Inr u3 \<and> getFd (u_loop u3) (u_event u) = sockfd)"
proof -
  let ?u1 = "udp_onClose (u\<lparr>u_loop := removeEvent (u_loop u) (u_event u), connected := False\<rparr>)"
  let ?u2 = "?u1\<lparr>connected := True, u_loop := addEvent (setFd (u_loop ?u1) (u_event ?u1) sockfd) (u_event ?u1),
      u_memory := fill (client_peer ?u1) (sock_addr ?u1) (u_memory ?u1), notices := notices ?u1 @ [True]\<rparr>"
  have ev: "u_event ?u1 = u_event u" "notices ?u1 = notices u" "u_holders ?u1 = u_holders u"
    by (simp_all add: udp_onClose_def)
  have own: "owner (addEvent l e) = owner l" "owner (setFd l e f) = owner l" for l e f
    by (simp_all add: addEvent_def setFd_def Let_def split: option.splits)
  have fd: "getFd (addEvent (setFd l e sockfd) e) e = sockfd" for l e
    by (simp add: addEvent_def setFd_def getFd_def Let_def split: option.splits)
  have t: "t = owner (u_loop ?u1)" "t = owner (u_loop ?u2)"
    using assms(3) by (simp_all add: own removeEvent_frame)
  have cl: "u_closed ?u2" by simp
  have 1: "udp_client_onClose u = Inr ?u1"
    using assms(1,2) by (simp add: udp_client_onClose_def udp_kept_alive_def)
  have 2: "udp_connectInLoop fill ?u1 t sockfd = Inr ?u2"
    using assms(4) t(1) by (simp add: udp_connectInLoop_def isInLoopThread_def)
  have 3: "udp_onRead lib close cb ?u2 t = Inr ?u2" "udp_onWrite close wc ?u2 t = Inr ?u2"
    using t(2) cl by (simp_all add: udp_onRead_def udp_onWrite_def isInLoopThread_def)
  have 4: "udp_client_onClose ?u2
      = Inr (?u2\<lparr>u_loop := removeEvent (u_loop ?u2) (u_event ?u2), connected := False\<rparr>)"
    using assms(2) cl ev by (simp add: udp_client_onClose_def udp_kept_alive_def udp_onClose_def [of "_\<lparr>connected := _\<rparr>"])
  show ?thesis
    using 1 2 3 4 ev fd by (intro exI [of _ ?u1] exI [of _ ?u2]) (simp add: removeEvent_frame)
qed

definition sample_udp_client :: udp_client where
  "sample_udp_client = udp_socket.extend (sample_udp (\<lambda>_. Accepted) [])
     (udp_client.fields True (new_InetAddress ''10.0.0.1'' 53 False) 100 28 [True] 0)"

lemma sample_udp_client [simp]:
  "connected sample_udp_client" "u_holders sample_udp_client = 1"
  "owner (u_loop sample_udp_client) = 1" "notices sample_udp_client = [True]"
  using sample_udp(10) [of "\<lambda>_. Accepted" "[]"]
  by (simp_all add: sample_udp_client_def udp_socket.defs udp_client.defs sample_udp_def
      new_UdpSocket_def Let_def)

lemma reconnected_client_is_deaf_witness:
  "\<exists>u1 u2. udp_client_onClose sample_udp_client = Inr u1
     \<and> udp_connectInLoop (\<lambda>a p m. m) u1 1 7 = Inr u2 \<and> notices u2 = [True, True]
     \<and> udp_onRead sample_lib udp_client_onClose (\<lambda>p b. b) u2 1 = Inr u2"
  using reconnected_client_is_deaf [of sample_udp_client 1 7 "\<lambda>a p m. m" sample_lib
      udp_client_onClose "\<lambda>p b. b" id]
  by auto

end
