(* ===== verification/LoopThread.thy ===== *)
theory LoopThread
  imports EventLoop
begin

text \<open>
  The thread that runs an event loop, of \<open>src/network/net/EventLoopThread.cpp\<close>. Any number of
  threads may call \<open>run\<close>, and the owner destroys the object; each is a program counter, and one
  step is one action on the shared state: the mutex with its flag \<open>running_\<close>, the condition
  variable, the promise, the \<open>once_flag\<close>, the pointer \<open>loop_\<close>, and the loop on the worker's
  stack. A thread asleep on the condition variable only wakes when it is notified or, as the
  standard allows, for no reason.
\<close>

subsection \<open>State\<close>

text \<open>
  Where the worker is in \<open>startLoop\<close>: before or inside \<open>cv_.wait\<close>, past it, after
  publishing \<open>loop_\<close>, after fulfilling the promise, inside \<open>loop\<close>, after it, after clearing
  \<open>loop_\<close>, and finished.
\<close>

datatype worker = WChecking | WAsleep | WGo | WPublished | WPromised | WLooping | WExiting
  | WLeaving | WDone

text \<open>
  A caller of \<open>run\<close>: not yet there, at \<open>call_once\<close>, inside the closure after setting
  \<open>running_\<close>, after the notification, and returned.
\<close>

datatype caller = Before | Calling | Setting | Notified | Returned

datatype once = NotRun | Running nat | Complete

text \<open>The owner in the destructor, which calls \<open>run\<close> as caller 0.\<close>

datatype destroyer = Alive | DCalling | DRan | DJoining | DJoined

record loop_thread =
  running :: bool
  loop_set :: bool
  promise_set :: bool
  once_flag :: once
  the_loop :: event_loop
  worker :: worker
  callers :: "nat \<Rightarrow> caller"
  destroyer :: destroyer

text \<open>The constructor starts the worker, which constructs the loop \<open>l\<close> and goes to wait.\<close>

definition new_EventLoopThread :: "event_loop \<Rightarrow> loop_thread" where
  "new_EventLoopThread l =
     \<lparr>running = False, loop_set = False, promise_set = False, once_flag = NotRun, the_loop = l,
      worker = WChecking, callers = (\<lambda>_. Before), destroyer = Alive\<rparr>"

definition getLoop :: "loop_thread \<Rightarrow> event_loop option" where
  "getLoop s = (if loop_set s then Some (the_loop s) else None)"

subsection \<open>Steps\<close>

inductive worker_step :: "loop_thread \<Rightarrow> loop_thread \<Rightarrow> bool" where
  check: "worker s = WChecking \<Longrightarrow>
     worker_step s (s\<lparr>worker := (if running s then WGo else WAsleep)\<rparr>)"
| publish: "worker s = WGo \<Longrightarrow> worker_step s (s\<lparr>loop_set := True, worker := WPublished\<rparr>)"
| promise: "worker s = WPublished \<Longrightarrow> worker_step s (s\<lparr>promise_set := True, worker := WPromised\<rparr>)"
| enter_loop: "worker s = WPromised \<Longrightarrow>
     worker_step s (s\<lparr>the_loop := (the_loop s)\<lparr>looping := True\<rparr>, worker := WLooping\<rparr>)"
| round: "worker s = WLooping \<Longrightarrow> looping (the_loop s) \<Longrightarrow> looping l \<Longrightarrow>
     worker_step s (s\<lparr>the_loop := l\<rparr>)"
| leave_loop: "worker s = WLooping \<Longrightarrow> \<not> looping (the_loop s) \<Longrightarrow>
     worker_step s (s\<lparr>running := False, worker := WExiting\<rparr>)"
| clear: "worker s = WExiting \<Longrightarrow> worker_step s (s\<lparr>loop_set := False, worker := WLeaving\<rparr>)"
| destruct: "worker s = WLeaving \<Longrightarrow>
     worker_step s (s\<lparr>the_loop := quit (the_loop s), worker := WDone\<rparr>)"

text \<open>\<open>run\<close>, by caller \<open>i\<close>: only the first one through \<open>call_once\<close> runs the closure.\<close>

inductive run_step :: "nat \<Rightarrow> loop_thread \<Rightarrow> loop_thread \<Rightarrow> bool" where
  set_running: "callers s i = Calling \<Longrightarrow> once_flag s = NotRun \<Longrightarrow>
     run_step i s (s\<lparr>once_flag := Running i, running := True, callers := (callers s)(i := Setting)\<rparr>)"
| notify: "callers s i = Setting \<Longrightarrow>
     run_step i s (s\<lparr>callers := (callers s)(i := Notified),
       worker := (if worker s = WAsleep then WChecking else worker s)\<rparr>)"
| get_future: "callers s i = Notified \<Longrightarrow> promise_set s \<Longrightarrow>
     run_step i s (s\<lparr>once_flag := Complete, callers := (callers s)(i := Returned)\<rparr>)"
| already: "callers s i = Calling \<Longrightarrow> once_flag s = Complete \<Longrightarrow>
     run_step i s (s\<lparr>callers := (callers s)(i := Returned)\<rparr>)"

inductive destroy_step :: "loop_thread \<Rightarrow> loop_thread \<Rightarrow> bool" where
  call_run: "destroyer s = Alive \<Longrightarrow> callers s 0 = Before \<Longrightarrow>
     destroy_step s (s\<lparr>destroyer := DCalling, callers := (callers s)(0 := Calling)\<rparr>)"
| ran: "destroyer s = DCalling \<Longrightarrow> callers s 0 = Returned \<Longrightarrow> destroy_step s (s\<lparr>destroyer := DRan\<rparr>)"
| quit_loop: "destroyer s = DRan \<Longrightarrow>
     destroy_step s (s\<lparr>the_loop := (if loop_set s then quit (the_loop s) else the_loop s),
       destroyer := DJoining\<rparr>)"
| join: "destroyer s = DJoining \<Longrightarrow> worker s = WDone \<Longrightarrow> destroy_step s (s\<lparr>destroyer := DJoined\<rparr>)"

inductive thread_step :: "loop_thread \<Rightarrow> loop_thread \<Rightarrow> bool" where
  work: "worker_step s s' \<Longrightarrow> thread_step s s'"
| wake: "worker s = WAsleep \<Longrightarrow> thread_step s (s\<lparr>worker := WChecking\<rparr>)"
| call: "0 < i \<Longrightarrow> callers s i = Before \<Longrightarrow> thread_step s (s\<lparr>callers := (callers s)(i := Calling)\<rparr>)"
| run: "run_step i s s' \<Longrightarrow> thread_step s s'"
| destroy: "destroy_step s s' \<Longrightarrow> thread_step s s'"

inductive_cases worker_stepE: "worker_step s s'"
inductive_cases run_stepE: "run_step i s s'"
inductive_cases destroy_stepE: "destroy_step s s'"
inductive_cases thread_stepE: "thread_step s s'"

inductive thread_reachable :: "loop_thread \<Rightarrow> bool" where
  init: "\<not> looping l \<Longrightarrow> thread_reachable (new_EventLoopThread l)"
| step: "thread_reachable s \<Longrightarrow> thread_step s s' \<Longrightarrow> thread_reachable s'"

subsection \<open>Invariant\<close>

text \<open>
  The flag is set once a caller is through \<open>call_once\<close>; a sleeping worker has not missed the
  notification; the promise is fulfilled only after the loop is published; and the loop
  stays published until it is asked to quit, which only the destructor does.
\<close>

fun phase :: "worker \<Rightarrow> nat" where
  "phase WChecking = 0"
| "phase WAsleep = 0"
| "phase WGo = 1"
| "phase WPublished = 2"
| "phase WPromised = 3"
| "phase WLooping = 4"
| "phase WExiting = 5"
| "phase WLeaving = 6"
| "phase WDone = 7"

definition inv_worker :: "loop_thread \<Rightarrow> bool" where
  "inv_worker s \<longleftrightarrow>
     loop_set s = (2 \<le> phase (worker s) \<and> phase (worker s) \<le> 5)
   \<and> promise_set s = (3 \<le> phase (worker s))
   \<and> (phase (worker s) \<le> 3 \<longrightarrow> running s = (once_flag s \<noteq> NotRun))
   \<and> (1 \<le> phase (worker s) \<longrightarrow> once_flag s \<noteq> NotRun)
   \<and> (once_flag s = Complete \<longrightarrow> 3 \<le> phase (worker s))"

definition inv_callers :: "loop_thread \<Rightarrow> bool" where
  "inv_callers s \<longleftrightarrow>
     (\<forall>i. callers s i = Returned \<longrightarrow> once_flag s = Complete)
   \<and> (\<forall>i. (callers s i = Setting \<or> callers s i = Notified) = (once_flag s = Running i))"

definition inv_sleep :: "loop_thread \<Rightarrow> bool" where
  "inv_sleep s \<longleftrightarrow> (worker s = WAsleep \<longrightarrow> running s \<longrightarrow> (\<exists>i. callers s i = Setting))"

definition quitting :: "loop_thread \<Rightarrow> bool" where
  "quitting s \<longleftrightarrow> destroyer s = DJoining \<or> destroyer s = DJoined"

definition inv_destroy :: "loop_thread \<Rightarrow> bool" where
  "inv_destroy s \<longleftrightarrow>
     (\<not> quitting s \<longrightarrow> phase (worker s) \<le> 3 \<or> worker s = WLooping \<and> looping (the_loop s))
   \<and> (destroyer s = Alive) = (callers s 0 = Before)
   \<and> (destroyer s = DRan \<or> quitting s \<longrightarrow> callers s 0 = Returned)"

definition thread_inv :: "loop_thread \<Rightarrow> bool" where
  "thread_inv s \<longleftrightarrow> inv_worker s \<and> inv_callers s \<and> inv_sleep s \<and> inv_destroy s"

lemmas thread_inv_defs = inv_worker_def inv_callers_def inv_sleep_def inv_destroy_def quitting_def

lemma thread_inv_init: "thread_inv (new_EventLoopThread l)"
  by (simp add: thread_inv_def thread_inv_defs new_EventLoopThread_def)

lemma inv_worker_step: "thread_step s s' \<Longrightarrow> inv_worker s \<Longrightarrow> inv_callers s \<Longrightarrow> inv_worker s'"
  by (erule thread_stepE; (elim worker_stepE run_stepE destroy_stepE)?;
      simp add: inv_worker_def inv_callers_def; fastforce?)

lemma inv_callers_step: "thread_step s s' \<Longrightarrow> inv_callers s \<Longrightarrow> inv_callers s'"
  by (erule thread_stepE; (elim worker_stepE run_stepE destroy_stepE)?;
      simp add: inv_callers_def; metis caller.distinct once.distinct once.inject)

lemma inv_sleep_step: "thread_step s s' \<Longrightarrow> inv_sleep s \<Longrightarrow> inv_sleep s'"
  by (erule thread_stepE; (elim worker_stepE run_stepE destroy_stepE)?;
      simp add: inv_sleep_def; metis caller.distinct neq0_conv)

lemma inv_destroy_step: "thread_step s s' \<Longrightarrow> inv_destroy s \<Longrightarrow> inv_destroy s'"
  by (erule thread_stepE; (elim worker_stepE run_stepE destroy_stepE)?;
      auto simp: inv_destroy_def quitting_def split: if_splits)

lemma thread_invD: "thread_reachable s \<Longrightarrow> thread_inv s"
proof (induction rule: thread_reachable.induct)
  case (init l)
  show ?case by (rule thread_inv_init)
next
  case (step s s')
  then show ?case
    using inv_worker_step inv_callers_step inv_sleep_step inv_destroy_step
    unfolding thread_inv_def by blast
qed

lemma phase_3_4: "phase w \<le> 3 \<Longrightarrow> 3 \<le> phase w \<Longrightarrow> w = WPromised"
  by (cases w) auto

subsection \<open>Properties\<close>

text \<open>
  C16. When \<open>run\<close> has returned to any caller, \<open>getLoop\<close> gives the thread's loop, and goes on
  giving it until the destructor asks the loop to quit: in every reachable state of every
  interleaving of callers, worker, spurious wake-ups and destructor.
\<close>

theorem run_returns_with_loop:
  assumes "thread_reachable s" and "callers s i = Returned" and "\<not> quitting s"
  shows "getLoop s = Some (the_loop s) \<and> (worker s = WPromised \<or> worker s = WLooping)"
proof -
  have inv: "inv_worker s" "inv_callers s" "inv_destroy s"
    using thread_invD [OF assms(1)] by (simp_all add: thread_inv_def)
  then have "3 \<le> phase (worker s)" using assms(2) by (auto simp: inv_callers_def inv_worker_def)
  moreover have "phase (worker s) \<le> 3 \<or> worker s = WLooping"
    using inv(3) assms(3) by (auto simp: inv_destroy_def)
  ultimately have "worker s = WPromised \<or> worker s = WLooping" using phase_3_4 by blast
  with inv(1) show ?thesis by (auto simp: inv_worker_def getLoop_def)
qed

text \<open>One thread created, and its owner calling \<open>run\<close> from the destructor.\<close>

lemma destroyed_at_once_reachable:
  "thread_reachable ((new_EventLoopThread sample_loop)\<lparr>running := True, loop_set := True,
     promise_set := True, once_flag := Complete, worker := WPromised,
     callers := (\<lambda>_. Before)(0 := Returned), destroyer := DRan\<rparr>)" (is "thread_reachable ?s8")
proof -
  let ?n = "new_EventLoopThread sample_loop"
  let ?s1 = "?n\<lparr>destroyer := DCalling, callers := (callers ?n)(0 := Calling)\<rparr>"
  let ?s2 = "?s1\<lparr>once_flag := Running 0, running := True, callers := (callers ?s1)(0 := Setting)\<rparr>"
  let ?s3 = "?s2\<lparr>callers := (callers ?s2)(0 := Notified),
       worker := (if worker ?s2 = WAsleep then WChecking else worker ?s2)\<rparr>"
  let ?s4 = "?s3\<lparr>worker := (if running ?s3 then WGo else WAsleep)\<rparr>"
  let ?s5 = "?s4\<lparr>loop_set := True, worker := WPublished\<rparr>"
  let ?s6 = "?s5\<lparr>promise_set := True, worker := WPromised\<rparr>"
  let ?s7 = "?s6\<lparr>once_flag := Complete, callers := (callers ?s6)(0 := Returned)\<rparr>"
  note n = new_EventLoopThread_def
  have "thread_reachable ?n"
    by (rule thread_reachable.init) (simp add: sample_loop_def new_EventLoop_def)
  then have "thread_reachable ?s1"
    by (rule thread_reachable.step [OF _ destroy [OF call_run]]) (simp_all add: n)
  then have "thread_reachable ?s2"
    by (rule thread_reachable.step [OF _ run [OF set_running]]) (simp_all add: n)
  then have "thread_reachable ?s3"
    by (rule thread_reachable.step [OF _ run [OF notify]]) (simp_all add: n)
  then have "thread_reachable ?s4"
    by (rule thread_reachable.step [OF _ work [OF check]]) (simp_all add: n)
  then have "thread_reachable ?s5"
    by (rule thread_reachable.step [OF _ work [OF publish]]) (simp_all add: n)
  then have "thread_reachable ?s6"
    by (rule thread_reachable.step [OF _ work [OF promise]]) (simp_all add: n)
  then have "thread_reachable ?s7"
    by (rule thread_reachable.step [OF _ run [OF get_future]]) (simp_all add: n)
  then have "thread_reachable (?s7\<lparr>destroyer := DRan\<rparr>)"
    by (rule thread_reachable.step [OF _ destroy [OF ran]]) (simp_all add: n)
  then show ?thesis by (simp add: n)
qed

theorem run_returns_with_loop_witness:
  "\<exists>s. thread_reachable s \<and> callers s 0 = Returned \<and> getLoop s = Some (the_loop s)"
  using run_returns_with_loop [OF destroyed_at_once_reachable, of 0] destroyed_at_once_reachable
  by (auto simp: quitting_def)

text \<open>
  The destructor can hang: it waits for \<open>run\<close>, asks the loop to quit and joins the worker,
  but the worker may still be on its way from the promise into \<open>loop\<close>, which sets the flag
  again that \<open>quit\<close> has cleared. From the state in which the destructor is about to quit,
  joining is possible if and only if the worker has already entered the loop.
\<close>

lemma early_quit_is_lost:
  assumes "thread_reachable s" and "destroyer s = DRan"
  shows "\<exists>s1. destroy_step s s1
     \<and> ((\<exists>s2. thread_step\<^sup>*\<^sup>* s1 s2 \<and> destroyer s2 = DJoined) \<longleftrightarrow> worker s = WLooping)"
proof -
  have "callers s 0 = Returned" "\<not> quitting s"
    using thread_invD [OF assms(1)] assms(2)
    by (simp_all add: thread_inv_def inv_destroy_def quitting_def)
  note w = run_returns_with_loop [OF assms(1) this]
  then have set: "loop_set s" by (simp add: getLoop_def split: if_splits)
  let ?s1 = "s\<lparr>the_loop := quit (the_loop s), destroyer := DJoining\<rparr>"
  have q: "destroy_step s ?s1" using quit_loop [OF assms(2)] set by simp
  have lost: "destroyer s2 \<noteq> DJoined" if "thread_step\<^sup>*\<^sup>* ?s1 s2" "worker s = WPromised" for s2
  proof -
    have "destroyer s2 = DJoining
        \<and> (worker s2 = WPromised \<or> worker s2 = WLooping \<and> looping (the_loop s2))"
      using that(1)
    proof (induction rule: rtranclp_induct)
      case base
      show ?case using that(2) by simp
    next
      case (step x y)
      from step(2,3) show ?case by (auto elim!: thread_stepE worker_stepE run_stepE destroy_stepE split: if_splits)
    qed
    then show ?thesis by simp
  qed
  have joins: "\<exists>s2. thread_step\<^sup>*\<^sup>* ?s1 s2 \<and> destroyer s2 = DJoined" if "worker s = WLooping"
  proof -
    let ?s2 = "?s1\<lparr>running := False, worker := WExiting\<rparr>"
    let ?s3 = "?s2\<lparr>loop_set := False, worker := WLeaving\<rparr>"
    let ?s4 = "?s3\<lparr>the_loop := quit (the_loop ?s3), worker := WDone\<rparr>"
    have "thread_step ?s1 ?s2" using that by (intro work leave_loop) (simp_all add: quit_def syscall_def)
    moreover have "thread_step ?s2 ?s3" by (intro work clear) simp
    moreover have "thread_step ?s3 ?s4" by (intro work destruct) simp
    moreover have "thread_step ?s4 (?s4\<lparr>destroyer := DJoined\<rparr>)" by (intro destroy join) simp_all
    ultimately have "thread_step\<^sup>*\<^sup>* ?s1 (?s4\<lparr>destroyer := DJoined\<rparr>)"
      by (meson rtranclp.rtrancl_into_rtrancl rtranclp.rtrancl_refl)
    then show ?thesis by (intro exI [of _ "?s4\<lparr>destroyer := DJoined\<rparr>"]) simp
  qed
  show ?thesis using q lost joins w by (intro exI [of _ ?s1]) auto
qed

lemma early_quit_is_lost_witness:
  "\<exists>s s1. thread_reachable s \<and> destroy_step s s1
     \<and> \<not> (\<exists>s2. thread_step\<^sup>*\<^sup>* s1 s2 \<and> destroyer s2 = DJoined)"
proof -
  let ?s = "(new_EventLoopThread sample_loop)\<lparr>running := True, loop_set := True,
     promise_set := True, once_flag := Complete, worker := WPromised,
     callers := (\<lambda>_. Before)(0 := Returned), destroyer := DRan\<rparr>"
  have "destroyer ?s = DRan" "worker ?s \<noteq> WLooping" by simp_all
  with early_quit_is_lost [OF destroyed_at_once_reachable] destroyed_at_once_reachable
  show ?thesis by metis
qed

text \<open>A step of the worker or of a pending call.\<close>

definition act :: "loop_thread \<Rightarrow> loop_thread \<Rightarrow> bool" where
  "act s s' \<longleftrightarrow> worker_step s s' \<or> (\<exists>i. run_step i s s')"

lemma act_worker: "worker_step s s' \<Longrightarrow> act\<^sup>*\<^sup>* s' s'' \<Longrightarrow> act\<^sup>*\<^sup>* s s''"
  by (meson act_def converse_rtranclp_into_rtranclp)

lemma act_run: "run_step i s s' \<Longrightarrow> act\<^sup>*\<^sup>* s' s'' \<Longrightarrow> act\<^sup>*\<^sup>* s s''"
  by (meson act_def converse_rtranclp_into_rtranclp)

lemma thread_inv_act: "act s s' \<Longrightarrow> thread_inv s \<Longrightarrow> thread_inv s'"
  using inv_worker_step inv_callers_step inv_sleep_step inv_destroy_step work run
  unfolding thread_inv_def act_def by blast

lemma thread_inv_run: "run_step i s s' \<Longrightarrow> thread_inv s \<Longrightarrow> thread_inv s'"
  using thread_inv_act act_def by blast

lemma worker_promises:
  assumes "running s" and "worker s \<noteq> WAsleep" and "promise_set s \<or> phase (worker s) \<le> 2"
  shows "\<exists>s'. act\<^sup>*\<^sup>* s s' \<and> promise_set s' \<and> callers s' = callers s \<and> once_flag s' = once_flag s"
    (is "?P s")
proof -
  have pub: "?P s" if "worker s = WPublished" for s
    using that act_worker [OF promise [OF that] rtranclp.rtrancl_refl] by fastforce
  have go: "?P s" if "worker s = WGo" for s
  proof -
    obtain s' where "act\<^sup>*\<^sup>* (s\<lparr>loop_set := True, worker := WPublished\<rparr>) s'" "promise_set s'"
      "callers s' = callers s" "once_flag s' = once_flag s"
      using pub [of "s\<lparr>loop_set := True, worker := WPublished\<rparr>"] by auto
    with act_worker [OF publish [OF that]] show ?thesis by blast
  qed
  show ?thesis
  proof (cases "promise_set s")
    case True
    then show ?thesis by blast
  next
    case False
    with assms consider "worker s = WChecking" | "worker s = WGo" | "worker s = WPublished"
      by (cases "worker s") auto
    then show ?thesis
    proof cases
      case 1
      obtain s' where "act\<^sup>*\<^sup>* (s\<lparr>worker := WGo\<rparr>) s'" "promise_set s'"
        "callers s' = callers s" "once_flag s' = once_flag s"
        using go [of "s\<lparr>worker := WGo\<rparr>"] by auto
      with act_worker [OF check [OF 1]] assms(1) show ?thesis by auto
    qed (fact go pub)+
  qed
qed

text \<open>The caller inside the closure returns, and the others stay where they are.\<close>

lemma notified_returns:
  assumes "thread_inv s" and "callers s j = Notified"
  shows "\<exists>s'. act\<^sup>*\<^sup>* s s' \<and> once_flag s' = Complete \<and> callers s' = (callers s)(j := Returned)"
proof -
  have o: "once_flag s = Running j" using assms by (auto simp: thread_inv_def inv_callers_def)
  have r: "running s \<or> promise_set s" and p: "promise_set s \<or> phase (worker s) \<le> 2"
    using assms(1) o by (auto simp: thread_inv_def inv_worker_def)
  have "promise_set s \<or> worker s \<noteq> WAsleep"
  proof (rule disjCI)
    assume "\<not> worker s \<noteq> WAsleep"
    moreover have "\<not> (\<exists>i. callers s i = Setting)"
      using assms o unfolding thread_inv_def inv_callers_def
      by (metis caller.distinct once.inject)
    ultimately show "promise_set s" using assms(1) r by (auto simp: thread_inv_def inv_sleep_def)
  qed
  then obtain s' where s': "act\<^sup>*\<^sup>* s s'" "promise_set s'" "callers s' = callers s"
    using worker_promises [of s] r p by blast
  have "act s' (s'\<lparr>once_flag := Complete, callers := (callers s')(j := Returned)\<rparr>)"
    using get_future [of s' j] s' assms(2) by (auto simp: act_def)
  with s'(1) have "act\<^sup>*\<^sup>* s (s'\<lparr>once_flag := Complete, callers := (callers s')(j := Returned)\<rparr>)"
    by (rule rtranclp.rtrancl_into_rtrancl)
  with s'(3) show ?thesis by fastforce
qed

lemma setting_returns:
  assumes "thread_inv s" and "callers s j = Setting \<or> callers s j = Notified"
  shows "\<exists>s'. act\<^sup>*\<^sup>* s s' \<and> once_flag s' = Complete \<and> callers s' = (callers s)(j := Returned)"
proof (cases "callers s j = Notified")
  case True
  then show ?thesis using notified_returns assms(1) by blast
next
  case False
  with assms(2) have n: "callers s j = Setting" by simp
  let ?s1 = "s\<lparr>callers := (callers s)(j := Notified),
      worker := (if worker s = WAsleep then WChecking else worker s)\<rparr>"
  have "thread_inv ?s1" by (rule thread_inv_run [OF notify [OF n] assms(1)])
  from notified_returns [OF this, of j] act_run [OF notify [OF n]] show ?thesis by force
qed

text \<open>
  C24. No call of \<open>run\<close> gets stuck: from every reachable state the worker and the callers
  alone, without new calls and without spurious wake-ups, can bring any pending call to its
  end. In particular the notification is never lost.
\<close>

theorem run_never_stuck:
  assumes "thread_reachable s" and "callers s i \<noteq> Before"
  shows "\<exists>s'. act\<^sup>*\<^sup>* s s' \<and> callers s' i = Returned"
proof -
  have inv: "thread_inv s" by (rule thread_invD [OF assms(1)])
  have rest: "\<exists>s'. act\<^sup>*\<^sup>* s s' \<and> callers s' i = Returned"
    if "callers s i = Calling" "once_flag s = Complete" for s
    using act_run [OF already [OF that] rtranclp.rtrancl_refl] by fastforce
  consider "callers s i = Returned" | "callers s i = Setting \<or> callers s i = Notified"
    | "callers s i = Calling" using assms(2) by (cases "callers s i") auto
  then show ?thesis
  proof cases
    case 1
    then show ?thesis by blast
  next
    case 2
    with setting_returns [OF inv] show ?thesis by force
  next
    case 3
    show ?thesis
    proof (cases "once_flag s")
      case NotRun
      let ?s1 = "s\<lparr>once_flag := Running i, running := True, callers := (callers s)(i := Setting)\<rparr>"
      note st = set_running [OF 3 NotRun]
      have "thread_inv ?s1" by (rule thread_inv_run [OF st inv])
      from setting_returns [OF this, of i] act_run [OF st] show ?thesis by force
    next
      case (Running j)
      then have j: "callers s j = Setting \<or> callers s j = Notified"
        using inv by (auto simp: thread_inv_def inv_callers_def)
      from setting_returns [OF inv j] obtain s1 where s1: "act\<^sup>*\<^sup>* s s1" "once_flag s1 = Complete"
        "callers s1 = (callers s)(j := Returned)" by blast
      have "callers s1 i = Calling" using 3 j s1(3) by auto
      from rest [OF this s1(2)] s1(1) show ?thesis by (meson rtranclp_trans)
    next
      case Complete
      with rest 3 show ?thesis by blast
    qed
  qed
qed

theorem run_never_stuck_witness:
  "\<exists>s'. act\<^sup>*\<^sup>* ((new_EventLoopThread sample_loop)\<lparr>callers := (\<lambda>_. Before)(3 := Calling)\<rparr>) s'
     \<and> callers s' 3 = Returned"
proof -
  let ?n = "new_EventLoopThread sample_loop"
  have "thread_reachable ?n"
    by (rule thread_reachable.init) (simp add: sample_loop_def new_EventLoop_def)
  then have "thread_reachable (?n\<lparr>callers := (callers ?n)(3 := Calling)\<rparr>)"
    by (rule thread_reachable.step [OF _ call]) (simp_all add: new_EventLoopThread_def)
  then show ?thesis
    using run_never_stuck [of "?n\<lparr>callers := (\<lambda>_. Before)(3 := Calling)\<rparr>" 3]
    by (simp add: new_EventLoopThread_def)
qed

end
