(* ===== verification/LoopThreadPool.thy ===== *)
theory LoopThreadPool
  imports LoopThread
begin

text \<open>
  The pool of loop threads, \<open>src/network/net/EventLoopThreadPool.cpp\<close>. A thread of the pool is
  a thread of \<open>LoopThread\<close> with the processor it is bound to. The counter of \<open>getNextLoop\<close>
  is an \<open>int\<close>: \<open>None\<close> is its overflow, which is undefined behaviour, as is the overflow of
  \<open>start + i\<close> in the constructor.
\<close>

subsection \<open>Operations\<close>

record pool =
  threads :: "(loop_thread \<times> nat option) list"
  loop_index :: int

definition INT_MAX :: int where "INT_MAX = 2 ^ 31 - 1"

text \<open>\<open>bindCpu\<close> records the processor; \<open>l i\<close> is the loop the \<open>i\<close>-th thread constructs.\<close>

definition bindCpu :: "loop_thread \<Rightarrow> int \<Rightarrow> loop_thread \<times> nat option" where
  "bindCpu s n = (s, Some (nat n))"

definition new_pool :: "(nat \<Rightarrow> event_loop) \<Rightarrow> int \<Rightarrow> int \<Rightarrow> int \<Rightarrow> pool option" where
  "new_pool l num start cpus =
     (let num1 = (if num \<le> 0 then 1 else num);
          start1 = (if start < 0 then 0 else start);
          mk = (\<lambda>i. if cpus > 0 then bindCpu (new_EventLoopThread (l i)) ((start1 + int i) mod cpus)
                    else (new_EventLoopThread (l i), None))
      in if cpus > 0 \<and> start1 + (num1 - 1) > INT_MAX then None
         else Some \<lparr>threads = map mk [0..<nat num1], loop_index = 0\<rparr>)"

definition getEventLoops :: "pool \<Rightarrow> event_loop option list" where
  "getEventLoops p = map (\<lambda>t. getLoop (fst t)) (threads p)"

definition pool_size :: "pool \<Rightarrow> nat" where
  "pool_size p = length (threads p)"

text \<open>The old value is converted to \<open>size_t\<close>, which a negative one would change.\<close>

definition getNextLoop :: "pool \<Rightarrow> (event_loop option \<times> pool) option" where
  "getNextLoop p =
     (if loop_index p = INT_MAX then None
      else
        let n = unat (word_of_int (loop_index p) :: u64) mod length (threads p)
        in Some (getLoop (fst (threads p ! n)), p\<lparr>loop_index := loop_index p + 1\<rparr>))"

text \<open>
  \<open>start\<close> calls \<open>run\<close> of every thread, as caller \<open>i\<close>, while the threads take any steps.
\<close>

definition pool_start :: "nat \<Rightarrow> pool \<Rightarrow> pool \<Rightarrow> bool" where
  "pool_start i p p' \<longleftrightarrow> loop_index p' = loop_index p
     \<and> list_all2 (\<lambda>(s, c) (s', c'). c' = c \<and> thread_step\<^sup>*\<^sup>* s s' \<and> callers s' i = Returned
          \<and> \<not> quitting s') (threads p) (threads p')"

fun next_loops :: "nat \<Rightarrow> pool \<Rightarrow> (event_loop option list \<times> pool) option" where
  "next_loops 0 p = Some ([], p)"
| "next_loops (Suc k) p =
     do { (l, p1) \<leftarrow> getNextLoop p; (ls, p2) \<leftarrow> next_loops k p1; Some (l # ls, p2) }"

subsection \<open>Lemmas\<close>

lemma getNextLoop_ok:
  assumes "loop_index p = int n" and "int n < INT_MAX"
  shows "getNextLoop p = Some (getLoop (fst (threads p ! (n mod pool_size p))),
           p\<lparr>loop_index := int (Suc n)\<rparr>)"
proof -
  have "n < 2 ^ 64" using assms(2) by (simp add: INT_MAX_def)
  then have "unat (word_of_nat n :: u64) = n" by (simp add: unat_of_nat)
  then show ?thesis using assms by (simp add: getNextLoop_def pool_size_def add.commute)
qed

lemma next_loops_ok:
  assumes "loop_index p = int n" and "int (n + k) \<le> INT_MAX"
  shows "next_loops k p = Some (map (\<lambda>j. getLoop (fst (threads p ! (j mod pool_size p)))) [n..<n + k],
           p\<lparr>loop_index := int (n + k)\<rparr>)"
  using assms
proof (induction k arbitrary: n p)
  case 0
  then show ?case by simp
next
  case (Suc k)
  let ?p1 = "p\<lparr>loop_index := int (Suc n)\<rparr>"
  have "next_loops k ?p1 = Some (map (\<lambda>j. getLoop (fst (threads p ! (j mod pool_size p)))) [Suc n..<Suc n + k],
      p\<lparr>loop_index := int (Suc n + k)\<rparr>)"
    using Suc.IH [of ?p1 "Suc n"] Suc.prems(2) by (simp add: pool_size_def)
  moreover have "[n..<n + Suc k] = n # [Suc n..<Suc n + k]" by (simp add: upt_conv_Cons)
  ultimately show ?case
    using getNextLoop_ok [OF Suc.prems(1)] Suc.prems(2) by simp
qed

lemma new_pool_size: "new_pool l num start cpus = Some p \<Longrightarrow> pool_size p = max 1 (nat num)"
  by (auto simp: new_pool_def pool_size_def Let_def split: if_splits)

lemma reachable_steps: "thread_step\<^sup>*\<^sup>* s s' \<Longrightarrow> thread_reachable s \<Longrightarrow> thread_reachable s'"
  by (induction rule: rtranclp_induct) (auto intro: thread_reachable.step)

lemma new_pool_threads:
  assumes "new_pool l num start cpus = Some p" and "\<forall>i. \<not> looping (l i)"
  shows "\<forall>(s, c) \<in> set (threads p). thread_reachable s"
proof -
  have "thread_reachable (new_EventLoopThread (l i))" for i
    by (rule thread_reachable.init) (simp add: assms(2))
  with assms(1) show ?thesis by (auto simp: new_pool_def Let_def bindCpu_def split: if_splits)
qed

text \<open>Every pool can be started: the threads never get stuck.\<close>

lemma act_steps: "act\<^sup>*\<^sup>* s s' \<Longrightarrow> thread_step\<^sup>*\<^sup>* s s' \<and> destroyer s' = destroyer s"
proof (induction rule: rtranclp_induct)
  case base
  show ?case by simp
next
  case (step x y)
  have "thread_step x y" using step(2) work run unfolding act_def by blast
  moreover have "destroyer y = destroyer x"
    using step(2) by (auto simp: act_def elim: worker_stepE run_stepE)
  ultimately show ?case using step(3) by (metis rtranclp.rtrancl_into_rtrancl)
qed

lemma thread_can_start:
  assumes "thread_reachable s" and "callers s 1 = Before" and "\<not> quitting s"
  shows "\<exists>s'. thread_step\<^sup>*\<^sup>* s s' \<and> callers s' 1 = Returned \<and> \<not> quitting s'"
proof -
  let ?s1 = "s\<lparr>callers := (callers s)(1 := Calling)\<rparr>"
  have st: "thread_step s ?s1" using call [of 1 s] assms(2) by simp
  with assms(1) have "thread_reachable ?s1" by (rule thread_reachable.step)
  from run_never_stuck [OF this, of 1] obtain s' where "act\<^sup>*\<^sup>* ?s1 s'" "callers s' 1 = Returned" by auto
  with act_steps [of ?s1 s'] st assms(3) show ?thesis
    by (auto simp: quitting_def intro: converse_rtranclp_into_rtranclp)
qed

lemma pool_can_start:
  assumes "new_pool l num start cpus = Some p" and "\<forall>i. \<not> looping (l i)"
  shows "\<exists>p'. pool_start 1 p p'"
proof -
  have new: "thread_reachable s \<and> callers s 1 = Before \<and> \<not> quitting s" if "(s, c) \<in> set (threads p)" for s c
    using that new_pool_threads [OF assms] assms(1)
    by (auto simp: new_pool_def Let_def bindCpu_def new_EventLoopThread_def quitting_def split: if_splits)
  let ?R = "\<lambda>(s, c) (s', c'). c' = c \<and> thread_step\<^sup>*\<^sup>* s s' \<and> callers s' 1 = Returned \<and> \<not> quitting s'"
  have "\<forall>x \<in> set (threads p). \<exists>y. ?R x y"
  proof
    fix x
    assume x: "x \<in> set (threads p)"
    obtain s c where sc: "x = (s, c)" by (cases x)
    with thread_can_start new x obtain s' where "?R x (s', c)" by fastforce
    then show "\<exists>y. ?R x y" by blast
  qed
  from list_all2_exists [OF this] obtain ts where "list_all2 ?R (threads p) ts" by blast
  then have "pool_start 1 p (p\<lparr>threads := ts\<rparr>)" by (simp add: pool_start_def)
  then show ?thesis by blast
qed

subsection \<open>Properties\<close>

text \<open>
  C25. A started pool deals out its loops in turn: the \<open>j\<close>-th call of \<open>getNextLoop\<close> gives the
  loop of thread \<open>j\<close> modulo the size of the pool, never a null pointer, for any number of
  calls below 2^31; and the pool has at least one thread.
\<close>

theorem pool_round_robin:
  assumes "new_pool l num start cpus = Some p" and "\<forall>i. \<not> looping (l i)"
    and "pool_start i p p'" and "int k \<le> INT_MAX"
  shows "pool_size p' = max 1 (nat num)
     \<and> (\<exists>ls p''. next_loops k p' = Some (ls, p'') \<and> length ls = k
         \<and> (\<forall>j < k. ls ! j = Some (the_loop (fst (threads p' ! (j mod pool_size p'))))))"
proof -
  have la: "list_all2 (\<lambda>(s, c) (s', c'). c' = c \<and> thread_step\<^sup>*\<^sup>* s s' \<and> callers s' i = Returned
      \<and> \<not> quitting s') (threads p) (threads p')" and ix: "loop_index p' = int 0"
    using assms(1,3) by (auto simp: pool_start_def new_pool_def Let_def split: if_splits)
  have size: "pool_size p' = max 1 (nat num)"
    using new_pool_size [OF assms(1)] list_all2_lengthD [OF la] by (simp add: pool_size_def)
  have run: "getLoop (fst (threads p' ! m)) = Some (the_loop (fst (threads p' ! m)))"
    if "m < pool_size p'" for m
  proof -
    obtain s c s' c' where sc: "threads p ! m = (s, c)" "threads p' ! m = (s', c')"
      by (cases "threads p ! m"; cases "threads p' ! m")
    have m: "m < length (threads p)" using that list_all2_lengthD [OF la] by (simp add: pool_size_def)
    from list_all2_nthD [OF la m] sc
    have s': "thread_step\<^sup>*\<^sup>* s s'" "callers s' i = Returned" "\<not> quitting s'" by auto
    have "thread_reachable s" using new_pool_threads [OF assms(1,2)] nth_mem [OF m] sc by auto
    with s' run_returns_with_loop reachable_steps sc show ?thesis by simp
  qed
  have "0 < pool_size p'" using size by simp
  then have lt: "j mod pool_size p' < pool_size p'" for j by simp
  show ?thesis
    using size next_loops_ok [OF ix, of k] assms(4) run [OF lt] by auto
qed

theorem pool_round_robin_witness:
  "\<exists>p p' ls p''. new_pool (\<lambda>_. sample_loop) 2 0 4 = Some p \<and> pool_start 1 p p'
     \<and> next_loops 3 p' = Some (ls, p'') \<and> ls ! 2 = ls ! 0 \<and> ls ! 0 \<noteq> None"
proof -
  have nl: "\<forall>i::nat. \<not> looping ((\<lambda>_. sample_loop) i)"
    by (simp add: sample_loop_def new_EventLoop_def)
  obtain p where p: "new_pool (\<lambda>_. sample_loop) 2 0 4 = Some p"
    by (simp add: new_pool_def INT_MAX_def)
  obtain p' where p': "pool_start 1 p p'" using pool_can_start [OF p nl] by blast
  from pool_round_robin [OF p nl p', of 3] obtain ls p'' where ls:
    "next_loops 3 p' = Some (ls, p'')" "pool_size p' = max 1 (nat 2)"
    "\<forall>j < 3. ls ! j = Some (the_loop (fst (threads p' ! (j mod pool_size p'))))"
    unfolding INT_MAX_def by auto
  have "ls ! 2 = Some (the_loop (fst (threads p' ! 0)))" "ls ! 0 = Some (the_loop (fst (threads p' ! 0)))"
    using ls(2) ls(3) [rule_format, of 2] ls(3) [rule_format, of 0]
    by (simp_all add: mod_Suc numeral_2_eq_2)
  with p p' ls(1) show ?thesis by auto
qed

end
