(* ===== verification/Acceptor.thy ===== *)
theory Acceptor
  imports EventLoop SocketOpt TcpConnection
begin

text \<open>
  The listening socket of a server, \<open>src/network/net/Acceptor.cpp\<close>. The socket calls are
  logged in \<open>a_calls\<close>; the descriptors that creating sockets gives (-1 for a failure) and what
  \<open>accept\<close> reports are scripts. Accepted descriptors are logged with their peers.
\<close>

subsection \<open>State\<close>

record acceptor =
  a_event :: nat
  a_loop :: event_loop
  a_addr :: inet_address
  a_sockopt :: "socket_opt option"
  a_calls :: "sock_call list"
  a_sockets :: "int list"
  a_accepts :: "(int + int \<times> sockaddr) list"
  a_accepted :: "(int \<times> inet_address) list"
  a_starts :: nat

text \<open>
  \<open>a_starts\<close> counts the closures of \<open>start\<close> that wait in the loop's queue.
  A new acceptor has no descriptor yet.
\<close>

definition new_Acceptor ::
    "event_loop \<Rightarrow> nat \<Rightarrow> inet_address \<Rightarrow> int list \<Rightarrow> (int + int \<times> sockaddr) list \<Rightarrow> acceptor" where
  "new_Acceptor l ev a socks acc =
     \<lparr>a_event = ev, a_loop = new_Event l ev (-1), a_addr = a, a_sockopt = None, a_calls = [],
      a_sockets = socks, a_accepts = acc, a_accepted = [], a_starts = 0\<rparr>"

definition a_call :: "acceptor \<Rightarrow> sock_call \<Rightarrow> acceptor" where
  "a_call a c = a\<lparr>a_calls := a_calls a @ [c]\<rparr>"

text \<open>Creating a socket takes the next descriptor of the script.\<close>

definition next_socket :: "acceptor \<Rightarrow> int" where
  "next_socket a = (case a_sockets a of [] \<Rightarrow> -1 | s # _ \<Rightarrow> s)"

subsection \<open>Operations\<close>

text \<open>
  \<open>flags\<close> is what \<open>fcntl\<close> reports for the new socket, \<open>old4\<close> and \<open>old6\<close> what the address
  structure on the stack holds. The old descriptor is closed, but not taken out of the loop.
\<close>

definition acceptor_open :: "inet_lib \<Rightarrow> u32 \<Rightarrow> u32 \<Rightarrow> 128 word \<Rightarrow> acceptor \<Rightarrow> acceptor" where
  "acceptor_open lib flags old4 old6 a =
     (let l1 = (if getFd (a_loop a) (a_event a) \<noteq> -1
                then syscall (a_loop a) (Close (getFd (a_loop a) (a_event a))) else a_loop a);
          a1 = a_call (a\<lparr>a_loop := l1\<rparr>)
                 (createNonblockingTcp (if isIPv6 (a_addr a) then AF_INET6 else AF_INET));
          fd = next_socket a1;
          a2 = a1\<lparr>a_loop := setFd (a_loop a1) (a_event a) fd, a_sockets := tl (a_sockets a1)\<rparr>
      in if fd = -1 then a2
         else
           let s = new_SocketOpt fd False;
               a3 = a2\<lparr>a_loop := addEvent (a_loop a2) (a_event a), a_sockopt := Some s\<rparr>
           in foldl a_call a3
                [setReuseAddr s True, setReusePort s True, setNonBlocking s flags True,
                 sock_bind lib old4 old6 s (a_addr a), sock_listen s])"

definition acceptor_stop :: "acceptor \<Rightarrow> acceptor" where
  "acceptor_stop a = a\<lparr>a_loop := removeEvent (a_loop a) (a_event a)\<rparr>"

definition acceptor_onClose :: "inet_lib \<Rightarrow> u32 \<Rightarrow> u32 \<Rightarrow> 128 word \<Rightarrow> acceptor \<Rightarrow> acceptor" where
  "acceptor_onClose lib flags old4 old6 a = acceptor_open lib flags old4 old6 (acceptor_stop a)"

definition acceptor_onError :: "inet_lib \<Rightarrow> u32 \<Rightarrow> u32 \<Rightarrow> 128 word \<Rightarrow> acceptor \<Rightarrow> acceptor" where
  "acceptor_onError lib flags old4 old6 a = acceptor_onClose lib flags old4 old6 a"

text \<open>\<open>start\<close> opens in the loop's thread, at once or by a closure; \<open>fresh\<close> as in \<open>runInLoop\<close>.\<close>

definition acceptor_start ::
    "inet_lib \<Rightarrow> u32 \<Rightarrow> u32 \<Rightarrow> 128 word \<Rightarrow> acceptor \<Rightarrow> nat \<Rightarrow> nat \<times> int \<Rightarrow> acceptor" where
  "acceptor_start lib flags old4 old6 a t fresh =
     (if isInLoopThread (a_loop a) t then acceptor_open lib flags old4 old6 a
      else a\<lparr>a_starts := Suc (a_starts a),
             a_loop := weakup ((a_loop a)\<lparr>queue := queue (a_loop a) @ [UserTask (a_starts a)]\<rparr>)
                         (fst fresh) (snd fresh)\<rparr>)"

definition acceptor_run_start :: "inet_lib \<Rightarrow> u32 \<Rightarrow> u32 \<Rightarrow> 128 word \<Rightarrow> acceptor \<Rightarrow> acceptor" where
  "acceptor_run_start lib flags old4 old6 a =
     (if a_starts a = 0 then a
      else acceptor_open lib flags old4 old6 (a\<lparr>a_starts := a_starts a - 1\<rparr>))"

text \<open>The accept callback works on the loop and on the state \<open>s\<close> of whoever set it.\<close>

function acceptor_onRead ::
    "inet_lib \<Rightarrow> u32 \<Rightarrow> u32 \<Rightarrow> 128 word
       \<Rightarrow> (int \<Rightarrow> inet_address \<Rightarrow> event_loop \<times> 's \<Rightarrow> event_loop \<times> 's)
       \<Rightarrow> acceptor \<times> 's \<Rightarrow> acceptor \<times> 's" where
  "acceptor_onRead lib flags old4 old6 cb (a, s) =
     (let r = (case a_accepts a of [] \<Rightarrow> Inl EAGAIN | r # _ \<Rightarrow> r);
          (sock, peer) = sock_accept lib r default_InetAddress;
          a1 = a\<lparr>a_accepts := tl (a_accepts a)\<rparr>
      in if sock \<ge> 0
         then
           let (l, s1) = cb sock peer (a_loop a1, s)
           in acceptor_onRead lib flags old4 old6 cb
                (a1\<lparr>a_loop := l, a_accepted := a_accepted a1 @ [(sock, peer)]\<rparr>, s1)
         else
           let err = (case r of Inl e \<Rightarrow> e | Inr _ \<Rightarrow> 0)
           in (if err \<noteq> EINTR \<and> err \<noteq> EAGAIN then acceptor_onClose lib flags old4 old6 a1 else a1, s))"
  by pat_completeness auto
termination
  by (relation "measure (\<lambda>(lib, flags, old4, old6, cb, a, s). length (a_accepts a))")
    (auto simp: sock_accept_def split: list.splits)

declare acceptor_onRead.simps [simp del]

subsection \<open>Lemmas\<close>

lemma a_call_frame [simp]:
  "a_loop (a_call a c) = a_loop a" "a_event (a_call a c) = a_event a"
  "a_sockets (a_call a c) = a_sockets a" "a_accepts (a_call a c) = a_accepts a"
  "a_addr (a_call a c) = a_addr a" "next_socket (a_call a c) = next_socket a"
  "a_calls (a_call a c) = a_calls a @ [c]"
  by (simp_all add: a_call_def next_socket_def)

lemma new_SocketOpt [simp]: "sock (new_SocketOpt s v6) = s"
  by (simp add: new_SocketOpt_def)

lemma acceptor_open_loop:
  fixes a :: acceptor
  defines "l1 \<equiv> (if getFd (a_loop a) (a_event a) \<noteq> -1
      then syscall (a_loop a) (Close (getFd (a_loop a) (a_event a))) else a_loop a)"
  assumes "next_socket a \<noteq> -1"
  shows "a_loop (acceptor_open lib flags old4 old6 a) = addEvent (setFd l1 (a_event a) (next_socket a)) (a_event a)"
    and "a_event (acceptor_open lib flags old4 old6 a) = a_event a"
    and "last (a_calls (acceptor_open lib flags old4 old6 a)) = Listen (next_socket a) SOMAXCONN"
    and "a_accepts (acceptor_open lib flags old4 old6 a) = a_accepts a"
proof -
  have "next_socket (a\<lparr>a_loop := l1\<rparr>) = next_socket a" by (simp add: next_socket_def)
  then show "a_loop (acceptor_open lib flags old4 old6 a) = addEvent (setFd l1 (a_event a) (next_socket a)) (a_event a)"
    and "a_event (acceptor_open lib flags old4 old6 a) = a_event a"
    and "last (a_calls (acceptor_open lib flags old4 old6 a)) = Listen (next_socket a) SOMAXCONN"
    and "a_accepts (acceptor_open lib flags old4 old6 a) = a_accepts a"
    using assms(2) unfolding acceptor_open_def l1_def [symmetric]
    by (simp_all add: Let_def sock_listen_def)
qed

text \<open>Closing a descriptor that the loop does not know keeps the kernel's set right.\<close>

lemma close_unregistered_reg:
  assumes "epoll_laws ctl" and "reg_inv ctl l" and "events l f = None"
  shows "reg_inv ctl (syscall l (Close f))"
  using assms(3) reg_invD [OF assms(2)]
  by (intro reg_invI) (auto simp: epoll_lawsD(4) [OF assms(1)])

lemma addEvent_new:
  assumes "epoll_laws ctl" and "reg_inv ctl l" and "\<forall>f. events l f \<noteq> Some ev"
    and "events l (getFd l ev) = None" and "0 \<le> getFd l ev"
  shows "reg_inv ctl (addEvent l ev) \<and> registered (addEvent l ev) ev
     \<and> getFd (addEvent l ev) ev = getFd l ev
     \<and> watched ctl (addEvent l ev) (getFd l ev) = Some kEventRead"
proof -
  have i: "reg_inv ctl (addEvent l ev)" by (rule addEvent_reg [OF assms(1-3,5)])
  have e: "events (addEvent l ev) (getFd l ev) = Some ev"
    "getFd (addEvent l ev) ev = getFd l ev" "events_mask (objs (addEvent l ev) ev) = kEventRead"
    using assms(4) by (simp_all add: addEvent_def Let_def getFd_def)
  with i reg_invD(2) [OF i e(1)] show ?thesis by (simp add: registered_def)
qed

text \<open>Opening an acceptor that is not in the loop's table registers its new descriptor.\<close>

lemma open_registers:
  fixes a :: acceptor and lib :: inet_lib and flags old4 :: u32 and old6 :: "128 word"
  assumes "epoll_laws ctl" and "reg_inv ctl (a_loop a)" and "\<forall>h. events (a_loop a) h \<noteq> Some (a_event a)"
    and "getFd (a_loop a) (a_event a) = -1 \<or> events (a_loop a) (getFd (a_loop a) (a_event a)) = None"
    and "next_socket a = f" and "0 \<le> f" and "events (a_loop a) f = None"
  defines "a' \<equiv> acceptor_open lib flags old4 old6 a"
  shows "reg_inv ctl (a_loop a')" and "registered (a_loop a') (a_event a)"
    and "watched ctl (a_loop a') f = Some kEventRead" and "last (a_calls a') = Listen f SOMAXCONN"
    and "events (a_loop a') = (events (a_loop a))(f \<mapsto> a_event a)"
    and "getFd (a_loop a') e = (if e = a_event a then f else getFd (a_loop a) e)"
    and "timing (a_loop a') = timing (a_loop a)" and "owner (a_loop a') = owner (a_loop a)"
    and "pipe (a_loop a') = pipe (a_loop a)" and "a_event a' = a_event a"
proof -
  let ?ev = "a_event a" and ?g = "getFd (a_loop a) (a_event a)"
  let ?l1 = "if ?g \<noteq> -1 then syscall (a_loop a) (Close ?g) else a_loop a"
  let ?l2 = "setFd ?l1 ?ev f"
  have r1: "reg_inv ctl ?l1"
    using assms(2,4) close_unregistered_reg [OF assms(1,2), of ?g] by auto
  have e1: "events ?l1 = events (a_loop a)" "timing ?l1 = timing (a_loop a)"
    "owner ?l1 = owner (a_loop a)" "pipe ?l1 = pipe (a_loop a)" "objs ?l1 = objs (a_loop a)" by simp_all
  have r2: "reg_inv ctl ?l2" using setFd_reg [OF r1] assms(3) e1(1) by simp
  have "events ?l2 f = None" "\<forall>h. events ?l2 h \<noteq> Some ?ev" "getFd ?l2 ?ev = f"
    using assms(3,7) e1(1) by auto
  note add = addEvent_new [OF assms(1) r2 this(2)]
  have o: "a_loop a' = addEvent ?l2 ?ev" "last (a_calls a') = Listen f SOMAXCONN" "a_event a' = ?ev"
    using acceptor_open_loop [of a lib flags old4 old6] assms(5,6) by (simp_all add: a'_def)
  show "reg_inv ctl (a_loop a')" "registered (a_loop a') ?ev"
    "watched ctl (a_loop a') f = Some kEventRead"
    using add \<open>events ?l2 f = None\<close> \<open>getFd ?l2 ?ev = f\<close> assms(6) unfolding o(1) by simp_all
  show "events (a_loop a') = (events (a_loop a))(f \<mapsto> ?ev)"
    "getFd (a_loop a') e = (if e = ?ev then f else getFd (a_loop a) e)"
    using \<open>events ?l2 f = None\<close> e1 unfolding o(1)
    by (simp_all add: addEvent_def Let_def getFd_def setFd_def)
  show "timing (a_loop a') = timing (a_loop a)" "owner (a_loop a') = owner (a_loop a)"
    "pipe (a_loop a') = pipe (a_loop a)"
    using e1 unfolding o(1) by (simp_all add: setFd_def)
qed (use acceptor_open_loop [of a lib flags old4 old6] assms(5,6) in \<open>simp_all add: a'_def\<close>)

lemma acceptor_stop_frame [simp]:
  "a_event (acceptor_stop a) = a_event a" "next_socket (acceptor_stop a) = next_socket a"
  "a_loop (acceptor_stop a) = removeEvent (a_loop a) (a_event a)"
  by (simp_all add: acceptor_stop_def next_socket_def)

text \<open>Reopening a registered acceptor, by \<open>open_registers\<close> after \<open>stop\<close>.\<close>

lemma reopen_registers:
  fixes a :: acceptor and lib :: inet_lib and flags old4 :: u32 and old6 :: "128 word"
  assumes "epoll_laws ctl" and "reg_inv ctl (a_loop a)" and "registered (a_loop a) (a_event a)"
    and "next_socket a = f" and "0 \<le> f"
    and "events (a_loop a) f = None \<or> f = getFd (a_loop a) (a_event a)"
  defines "a' \<equiv> acceptor_onClose lib flags old4 old6 a"
  shows "reg_inv ctl (a_loop a')" and "registered (a_loop a') (a_event a)"
    and "watched ctl (a_loop a') f = Some kEventRead" and "last (a_calls a') = Listen f SOMAXCONN"
    and "events (a_loop a') = (events (a_loop a))(getFd (a_loop a) (a_event a) := None, f \<mapsto> a_event a)"
    and "getFd (a_loop a') e = (if e = a_event a then f else getFd (a_loop a) e)"
    and "timing (a_loop a') = timing (a_loop a)" and "owner (a_loop a') = owner (a_loop a)"
    and "pipe (a_loop a') = pipe (a_loop a)" and "a_event a' = a_event a"
proof -
  let ?g = "getFd (a_loop a) (a_event a)" and ?s = "acceptor_stop a"
  have e: "events (a_loop ?s) = (events (a_loop a))(?g := None)"
    using removeEvent_frame(5) [OF assms(3)] by simp
  have r: "reg_inv ctl (a_loop ?s)" using removeEvent_reg [OF assms(1,2)] by simp
  have u: "\<forall>h. events (a_loop ?s) h \<noteq> Some (a_event ?s)"
    using reg_invD(3) [OF assms(2)] e by (auto simp: getFd_def)
  have "getFd (a_loop ?s) (a_event ?s) = -1 \<or> events (a_loop ?s) (getFd (a_loop ?s) (a_event ?s)) = None"
    "next_socket ?s = f" "events (a_loop ?s) f = None"
    using e assms(4,6) by (auto simp: removeEvent_frame)
  note o = open_registers [OF assms(1) r u this(1,2) assms(5) this(3), of lib flags old4 old6,
      folded acceptor_onClose_def, folded a'_def]
  show "reg_inv ctl (a_loop a')" "registered (a_loop a') (a_event a)"
    "watched ctl (a_loop a') f = Some kEventRead" "last (a_calls a') = Listen f SOMAXCONN"
    "events (a_loop a') = (events (a_loop a))(?g := None, f \<mapsto> a_event a)" "a_event a' = a_event a"
    using o e by simp_all
  show "getFd (a_loop a') e = (if e = a_event a then f else getFd (a_loop a) e)"
    "timing (a_loop a') = timing (a_loop a)" "owner (a_loop a') = owner (a_loop a)"
    "pipe (a_loop a') = pipe (a_loop a)"
    using o by (simp_all add: removeEvent_frame)
qed

text \<open>When no socket can be made, the acceptor is left without a descriptor and out of the table.\<close>

lemma reopen_fails:
  fixes a :: acceptor and lib :: inet_lib and flags old4 :: u32 and old6 :: "128 word"
  assumes "epoll_laws ctl" and "reg_inv ctl (a_loop a)" and "registered (a_loop a) (a_event a)"
    and "next_socket a = -1"
  defines "a' \<equiv> acceptor_onClose lib flags old4 old6 a"
  shows "reg_inv ctl (a_loop a')"
    and "events (a_loop a') = (events (a_loop a))(getFd (a_loop a) (a_event a) := None)"
    and "getFd (a_loop a') e = (if e = a_event a then -1 else getFd (a_loop a) e)"
    and "timing (a_loop a') = timing (a_loop a)" and "owner (a_loop a') = owner (a_loop a)"
    and "pipe (a_loop a') = pipe (a_loop a)" and "a_event a' = a_event a"
    and "queue (a_loop a') = queue (a_loop a)"
proof -
  let ?g = "getFd (a_loop a) (a_event a)" and ?r = "removeEvent (a_loop a) (a_event a)"
  let ?l1 = "if ?g \<noteq> -1 then syscall ?r (Close ?g) else ?r"
  have e: "events ?r = (events (a_loop a))(?g := None)" by (rule removeEvent_frame(5) [OF assms(3)])
  have r: "reg_inv ctl ?r" by (rule removeEvent_reg [OF assms(1,2)])
  have "events ?r ?g = None" using e by simp
  then have r1: "reg_inv ctl ?l1" using r close_unregistered_reg [OF assms(1) r] by simp
  have u: "\<forall>h. events ?l1 h \<noteq> Some (a_event a)"
    using reg_invD(3) [OF assms(2)] e by (auto simp: getFd_def)
  have l: "a_loop a' = setFd ?l1 (a_event a) (-1)" "a_event a' = a_event a"
    using assms(4) removeEvent_frame(1) [of "a_loop a" "a_event a" "a_event a"]
    by (auto simp: a'_def acceptor_onClose_def acceptor_open_def Let_def next_socket_def acceptor_stop_def a_call_def
        split: list.splits)
  show "reg_inv ctl (a_loop a')" unfolding l(1) by (rule setFd_reg [OF r1 u])
  show "events (a_loop a') = (events (a_loop a))(?g := None)" "a_event a' = a_event a" using e l by simp_all
  show "getFd (a_loop a') e = (if e = a_event a then -1 else getFd (a_loop a) e)"
    unfolding l(1) by (simp add: setFd_def getFd_def removeEvent_frame(1) [unfolded getFd_def])
  show "timing (a_loop a') = timing (a_loop a)" "owner (a_loop a') = owner (a_loop a)"
    "pipe (a_loop a') = pipe (a_loop a)" "queue (a_loop a') = queue (a_loop a)"
    unfolding l(1) by (simp_all add: setFd_def removeEvent_frame)
      (simp_all add: removeEvent_def split: option.splits)
qed

subsection \<open>Properties\<close>

text \<open>
  One readable event accepts everything that waits: every pending connection is handed
  to the callback once, in order, with its descriptor and peer, and the loop ends at the
  first error; \<open>EINTR\<close> and \<open>EAGAIN\<close> leave the acceptor as it is, any other error reopens it.
\<close>

lemma accepts_all_pending:
  fixes a :: acceptor and lib :: inet_lib and cb and s :: 's and rest :: "(int + int \<times> sockaddr) list"
  assumes "a_accepts a = map Inr ps @ Inl e # rest" and "\<forall>(fd, p) \<in> set ps. 0 \<le> fd"
  defines "r \<equiv> foldl (\<lambda>x (fd, p). cb fd (getPeerAddr lib p) x) (a_loop a, s) ps"
  defines "a' \<equiv> a\<lparr>a_accepts := rest,
      a_accepted := a_accepted a @ map (\<lambda>(fd, p). (fd, getPeerAddr lib p)) ps,
      a_loop := fst r\<rparr>"
  shows "acceptor_onRead lib flags old4 old6 cb (a, s)
     = (if retryable e then a' else acceptor_onClose lib flags old4 old6 a', snd r)"
  using assms(1,2) unfolding a'_def r_def
proof (induction ps arbitrary: a s)
  case Nil
  then show ?case
    by (simp add: acceptor_onRead.simps [of lib flags old4 old6 cb a] sock_accept_def retryable_def
        EWOULDBLOCK_def EAGAIN_def)
next
  case (Cons x ps)
  obtain fd p where x: "x = (fd, p)" by (cases x)
  obtain l s1 where cb: "cb fd (getPeerAddr lib p) (a_loop a, s) = (l, s1)" by (rule prod.exhaust)
  let ?a1 = "a\<lparr>a_accepts := map Inr ps @ Inl e # rest, a_loop := l,
      a_accepted := a_accepted a @ [(fd, getPeerAddr lib p)]\<rparr>"
  have "acceptor_onRead lib flags old4 old6 cb (a, s) = acceptor_onRead lib flags old4 old6 cb (?a1, s1)"
    using Cons.prems x cb
    by (simp add: acceptor_onRead.simps [of lib flags old4 old6 cb a] sock_accept_def getPeerAddr_def)
  with Cons.IH [of ?a1 s1] Cons.prems x cb show ?case by simp
qed

text \<open>
  C27. Reopening works: after a fatal error the acceptor is registered under its new
  descriptor, the kernel watches that for reading and nothing else has changed in the
  kernel's set, and the new socket listens.
\<close>

theorem reopen_listens:
  fixes a :: acceptor and lib :: inet_lib and flags old4 :: u32 and old6 :: "128 word"
  assumes "epoll_laws ctl" and "reg_inv ctl (a_loop a)" and "registered (a_loop a) (a_event a)"
    and "next_socket a = f" and "0 \<le> f"
    and "events (a_loop a) f = None \<or> f = getFd (a_loop a) (a_event a)"
  defines "a' \<equiv> acceptor_onClose lib flags old4 old6 a"
  shows "reg_inv ctl (a_loop a') \<and> registered (a_loop a') (a_event a)
     \<and> watched ctl (a_loop a') f = Some kEventRead \<and> last (a_calls a') = Listen f SOMAXCONN"
  unfolding a'_def using reopen_registers(1-4) [OF assms(1-6)] by simp

text \<open>
  Starting an acceptor twice makes it deaf: \<open>open\<close> closes the old descriptor without
  taking it out of the loop, the kernel gives the new socket the same number, and \<open>addEvent\<close>
  ignores it; the new socket listens, but the kernel does not watch it.
\<close>

lemma start_twice_deaf:
  fixes a :: acceptor and lib :: inet_lib and flags old4 :: u32 and old6 :: "128 word"
  assumes "epoll_laws ctl" and "reg_inv ctl (a_loop a)" and "registered (a_loop a) (a_event a)"
    and "getFd (a_loop a) (a_event a) = f" and "f \<noteq> -1" and "next_socket a = f"
  defines "a' \<equiv> acceptor_open lib flags old4 old6 a"
  shows "watched ctl (a_loop a') f = None \<and> registered (a_loop a') (a_event a)
     \<and> last (a_calls a') = Listen f SOMAXCONN"
proof -
  let ?l = "setFd (syscall (a_loop a) (Close f)) (a_event a) f"
  have e: "events (a_loop a) f = Some (a_event a)" using assms(3,4) by (simp add: registered_def)
  then have "addEvent ?l (a_event a) = ?l" by (simp add: addEvent_def)
  moreover have "a_loop a' = addEvent ?l (a_event a)" "last (a_calls a') = Listen f SOMAXCONN"
    using acceptor_open_loop [of a lib flags old4 old6] assms(4-6) by (simp_all add: a'_def)
  moreover have "watched ctl ?l f = None" by (simp add: epoll_lawsD(4) [OF assms(1)])
  ultimately show ?thesis using e by (simp add: registered_def)
qed

text \<open>An acceptor that was started once: event 2 on descriptor 5 of \<open>sample_loop\<close>.\<close>

definition sample_acceptor :: "int list \<Rightarrow> (int + int \<times> sockaddr) list \<Rightarrow> acceptor" where
  "sample_acceptor socks acc = acceptor_open sample_lib 0 0 0
     (new_Acceptor sample_loop 2 (new_InetAddress ''0.0.0.0'' 1935 False) (5 # socks) acc)"

lemma sample_acceptor:
  "a_event (sample_acceptor socks acc) = 2" "a_accepts (sample_acceptor socks acc) = acc"
  "a_sockets (sample_acceptor socks acc) = socks" "a_accepted (sample_acceptor socks acc) = []"
  "reg_inv sample_ctl (a_loop (sample_acceptor socks acc))"
  "registered (a_loop (sample_acceptor socks acc)) 2"
  "getFd (a_loop (sample_acceptor socks acc)) 2 = 5"
  "events (a_loop (sample_acceptor socks acc)) = [5 \<mapsto> 2]"
proof -
  let ?a = "new_Acceptor sample_loop 2 (new_InetAddress ''0.0.0.0'' 1935 False) (5 # socks) acc"
  let ?l = "setFd (new_Event sample_loop 2 (-1)) 2 5"
  have r0: "reg_inv sample_ctl (new_Event sample_loop 2 (-1))"
    by (rule new_Event_reg [OF sample_loop(9)]) (simp add: sample_loop)
  have ev: "events (new_Event sample_loop 2 (-1)) = Map.empty"
    by (simp add: new_Event_def sample_loop)
  have r: "reg_inv sample_ctl ?l" by (rule setFd_reg [OF r0]) (simp add: sample_loop)
  have l: "a_loop (sample_acceptor socks acc) = addEvent ?l 2"
    using acceptor_open_loop(1) [of ?a sample_lib 0 0 0]
    by (simp add: sample_acceptor_def new_Acceptor_def next_socket_def getFd_def) (simp add: new_Event_def)
  show "a_event (sample_acceptor socks acc) = 2" "a_accepts (sample_acceptor socks acc) = acc"
    "a_sockets (sample_acceptor socks acc) = socks" "a_accepted (sample_acceptor socks acc) = []"
    by (simp_all add: sample_acceptor_def acceptor_open_def new_Acceptor_def next_socket_def Let_def a_call_def)
  show "reg_inv sample_ctl (a_loop (sample_acceptor socks acc))"
    "registered (a_loop (sample_acceptor socks acc)) 2" "getFd (a_loop (sample_acceptor socks acc)) 2 = 5"
    using addEvent_new [OF sample_ctl_laws r] ev unfolding l by simp_all
  show "events (a_loop (sample_acceptor socks acc)) = [5 \<mapsto> 2]"
    using ev unfolding l by (simp add: addEvent_def Let_def)
qed

lemma accepts_all_pending_witness:
  "a_accepted (fst (acceptor_onRead sample_lib 0 0 0 (\<lambda>fd p x. x)
     (sample_acceptor [] [Inr (7, SockIn 1 9), Inr (8, SockIn 2 9), Inl EAGAIN], ())))
     = [(7, getPeerAddr sample_lib (SockIn 1 9)), (8, getPeerAddr sample_lib (SockIn 2 9))]"
  using accepts_all_pending [of "sample_acceptor [] [Inr (7, SockIn 1 9), Inr (8, SockIn 2 9), Inl EAGAIN]"
      "[(7, SockIn 1 9), (8, SockIn 2 9)]" EAGAIN "[]" sample_lib 0 0 0 "\<lambda>fd p x. x" "()"]
  by (simp add: sample_acceptor retryable_def)

theorem reopen_listens_witness:
  "registered (a_loop (acceptor_onClose sample_lib 0 0 0 (sample_acceptor [6] []))) 2
   \<and> watched sample_ctl (a_loop (acceptor_onClose sample_lib 0 0 0 (sample_acceptor [6] []))) 6 = Some kEventRead"
  using reopen_listens [OF sample_ctl_laws, of "sample_acceptor [6] []" 6 sample_lib 0 0 0]
  by (simp add: sample_acceptor next_socket_def)

lemma start_twice_deaf_witness:
  "watched sample_ctl (a_loop (acceptor_open sample_lib 0 0 0 (sample_acceptor [5] []))) 5 = None"
  using start_twice_deaf [OF sample_ctl_laws, of "sample_acceptor [5] []" 5 sample_lib 0 0 0]
  by (simp add: sample_acceptor next_socket_def)

end
