(* ===== verification/TcpServer.thy ===== *)
theory TcpServer
  imports Acceptor
begin

text \<open>
  The server of \<open>src/network/TcpServer.cpp\<close>: an acceptor, whose callback is \<open>onAccept\<close>, and the
  set of connections, here a map from event objects to connections. All share one loop, the
  acceptor's; the copy of the loop in a connection of the map is replaced by it whenever an
  operation of the connection runs. \<open>announced\<close> logs the calls of the callback for new
  connections; that callback keeps no connection unless a step says so.
\<close>

subsection \<open>State and operations\<close>

record server_data =
  connections :: "nat \<Rightarrow> tcp_connection option"
  next_object :: nat
  announced :: "(nat \<times> inet_address) list"

record tcp_server =
  listener :: acceptor
  clients :: server_data

abbreviation server_loop :: "tcp_server \<Rightarrow> event_loop" where
  "server_loop s \<equiv> a_loop (listener s)"

text \<open>The acceptor is object \<open>ev\<close>; objects created later get higher numbers.\<close>

definition new_TcpServer :: "event_loop \<Rightarrow> nat \<Rightarrow> inet_address \<Rightarrow> int list \<Rightarrow> tcp_server" where
  "new_TcpServer l ev a socks =
     \<lparr>listener = new_Acceptor l ev a socks [],
      clients = \<lparr>connections = Map.empty, next_object = Suc ev, announced = []\<rparr>\<rparr>"

definition server_start ::
    "inet_lib \<Rightarrow> u32 \<Rightarrow> u32 \<Rightarrow> 128 word \<Rightarrow> tcp_server \<Rightarrow> nat \<Rightarrow> nat \<times> int \<Rightarrow> tcp_server" where
  "server_start lib flags old4 old6 s t fresh =
     s\<lparr>listener := acceptor_start lib flags old4 old6 (listener s) t fresh\<rparr>"

definition server_stop :: "tcp_server \<Rightarrow> tcp_server" where
  "server_stop s = s\<lparr>listener := acceptor_stop (listener s)\<rparr>"

text \<open>
  \<open>onAccept\<close> as the acceptor's callback. \<open>m\<close> is the memory, \<open>ws\<close> and \<open>rs\<close> what the kernel
  will answer to the writes and reads of each connection. The supervision with 30 seconds never fails.
\<close>

definition server_accept ::
    "nat \<Rightarrow> nat \<times> int \<Rightarrow> (addr \<Rightarrow> byte) \<Rightarrow> (nat \<Rightarrow> io_result list) \<Rightarrow> (nat \<Rightarrow> (int + bytes) list)
       \<Rightarrow> int \<Rightarrow> inet_address \<Rightarrow> event_loop \<times> server_data \<Rightarrow> event_loop \<times> server_data" where
  "server_accept t fresh m ws rs sockfd peer x =
     (let (l, d) = x; ev = next_object d
      in case onAccept l t fresh ev sockfd m (ws ev) (rs ev) of
           Inl _ \<Rightarrow> (l, d)
         | Inr c \<Rightarrow> (lp c, \<lparr>connections = (connections d)(ev \<mapsto> c), next_object = Suc ev,
                          announced = announced d @ [(ev, peer)]\<rparr>))"

definition server_onRead ::
    "inet_lib \<Rightarrow> u32 \<Rightarrow> u32 \<Rightarrow> 128 word \<Rightarrow> nat \<Rightarrow> nat \<times> int \<Rightarrow> (addr \<Rightarrow> byte)
       \<Rightarrow> (nat \<Rightarrow> io_result list) \<Rightarrow> (nat \<Rightarrow> (int + bytes) list) \<Rightarrow> tcp_server \<Rightarrow> tcp_server" where
  "server_onRead lib flags old4 old6 t fresh m ws rs s =
     (let (a, d) = acceptor_onRead lib flags old4 old6 (server_accept t fresh m ws rs)
                     (listener s, clients s)
      in \<lparr>listener = a, clients = d\<rparr>)"

text \<open>
  An operation \<open>f\<close> of connection \<open>ev\<close>. A connection that took itself out of the server's set,
  through \<open>onConnectionClose\<close>, is no longer in the map.
\<close>

definition server_conn ::
    "tcp_server \<Rightarrow> nat \<Rightarrow> (tcp_connection \<Rightarrow> conn_error + tcp_connection) \<Rightarrow> conn_error + tcp_server" where
  "server_conn s ev f =
     (case connections (clients s) ev of
        None \<Rightarrow> Inr s
      | Some c \<Rightarrow>
          case f (c\<lparr>lp := server_loop s\<rparr>) of
            Inl e \<Rightarrow> Inl e
          | Inr c1 \<Rightarrow> Inr (s\<lparr>listener := (listener s)\<lparr>a_loop := lp c1\<rparr>,
              clients := (clients s)\<lparr>connections := (connections (clients s))(ev :=
                if in_server c1 then Some c1 else None)\<rparr>\<rparr>))"

subsection \<open>Invariant\<close>

definition open_conn :: "event_loop \<Rightarrow> nat \<Rightarrow> tcp_connection \<Rightarrow> bool" where
  "open_conn l ev c \<longleftrightarrow> event_id c = ev \<and> \<not> closed c \<and> in_server c \<and> close_cb c
     \<and> registered l ev \<and> 0 \<le> getFd l ev"

text \<open>
  The loop's table holds the acceptor \<open>av\<close>, the wake-up pipe, the connections of the map and
  nothing else; the numbers of objects still to come are unused.
\<close>

definition data_inv :: "(kernel \<Rightarrow> syscall \<Rightarrow> kernel) \<Rightarrow> nat \<Rightarrow> event_loop \<Rightarrow> server_data \<Rightarrow> bool" where
  "data_inv ctl av l d \<longleftrightarrow>
     reg_inv ctl l \<and> tw_inv (timing l)
   \<and> av < next_object d \<and> connections d av = None
   \<and> (\<forall>p. pipe l = Some p \<longrightarrow> p < next_object d \<and> p \<noteq> av \<and> connections d p = None)
   \<and> (\<forall>f ev. events l f = Some ev \<longrightarrow> ev = av \<or> pipe l = Some ev \<or> connections d ev \<noteq> None)
   \<and> (\<forall>ev c. connections d ev = Some c \<longrightarrow> ev < next_object d \<and> open_conn l ev c)"

definition server_inv :: "(kernel \<Rightarrow> syscall \<Rightarrow> kernel) \<Rightarrow> tcp_server \<Rightarrow> bool" where
  "server_inv ctl s \<longleftrightarrow> data_inv ctl (a_event (listener s)) (server_loop s) (clients s)"

lemma data_invD:
  assumes "data_inv ctl av l d"
  shows "reg_inv ctl l" and "tw_inv (timing l)" and "av < next_object d" and "connections d av = None"
    and "pipe l = Some p \<Longrightarrow> p < next_object d \<and> p \<noteq> av \<and> connections d p = None"
    and "events l f = Some ev \<Longrightarrow> ev = av \<or> pipe l = Some ev \<or> connections d ev \<noteq> None"
    and "connections d ev = Some c \<Longrightarrow> ev < next_object d \<and> open_conn l ev c"
  using assms unfolding data_inv_def by blast+

lemma events_used:
  assumes "data_inv ctl av l d" and "events l f = Some ev"
  shows "ev < next_object d"
  using data_invD(3,5-7) [OF assms(1)] assms(2) by (metis not_None_eq)

text \<open>
  Two loops that agree on descriptors and registrations up to one object \<open>ev\<close>: what holds of
  the other connections in one holds in the other.
\<close>

lemma open_conn_cong:
  assumes "open_conn l e c" and "getFd l' e = getFd l e" and "events l' (getFd l e) = events l (getFd l e)"
  shows "open_conn l' e c"
  using assms by (simp add: open_conn_def registered_def)

lemma same_fd_same_event:
  "reg_inv ctl l \<Longrightarrow> registered l e \<Longrightarrow> events l f = Some e \<Longrightarrow> f = getFd l e"
  by (auto simp: getFd_def dest: reg_invD(3))

subsection \<open>Accepting\<close>

text \<open>An object that is reported when it is readable and times out after 30 silent seconds.\<close>

definition supervised ::
    "(kernel \<Rightarrow> syscall \<Rightarrow> kernel) \<Rightarrow> event_loop \<Rightarrow> nat \<Rightarrow> int \<Rightarrow> tcp_connection \<Rightarrow> bool" where
  "supervised ctl l ev f c \<longleftrightarrow> event_id c = ev \<and> getFd l ev = f \<and> watched ctl l f = Some kEventRead
     \<and> (\<exists>e. idle_left (c\<lparr>lp := l\<rparr>) e 30 30)"

lemma accept_loop:
  fixes l :: event_loop and ev :: nat and f :: int and tw :: timing_wheel
  assumes "epoll_laws ctl" and "reg_inv ctl l" and "\<forall>g. events l g \<noteq> Some ev" and "events l f = None" and "0 \<le> f"
  defines "l1 \<equiv> (addEvent (new_Event l ev f) ev)\<lparr>timing := tw\<rparr>"
  shows "reg_inv ctl l1" and "events l1 = (events l)(f \<mapsto> ev)"
    and "getFd l1 e = (if e = ev then f else getFd l e)"
    and "watched ctl l1 = (watched ctl l)(f \<mapsto> kEventRead)"
    and "owner l1 = owner l" and "pipe l1 = pipe l"
proof -
  show "reg_inv ctl l1"
    using addEvent_reg [OF assms(1) new_Event_reg [OF assms(2,3)]] assms(3,5) by (simp add: l1_def)
  have g: "getFd (new_Event l ev f) ev = f" by (simp add: getFd_def new_Event_def)
  show "watched ctl l1 = (watched ctl l)(f \<mapsto> kEventRead)"
    using epoll_lawsD(1) [OF assms(1), of f "watched ctl l" kEventRead] reg_invD(1) [OF assms(2,4)] assms(4,5)
    by (simp add: l1_def addEvent_def Let_def g getEvents_def fun_eq_iff)
qed (use assms(4) in \<open>auto simp: l1_def addEvent_def Let_def getFd_def new_Event_def\<close>)

lemma idle_left_insert:
  fixes l :: event_loop and e e' :: entry and c :: tcp_connection
  assumes "idle_left (c\<lparr>lp := l\<rparr>) e d k" and "registered l1 (event_id c)"
    and "eid e' = next_id (timing l)" and "\<forall>i f. payload e' \<noteq> Every i f"
    and "timing l1 = insertEntry ((timing l)\<lparr>next_id := Suc (next_id (timing l))\<rparr>) n e'"
  shows "idle_left (c\<lparr>lp := l1\<rparr>) e d k"
proof -
  let ?tw = "(timing l)\<lparr>next_id := Suc (next_id (timing l))\<rparr>"
  have c: "tw_inv (timing l)" "short_lived (timing l) e" using assms(1) by (simp_all add: idle_left_def)
  have ne: "e \<noteq> e'" using c(2) assms(3) by (auto simp: short_lived_def)
  have "tw_inv (insertEntry ?tw n e')"
    using assms(3,4) by (intro insertEntry_inv [OF alloc_inv [OF c(1)]]) auto
  moreover have "short_lived (insertEntry ?tw n e') e"
    using c(2) by (simp add: short_lived_def occ_insertEntry_other [OF ne])
  ultimately show ?thesis
    using assms(1,2,5) by (simp add: idle_left_def occ_insertEntry_other [OF ne])
qed

lemma server_accept_ok:
  fixes l :: event_loop and d :: server_data and f :: int and peer :: inet_address
    and fresh :: "nat \<times> int" and m :: "addr \<Rightarrow> byte" and ws :: "nat \<Rightarrow> io_result list"
    and rs :: "nat \<Rightarrow> (int + bytes) list"
  assumes "epoll_laws ctl" and "data_inv ctl av l d" and "events l f = None" and "0 \<le> f"
    and "t = owner l"
  defines "x \<equiv> server_accept t fresh m ws rs f peer (l, d)"
  shows "data_inv ctl av (fst x) (snd x)" and "owner (fst x) = owner l"
    and "events (fst x) = (events l)(f \<mapsto> next_object d)"
    and "next_object (snd x) = Suc (next_object d)"
    and "announced (snd x) = announced d @ [(next_object d, peer)]"
    and "\<exists>c. connections (snd x) = (connections d)(next_object d \<mapsto> c)
           \<and> supervised ctl (fst x) (next_object d) f c"
    and "supervised ctl l e g c \<Longrightarrow> supervised ctl (fst x) e g c"
proof -
  let ?ev = "next_object d"
  let ?e = "Entry (next_id (timing l)) (Idle ?ev)"
  let ?tw = "(timing l)\<lparr>next_id := Suc (next_id (timing l))\<rparr>"
  let ?l1 = "(addEvent (new_Event l ?ev f) ?ev)\<lparr>timing := insertEntry ?tw 30 ?e\<rparr>"
  note inv = data_invD [OF assms(2)]
  have unused: "\<forall>g. events l g \<noteq> Some ?ev" using events_used [OF assms(2)] by blast
  note al = accept_loop [OF assms(1) inv(1) unused assms(3,4), of "insertEntry ?tw 30 ?e"]
  obtain c1 where c1: "onAccept l t fresh ?ev f m (ws ?ev) (rs ?ev) = Inr c1"
      "idle_left c1 ?e 30 30" "lp c1 = ?l1" "event_id c1 = ?ev" "in_server c1" "close_cb c1"
    using onAccept_ok [OF inv(2) assms(3,5), of fresh ?ev m "ws ?ev" "rs ?ev"] by blast
  have x: "x = (?l1, \<lparr>connections = (connections d)(?ev \<mapsto> c1), next_object = Suc ?ev,
      announced = announced d @ [(?ev, peer)]\<rparr>)"
    using c1(1,3) by (simp add: x_def server_accept_def Let_def)
  have lp: "c1\<lparr>lp := ?l1\<rparr> = c1" using c1(3) by simp
  have r: "registered ?l1 ?ev" "\<not> closed c1" "tw_inv (timing ?l1)"
    using c1(2-4) by (simp_all add: idle_left_def)
  have fd: "g \<noteq> f" if "events l g = Some h" for g h using that assms(3) by auto
  have old: "open_conn ?l1 e c" if "open_conn l e c" "e \<noteq> ?ev" for e c
    using that fd [of "getFd l e" e] al(2,3)
    by (intro open_conn_cong [OF that(1)]) (auto simp: open_conn_def registered_def)
  have new: "open_conn ?l1 ?ev c1"
    using c1(4-6) r(1,2) al(3) [of ?ev] assms(4) by (simp add: open_conn_def)
  have "ev = av \<or> pipe ?l1 = Some ev \<or> ((connections d)(?ev \<mapsto> c1)) ev \<noteq> None"
    if "events ?l1 g = Some ev" for g ev
    using that inv(6) [of g ev] unfolding al(2) al(6) by (auto split: if_splits)
  moreover have "p < Suc ?ev \<and> p \<noteq> av \<and> ((connections d)(?ev \<mapsto> c1)) p = None" if "pipe ?l1 = Some p" for p
    using that inv(5) [of p] unfolding al(6) by auto
  moreover have "ev < Suc ?ev \<and> open_conn ?l1 ev c" if "((connections d)(?ev \<mapsto> c1)) ev = Some c" for ev c
    using that inv(7) [of ev c] old [of ev c] new by (auto split: if_splits)
  ultimately show "data_inv ctl av (fst x) (snd x)"
    using al(1) r(3) inv(3,4) unfolding data_inv_def x by auto
  show "owner (fst x) = owner l" "events (fst x) = (events l)(f \<mapsto> ?ev)"
    "next_object (snd x) = Suc ?ev" "announced (snd x) = announced d @ [(?ev, peer)]"
    using al(2,5) by (simp_all add: x)
  have "supervised ctl ?l1 ?ev f c1"
    unfolding supervised_def lp using al(3) [of ?ev] al(4) c1(2,4) by auto
  then show "\<exists>c. connections (snd x) = (connections d)(?ev \<mapsto> c) \<and> supervised ctl (fst x) ?ev f c"
    by (intro exI [of _ c1]) (simp add: x)
  show "supervised ctl (fst x) e g c" if s: "supervised ctl l e g c"
  proof -
    obtain k where k: "idle_left (c\<lparr>lp := l\<rparr>) k 30 30" using s by (auto simp: supervised_def)
    then have reg: "registered l e" using s by (simp add: idle_left_def supervised_def)
    have ne: "e \<noteq> ?ev" "getFd l e \<noteq> f" using reg unused fd [of "getFd l e" e] by (auto simp: registered_def)
    then have "registered ?l1 e" using reg al(2,3) by (simp add: registered_def)
    then have "idle_left (c\<lparr>lp := ?l1\<rparr>) k 30 30"
      using s by (intro idle_left_insert [OF k]) (auto simp: supervised_def)
    then show ?thesis using s ne al(3) [of e] al(4) by (auto simp: supervised_def x)
  qed
qed

text \<open>Several connections in a row.\<close>

lemma accept_all:
  fixes l :: event_loop and d :: server_data and ps :: "(int \<times> sockaddr) list"
    and fresh :: "nat \<times> int" and m :: "addr \<Rightarrow> byte" and ws :: "nat \<Rightarrow> io_result list"
    and rs :: "nat \<Rightarrow> (int + bytes) list" and lib :: inet_lib
  assumes "epoll_laws ctl" and "data_inv ctl av l d" and "t = owner l"
    and "\<forall>(f, p) \<in> set ps. 0 \<le> f \<and> events l f = None" and "distinct (map fst ps)"
  defines "y \<equiv> foldl (\<lambda>x (f, p). server_accept t fresh m ws rs f (getPeerAddr lib p) x) (l, d) ps"
  shows "data_inv ctl av (fst y) (snd y) \<and> owner (fst y) = owner l
     \<and> next_object (snd y) = next_object d + length ps
     \<and> announced (snd y) = announced d
         @ zip [next_object d..<next_object d + length ps] (map (\<lambda>(f, p). getPeerAddr lib p) ps)
     \<and> (\<forall>i < length ps. \<exists>c. connections (snd y) (next_object d + i) = Some c
           \<and> supervised ctl (fst y) (next_object d + i) (fst (ps ! i)) c)
     \<and> (\<forall>e < next_object d. connections (snd y) e = connections d e)
     \<and> (\<forall>e g c. supervised ctl l e g c \<longrightarrow> supervised ctl (fst y) e g c)"
  using assms(2-5) unfolding y_def
proof (induction ps arbitrary: l d)
  case Nil
  then show ?case by simp
next
  case (Cons q ps)
  obtain f p where q: "q = (f, p)" by (cases q)
  define x where "x = server_accept t fresh m ws rs f (getPeerAddr lib p) (l, d)"
  have f: "events l f = None" "0 \<le> f" "f \<notin> fst ` set ps" using Cons.prems(3,4) q by auto
  note a = server_accept_ok [OF assms(1) Cons.prems(1) f(1,2) Cons.prems(2),
      where fresh = fresh and m = m and ws = ws and rs = rs and peer = "getPeerAddr lib p", folded x_def]
  have later: "\<forall>(g, p) \<in> set ps. 0 \<le> g \<and> events (fst x) g = None"
    using Cons.prems(3) f(3) unfolding a(3) by force
  have d: "distinct (map fst ps)" using Cons.prems(4) by simp
  define y where "y = foldl (\<lambda>x (f, p). server_accept t fresh m ws rs f (getPeerAddr lib p) x) x ps"
  have y: "foldl (\<lambda>x (f, p). server_accept t fresh m ws rs f (getPeerAddr lib p) x) (l, d) (q # ps) = y"
    by (simp add: y_def x_def q)
  have t: "t = owner (fst x)" using a(2) Cons.prems(2) by simp
  note IH = Cons.IH [OF a(1) t later d, simplified, folded y_def]
  obtain c where c: "connections (snd x) = (connections d)(next_object d \<mapsto> c)"
      "supervised ctl (fst x) (next_object d) f c" using a(6) by blast
  have new: "\<exists>c. connections (snd y) (next_object d + i) = Some c
      \<and> supervised ctl (fst y) (next_object d + i) (fst ((q # ps) ! i)) c" if "i < length (q # ps)" for i
  proof (cases i)
    case 0
    then show ?thesis using IH c a(4) by (intro exI [of _ c]) (simp add: q)
  next
    case (Suc j)
    with that IH a(4) show ?thesis by simp
  qed
  have "connections (snd y) e = connections d e" if "e < next_object d" for e
    using IH that a(4) c(1) by simp
  moreover have "supervised ctl (fst y) e g c" if "supervised ctl l e g c" for e g c
    using IH a(7) [OF that] by blast
  moreover have "announced (snd y) = announced d
      @ zip [next_object d..<next_object d + length (q # ps)] (map (\<lambda>(f, p). getPeerAddr lib p) (q # ps))"
    using IH a(4,5) by (simp add: upt_conv_Cons q del: upt_Suc)
  ultimately show ?case using IH new a(2,4) unfolding y by simp
qed

subsection \<open>Starting\<close>

lemma server_ready:
  fixes l :: event_loop and lib :: inet_lib and flags old4 :: u32 and old6 :: "128 word"
    and fresh :: "nat \<times> int" and ev :: nat and addr :: inet_address and socks :: "int list"
  assumes "epoll_laws ctl" and "reg_inv ctl l" and "tw_inv (timing l)" and "events l = Map.empty"
    and "pipe l = None" and "0 \<le> f" and "t = owner l"
  defines "s \<equiv> server_start lib flags old4 old6 (new_TcpServer l ev addr (f # socks)) t fresh"
  shows "server_inv ctl s" and "owner (server_loop s) = owner l" and "a_event (listener s) = ev"
    and "registered (server_loop s) ev" and "events (server_loop s) = [f \<mapsto> ev]"
    and "clients s = \<lparr>connections = Map.empty, next_object = Suc ev, announced = []\<rparr>"
proof -
  let ?a = "new_Acceptor l ev addr (f # socks) []"
  have a: "a_loop ?a = new_Event l ev (-1)" "a_event ?a = ev" "next_socket ?a = f"
    "getFd (a_loop ?a) ev = -1"
    by (simp_all add: new_Acceptor_def next_socket_def getFd_def) (simp add: new_Event_def)
  have r: "reg_inv ctl (a_loop ?a)" using new_Event_reg [OF assms(2)] assms(4) a(1) by simp
  have e: "\<forall>h. events (a_loop ?a) h \<noteq> Some (a_event ?a)" "events (a_loop ?a) f = None"
    "getFd (a_loop ?a) (a_event ?a) = -1 \<or> events (a_loop ?a) (getFd (a_loop ?a) (a_event ?a)) = None"
    using assms(4) a by simp_all
  note o = open_registers [OF assms(1) r e(1,3) a(3) assms(6) e(2), where lib = lib and flags = flags
      and ?old4.0 = old4 and ?old6.0 = old6]
  have s: "s = \<lparr>listener = acceptor_open lib flags old4 old6 ?a,
      clients = \<lparr>connections = Map.empty, next_object = Suc ev, announced = []\<rparr>\<rparr>"
    using assms(7) by (simp add: s_def server_start_def acceptor_start_def new_TcpServer_def
        isInLoopThread_def a(1))
  show ev: "events (server_loop s) = [f \<mapsto> ev]" using o(5) assms(4) a by (simp add: s)
  show "owner (server_loop s) = owner l" "a_event (listener s) = ev" "registered (server_loop s) ev"
    "clients s = \<lparr>connections = Map.empty, next_object = Suc ev, announced = []\<rparr>"
    using o(2,8,10) a by (simp_all add: s)
  have "pipe (server_loop s) = None" "timing (server_loop s) = timing l" "reg_inv ctl (server_loop s)"
    using o(1,7,9) a assms(5) by (simp_all add: s)
  then show "server_inv ctl s"
    using ev assms(3) o(10) a(2) unfolding server_inv_def data_inv_def by (simp add: s)
qed

subsection \<open>Closing\<close>

lemma data_inv_forget:
  fixes l :: event_loop and ev :: nat
  assumes "epoll_laws ctl" and "data_inv ctl av l d" and "connections d ev = Some c"
  defines "l' \<equiv> close_event (removeEvent l ev) ev"
  shows "data_inv ctl av l' (d\<lparr>connections := (connections d)(ev := None)\<rparr>)"
proof -
  note inv = data_invD [OF assms(2)]
  have r: "registered l ev" using inv(7) [OF assms(3)] by (simp add: open_conn_def)
  note f = forget_event [OF assms(1) inv(1) r, folded l'_def]
  have "e = av \<or> pipe l' = Some e \<or> ((connections d)(ev := None)) e \<noteq> None"
    if "events l' g = Some e" for g e
    using that inv(6) [of g e] same_fd_same_event [OF inv(1) r, of g] unfolding f(2,7)
    by (auto split: if_splits)
  moreover have "p < next_object d \<and> p \<noteq> av \<and> ((connections d)(ev := None)) p = None"
    if "pipe l' = Some p" for p
    using that inv(5) [of p] unfolding f(7) by simp
  moreover have "e < next_object d \<and> open_conn l' e c'"
    if "((connections d)(ev := None)) e = Some c'" for e c'
  proof -
    have e: "e \<noteq> ev" "connections d e = Some c'" using that by (auto split: if_splits)
    have "getFd l e \<noteq> getFd l ev"
      using inv(7) [OF e(2)] r e(1) by (auto simp: open_conn_def registered_def)
    then show ?thesis
      using inv(7) [OF e(2)] e(1) f(2,3) by (auto intro: open_conn_cong)
  qed
  ultimately show ?thesis using f(1,5) inv(2-4) by (auto simp: data_inv_def)
qed

subsection \<open>Histories\<close>

text \<open>
  What happens to a server: a readable listening socket, with any descriptors the kernel does not
  use yet; an error of that socket, after which it is reopened; the end of accepting; a
  connection that times out or is closed (a close that would touch a destroyed object is no
  step); users taking and dropping shared pointers; traffic; seconds that pass; and
  closures from other threads, the first of which creates the wake-up pipe.
\<close>

inductive server_step :: "inet_lib \<Rightarrow> tcp_server \<Rightarrow> tcp_server \<Rightarrow> bool" for lib :: inet_lib where
  accept: "\<forall>(f, p) \<in> set ps. 0 \<le> f \<and> events (server_loop s) f = None \<Longrightarrow> distinct (map fst ps)
    \<Longrightarrow> retryable e \<Longrightarrow>
    server_step lib s (server_onRead lib flags old4 old6 (owner (server_loop s)) fresh m ws rs
      (s\<lparr>listener := (listener s)\<lparr>a_accepts := map Inr ps @ Inl e # rest\<rparr>\<rparr>))"
| reopen: "registered (server_loop s) (a_event (listener s)) \<Longrightarrow> 0 \<le> f \<Longrightarrow>
    events (server_loop s) f = None \<or> f = getFd (server_loop s) (a_event (listener s)) \<Longrightarrow>
    server_step lib s (s\<lparr>listener := acceptor_onError lib flags old4 old6
      ((listener s)\<lparr>a_sockets := f # socks\<rparr>)\<rparr>)"
| stop: "registered (server_loop s) (a_event (listener s)) \<Longrightarrow> server_step lib s (server_stop s)"
| timeout: "server_conn s ev (\<lambda>c. timeout_destructor c (owner (server_loop s))) = Inr s' \<Longrightarrow>
    server_step lib s s'"
| close: "server_conn s ev (\<lambda>c. onClose c (owner (server_loop s))) = Inr s' \<Longrightarrow> server_step lib s s'"
| hold: "connections (clients s) ev = Some c \<Longrightarrow>
    server_step lib s (s\<lparr>clients := (clients s)\<lparr>connections :=
      (connections (clients s))(ev \<mapsto> c\<lparr>holders := n\<rparr>)\<rparr>\<rparr>)"
| active: "server_conn s ev (\<lambda>c. Inr (extendLife c)) = Inr s' \<Longrightarrow> server_step lib s s'"
| second: "advance (timing (server_loop s)) = Some tw \<Longrightarrow>
    server_step lib s (s\<lparr>listener := (listener s)\<lparr>a_loop := (server_loop s)\<lparr>timing := tw\<rparr>\<rparr>\<rparr>)"
| wake: "events (server_loop s) rfd = None \<Longrightarrow> 0 \<le> rfd \<Longrightarrow>
    server_step lib s (s\<lparr>listener := (listener s)\<lparr>a_loop :=
        weakup ((server_loop s)\<lparr>queue := queue (server_loop s) @ [f]\<rparr>) (next_object (clients s)) rfd\<rparr>,
      clients := (clients s)\<lparr>next_object := Suc (next_object (clients s))\<rparr>\<rparr>)"

inductive_cases server_stepE: "server_step lib s s'"

text \<open>From a server started in the thread of a new loop, as object 0, on a new socket.\<close>

inductive server_reachable :: "inet_lib \<Rightarrow> tcp_server \<Rightarrow> bool" for lib :: inet_lib where
  init: "new_EventLoop t False epfd = Some l \<Longrightarrow> 0 \<le> f \<Longrightarrow>
    server_reachable lib (server_start lib flags old4 old6 (new_TcpServer l 0 addr (f # socks)) t fresh)"
| step: "server_reachable lib s \<Longrightarrow> server_step lib s s' \<Longrightarrow> server_reachable lib s'"

lemma data_inv_same_table:
  assumes "data_inv ctl av l d" and "reg_inv ctl l'" and "tw_inv (timing l')"
    and "events l' = events l" and "\<And>e. getFd l' e = getFd l e" and "pipe l' = pipe l"
  shows "data_inv ctl av l' d"
proof -
  have "open_conn l' e c = open_conn l e c" for e c
    using assms(4,5) by (simp add: open_conn_def registered_def)
  then show ?thesis using assms unfolding data_inv_def by simp
qed

lemma weakup_inv:
  fixes l :: event_loop and rfd :: int and d :: server_data
  assumes "epoll_laws ctl" and "data_inv ctl av l d" and "events l rfd = None" and "0 \<le> rfd"
  shows "data_inv ctl av (weakup (l\<lparr>queue := q\<rparr>) (next_object d) rfd) (d\<lparr>next_object := Suc (next_object d)\<rparr>)"
proof -
  let ?p = "next_object d" and ?q = "l\<lparr>queue := q\<rparr>"
  let ?l = "weakup ?q ?p rfd"
  note inv = data_invD [OF assms(2)]
  have unused: "\<forall>g. events ?q g \<noteq> Some ?p" using events_used [OF assms(2)] by auto
  have rq: "reg_inv ctl ?q" using inv(1) by (simp add: reg_inv_def)
  have pw: "reg_inv ctl (syscall k (PipeWrite n)) = reg_inv ctl k" for k n
    by (simp add: reg_inv_def epoll_lawsD(5) [OF assms(1)])
  show ?thesis
  proof (cases "pipe l")
    case (Some p)
    have "data_inv ctl av ?l d"
      using Some rq inv(2) by (intro data_inv_same_table [OF assms(2)])
        (simp_all add: weakup_def pw getFd_def, simp add: reg_inv_def)
    then show ?thesis by (auto simp: data_inv_def intro: less_SucI)
  next
    case None
    let ?k = "addEvent (new_Event (?q\<lparr>pipe := Some ?p\<rparr>) ?p rfd) ?p"
    have "reg_inv ctl (?q\<lparr>pipe := Some ?p\<rparr>)" using inv(1) by (simp add: reg_inv_def)
    note al = accept_loop [OF assms(1) this, of ?p rfd "timing l"]
    have k: "?k\<lparr>timing := timing l\<rparr> = ?k" by simp
    have l: "?l = syscall (?k\<lparr>unread := Suc (unread ?k)\<rparr>) (PipeWrite 1)"
      using None by (simp add: weakup_def)
    have t: "reg_inv ctl ?l" "events ?l = (events l)(rfd \<mapsto> ?p)" "pipe ?l = Some ?p"
      "getFd ?l e = (if e = ?p then rfd else getFd l e)" for e
      using al [OF _ _ assms(4)] unused assms(3) unfolding k l
      by (simp_all add: pw getFd_def, simp_all add: reg_inv_def)
    have fd: "g \<noteq> rfd" if "events l g = Some h" for g h using that assms(3) by auto
    have "open_conn ?l e c" if "open_conn l e c" "e \<noteq> ?p" for e c
      using that fd [of "getFd l e" e] t(2) t(4) [of e]
      by (intro open_conn_cong [OF that(1)]) (auto simp: open_conn_def registered_def)
    moreover have "connections d ?p = None" using inv(7) [of ?p] by (cases "connections d ?p") auto
    ultimately show ?thesis
      using inv t(1-3) None unfolding data_inv_def
      by (auto simp: less_Suc_eq split: if_splits) blast+
  qed
qed

lemma data_inv_update:
  assumes "data_inv ctl av l d" and "connections d ev = Some c"
    and "event_id c1 = ev" and "\<not> closed c1" and "in_server c1" and "close_cb c1"
  shows "data_inv ctl av l (d\<lparr>connections := (connections d)(ev \<mapsto> c1)\<rparr>)"
proof -
  note inv = data_invD [OF assms(1)]
  have c1: "open_conn l ev c1" using inv(7) [OF assms(2)] assms(3-6) by (simp add: open_conn_def)
  let ?cs = "(connections d)(ev \<mapsto> c1)"
  have "ev' = av \<or> pipe l = Some ev' \<or> ?cs ev' \<noteq> None" if "events l f = Some ev'" for f ev'
    using inv(6) [OF that] by simp
  moreover have "p < next_object d \<and> p \<noteq> av \<and> ?cs p = None" if "pipe l = Some p" for p
    using inv(5) [OF that] assms(2) by auto
  moreover have "e < next_object d \<and> open_conn l e c'" if "?cs e = Some c'" for e c'
    using that inv(7) [of e] inv(7) [OF assms(2)] c1 by (cases "e = ev") simp_all
  moreover have "av \<noteq> ev" using inv(4) assms(2) by auto
  ultimately show ?thesis using inv(1-4) unfolding data_inv_def by simp
qed

text \<open>One connection's operation keeps the invariant when it keeps the connection or closes it.\<close>

lemma server_conn_inv:
  assumes "epoll_laws ctl" and "server_inv ctl s" and "server_conn s ev g = Inr s'"
    and "\<And>c c1. open_conn (server_loop s) ev c \<Longrightarrow> g (c\<lparr>lp := server_loop s\<rparr>) = Inr c1 \<Longrightarrow>
        event_id c1 = ev \<and> \<not> closed c1 \<and> in_server c1 \<and> close_cb c1
          \<and> (\<exists>tw. tw_inv tw \<and> lp c1 = (server_loop s)\<lparr>timing := tw\<rparr>)
      \<or> \<not> in_server c1 \<and> lp c1 = close_event (removeEvent (server_loop s) ev) ev"
  shows "server_inv ctl s'"
proof (cases "connections (clients s) ev")
  case None
  then show ?thesis using assms(2,3) by (simp add: server_conn_def)
next
  case (Some c)
  have inv: "data_inv ctl (a_event (listener s)) (server_loop s) (clients s)"
    using assms(2) by (simp add: server_inv_def)
  note i = data_invD [OF this]
  have oc: "open_conn (server_loop s) ev c" using i(7) [OF Some] by simp
  show ?thesis
  proof (cases "g (c\<lparr>lp := server_loop s\<rparr>)")
    case (Inl e)
    with assms(3) Some show ?thesis by (simp add: server_conn_def)
  next
    case (Inr c1)
    let ?cs = "\<lambda>x. (connections (clients s))(ev := x)"
    have s': "server_loop s' = lp c1" "a_event (listener s') = a_event (listener s)"
      "clients s' = (clients s)\<lparr>connections := ?cs (if in_server c1 then Some c1 else None)\<rparr>"
      using assms(3) Some Inr by (auto simp: server_conn_def)
    from assms(4) [OF oc Inr] show ?thesis
    proof (elim disjE conjE exE)
      fix tw
      assume kept: "event_id c1 = ev" "\<not> closed c1" "in_server c1" "close_cb c1" "tw_inv tw"
        "lp c1 = (server_loop s)\<lparr>timing := tw\<rparr>"
      have "data_inv ctl (a_event (listener s)) (lp c1) (clients s)"
        unfolding kept(6) by (rule data_inv_same_table [OF inv]) (simp_all add: i(1) kept(5))
      from data_inv_update [OF this Some kept(1-4)] kept(3) show ?thesis
        by (simp add: server_inv_def s')
    next
      assume gone: "\<not> in_server c1" "lp c1 = close_event (removeEvent (server_loop s) ev) ev"
      from data_inv_forget [OF assms(1) inv Some] gone(1) show ?thesis
        by (simp add: server_inv_def s' gone(2))
    qed
  qed
qed

lemma onClose_cases:
  assumes "\<not> closed c" and "close_cb c" and "registered (lp c) (event_id c)" and "onClose c t = Inr c1"
  shows "\<not> in_server c1 \<and> lp c1 = close_event (removeEvent (lp c) (event_id c)) (event_id c)"
  using assms by (auto simp: onClose_def onConnectionClose_def split: if_splits)

lemma timeout_cases:
  assumes "\<not> closed c" and "close_cb c" and "registered (lp c) (event_id c)"
    and "timeout_destructor c t = Inr c1"
  shows "\<not> in_server c1 \<and> lp c1 = close_event (removeEvent (lp c) (event_id c)) (event_id c)"
proof -
  have "kept_alive c" using assms(3) by (simp add: kept_alive_def)
  then obtain c2 where c2: "onClose (c\<lparr>holders := Suc (holders c)\<rparr>) t = Inr c2"
      "c1 = c2\<lparr>holders := holders c2 - 1\<rparr>"
    using assms(4) by (auto simp: timeout_destructor_def onTimeout_def split: sum.splits)
  from onClose_cases [OF _ _ _ c2(1)] assms(1-3) c2(2) show ?thesis by simp
qed

lemma extendLife_cases:
  assumes "tw_inv (timing (lp c))"
  shows "(\<exists>tw. tw_inv tw \<and> lp (extendLife c) = (lp c)\<lparr>timing := tw\<rparr>)
     \<and> in_server (extendLife c) = in_server c \<and> close_cb (extendLife c) = close_cb c"
proof -
  have "tw_inv (insertEntry (timing (lp c)) d e)" if "held (timing (lp c)) e" for d e
    using assms that by (intro insertEntry_inv) (auto simp: tw_inv_def)
  moreover have "lp c = (lp c)\<lparr>timing := timing (lp c)\<rparr>" by simp
  ultimately show ?thesis
    using assms by (auto simp: extendLife_def split: option.splits)
qed

lemma server_onRead_inv:
  fixes s :: tcp_server and lib :: inet_lib and fresh :: "nat \<times> int" and m :: "addr \<Rightarrow> byte"
    and ws :: "nat \<Rightarrow> io_result list" and rs :: "nat \<Rightarrow> (int + bytes) list" and flags old4 :: u32
    and old6 :: "128 word"
  assumes "epoll_laws ctl" and "server_inv ctl s" and "t = owner (server_loop s)"
    and "a_accepts (listener s) = map Inr ps @ Inl e # rest" and "retryable e"
    and "\<forall>(f, p) \<in> set ps. 0 \<le> f \<and> events (server_loop s) f = None" and "distinct (map fst ps)"
  defines "y \<equiv> foldl (\<lambda>x (f, p). server_accept t fresh m ws rs f (getPeerAddr lib p) x)
    (server_loop s, clients s) ps" and "s' \<equiv> server_onRead lib flags old4 old6 t fresh m ws rs s"
  shows "clients s' = snd y" and "server_loop s' = fst y" and "a_event (listener s') = a_event (listener s)"
    and "server_inv ctl s'"
proof -
  have "\<forall>(f, p) \<in> set ps. 0 \<le> f" using assms(6) by auto
  note a = accepts_all_pending [OF assms(4) this, where lib = lib and flags = flags and ?old4.0 = old4
      and ?old6.0 = old6 and cb = "server_accept t fresh m ws rs" and s = "clients s"]
  show s': "clients s' = snd y" "server_loop s' = fst y" "a_event (listener s') = a_event (listener s)"
    using assms(5) unfolding s'_def y_def server_onRead_def a by simp_all
  have inv: "data_inv ctl (a_event (listener s)) (server_loop s) (clients s)"
    using assms(2) by (simp add: server_inv_def)
  show "server_inv ctl s'"
    using accept_all [OF assms(1) inv assms(3,6,7), where fresh = fresh and m = m and ws = ws and rs = rs
        and lib = lib, folded y_def]
    unfolding server_inv_def s' by blast
qed

text \<open>Taking the acceptor out of the table, or moving it to another descriptor.\<close>

lemma data_inv_acceptor:
  assumes "data_inv ctl av l d" and "registered l av" and "reg_inv ctl l'" and "timing l' = timing l"
    and "events l' = (events l)(getFd l av := None) \<or> events l' = (events l)(getFd l av := None, f \<mapsto> av)"
    and "events l f = None \<or> f = getFd l av"
    and "\<And>e. e \<noteq> av \<Longrightarrow> getFd l' e = getFd l e" and "pipe l' = pipe l"
  shows "data_inv ctl av l' d"
proof -
  note inv = data_invD [OF assms(1)]
  have other: "events l' g = Some e \<longleftrightarrow> events l g = Some e" if "e \<noteq> av" for g e
    using assms(2,5,6) that by (auto simp: registered_def split: if_splits)
  have "open_conn l' e c" if "connections d e = Some c" for e c
  proof -
    have "e \<noteq> av" using inv(4) that by auto
    then show ?thesis
      using inv(7) [OF that] other [of e "getFd l e"] assms(7) [of e]
      by (auto simp: open_conn_def registered_def)
  qed
  moreover have "e = av \<or> pipe l' = Some e \<or> connections d e \<noteq> None" if "events l' g = Some e" for g e
    using inv(6) [of g e] other [of e g] that assms(8) by auto
  ultimately show ?thesis
    using inv(2-5,7) assms(3,4,8) unfolding data_inv_def by simp
qed

lemma server_step_inv:
  assumes "epoll_laws ctl" and "server_inv ctl s" and "server_step lib s s'"
  shows "server_inv ctl s'"
proof -
  let ?l = "server_loop s" and ?av = "a_event (listener s)"
  have inv: "data_inv ctl ?av ?l (clients s)" using assms(2) by (simp add: server_inv_def)
  note i = data_invD [OF inv]
  show ?thesis
    using assms(3)
  proof cases
    case (accept ps e flags old4 old6 fresh m ws rs rest)
    let ?s = "s\<lparr>listener := (listener s)\<lparr>a_accepts := map Inr ps @ Inl e # rest\<rparr>\<rparr>"
    have "server_inv ctl ?s" using assms(2) by (simp add: server_inv_def)
    from server_onRead_inv(4) [OF assms(1) this _ _ accept(4), of _ ps rest] accept(1-3)
    show ?thesis by simp
  next
    case (reopen f flags old4 old6 socks)
    let ?a = "(listener s)\<lparr>a_sockets := f # socks\<rparr>"
    have "next_socket ?a = f" by (simp add: next_socket_def)
    note o = reopen_registers [OF assms(1) _ _ this reopen(3), of lib flags old4 old6, simplified,
        OF i(1) reopen(2,4)]
    have "data_inv ctl ?av (a_loop (acceptor_onClose lib flags old4 old6 ?a)) (clients s)"
      using o(5-7,9) reopen(4) by (intro data_inv_acceptor [OF inv reopen(2) o(1), where f = f]) auto
    then show ?thesis using o(10) by (simp add: reopen(1) server_inv_def acceptor_onError_def)
  next
    case stop
    have "data_inv ctl ?av (removeEvent ?l ?av) (clients s)"
      using removeEvent_frame(5) [OF stop(2)]
      by (intro data_inv_acceptor [OF inv stop(2) removeEvent_reg [OF assms(1) i(1)], where f = "getFd ?l ?av"])
        (simp_all add: removeEvent_frame)
    then show ?thesis by (simp add: stop(1) server_inv_def server_stop_def)
  next
    case (timeout ev)
    show ?thesis
    proof (rule server_conn_inv [OF assms(1,2) timeout])
      fix c c1
      assume "open_conn ?l ev c" and op: "timeout_destructor (c\<lparr>lp := ?l\<rparr>) (owner ?l) = Inr c1"
      with timeout_cases [OF _ _ _ op] show "event_id c1 = ev \<and> \<not> closed c1 \<and> in_server c1 \<and> close_cb c1
            \<and> (\<exists>tw. tw_inv tw \<and> lp c1 = ?l\<lparr>timing := tw\<rparr>)
          \<or> \<not> in_server c1 \<and> lp c1 = close_event (removeEvent ?l ev) ev"
        by (simp add: open_conn_def)
    qed
  next
    case (close ev)
    show ?thesis
    proof (rule server_conn_inv [OF assms(1,2) close])
      fix c c1
      assume "open_conn ?l ev c" and op: "onClose (c\<lparr>lp := ?l\<rparr>) (owner ?l) = Inr c1"
      with onClose_cases [OF _ _ _ op] show "event_id c1 = ev \<and> \<not> closed c1 \<and> in_server c1 \<and> close_cb c1
            \<and> (\<exists>tw. tw_inv tw \<and> lp c1 = ?l\<lparr>timing := tw\<rparr>)
          \<or> \<not> in_server c1 \<and> lp c1 = close_event (removeEvent ?l ev) ev"
        by (simp add: open_conn_def)
    qed
  next
    case (hold ev c n)
    have "open_conn ?l ev c" using i(7) [OF hold(2)] by simp
    then show ?thesis
      using data_inv_update [OF inv hold(2), of "c\<lparr>holders := n\<rparr>"]
      by (simp add: hold(1) server_inv_def open_conn_def)
  next
    case (active ev)
    show ?thesis
    proof (rule server_conn_inv [OF assms(1,2) active])
      fix c c1
      assume "open_conn ?l ev c" and "Inr (extendLife (c\<lparr>lp := ?l\<rparr>)) = (Inr c1 :: conn_error + _)"
      with extendLife_cases [of "c\<lparr>lp := ?l\<rparr>"] i(2) show "event_id c1 = ev \<and> \<not> closed c1 \<and> in_server c1 \<and> close_cb c1
            \<and> (\<exists>tw. tw_inv tw \<and> lp c1 = ?l\<lparr>timing := tw\<rparr>)
          \<or> \<not> in_server c1 \<and> lp c1 = close_event (removeEvent ?l ev) ev"
        by (auto simp: open_conn_def)
    qed
  next
    case (second tw)
    have "tw_inv tw" using advance_ok [OF i(2)] second(2) by (auto simp: evolves_def)
    then have "data_inv ctl ?av (?l\<lparr>timing := tw\<rparr>) (clients s)"
      by (intro data_inv_same_table [OF inv]) (simp_all add: i(1))
    then show ?thesis by (simp add: second(1) server_inv_def)
  next
    case (wake rfd f)
    from weakup_inv [OF assms(1) inv wake(2,3)] show ?thesis by (simp add: wake(1) server_inv_def)
  qed
qed

lemma server_reachable_inv:
  assumes "epoll_laws ctl" and "server_reachable lib s"
  shows "server_inv ctl s"
  using assms(2)
proof (induction rule: server_reachable.induct)
  case (init t epfd l f flags old4 old6 addr socks fresh)
  have "reg_inv ctl l" "tw_inv (timing l)" "events l = Map.empty" "pipe l = None" "t = owner l"
    using init(1) new_EventLoop_reg new_TimingWheel_inv by (auto simp: new_EventLoop_def split: if_splits)
  from server_ready(1) [OF assms(1) this(1-4) init(2) this(5)] show ?case .
next
  case (step s s')
  from server_step_inv [OF assms(1) step.IH step.hyps(2)] show ?case .
qed

subsection \<open>Properties\<close>

text \<open>
  C14. A readable listening socket is served completely: every pending connection becomes a
  connection object of its own, in order, is in the server's set and announced with its peer, is
  watched by the kernel for reading, and is supervised with a full limit of 30 seconds. The
  connections that were there are untouched, those under supervision stay so, and the loop's
  table still holds exactly the acceptor, the pipe and the set's connections.
\<close>

theorem server_serves_clients:
  fixes s :: tcp_server and lib :: inet_lib and ps :: "(int \<times> sockaddr) list"
    and fresh :: "nat \<times> int" and m :: "addr \<Rightarrow> byte" and ws :: "nat \<Rightarrow> io_result list"
    and rs :: "nat \<Rightarrow> (int + bytes) list" and flags old4 :: u32 and old6 :: "128 word"
    and rest :: "(int + int \<times> sockaddr) list"
  assumes "epoll_laws ctl" and "server_inv ctl s" and "t = owner (server_loop s)"
    and "a_accepts (listener s) = map Inr ps @ Inl e # rest" and "retryable e"
    and "\<forall>(f, p) \<in> set ps. 0 \<le> f \<and> events (server_loop s) f = None" and "distinct (map fst ps)"
  defines "s' \<equiv> server_onRead lib flags old4 old6 t fresh m ws rs s" and "n \<equiv> next_object (clients s)"
  shows "server_inv ctl s'
     \<and> announced (clients s') = announced (clients s)
         @ zip [n..<n + length ps] (map (\<lambda>(f, p). getPeerAddr lib p) ps)
     \<and> (\<forall>i < length ps. \<exists>c. connections (clients s') (n + i) = Some c
           \<and> supervised ctl (server_loop s') (n + i) (fst (ps ! i)) c)
     \<and> (\<forall>ev < n. connections (clients s') ev = connections (clients s) ev)
     \<and> (\<forall>ev f c. supervised ctl (server_loop s) ev f c \<longrightarrow> supervised ctl (server_loop s') ev f c)"
proof -
  have inv: "data_inv ctl (a_event (listener s)) (server_loop s) (clients s)"
    using assms(2) by (simp add: server_inv_def)
  note o = server_onRead_inv [OF assms(1-7), where lib = lib and flags = flags and ?old4.0 = old4
      and ?old6.0 = old6 and fresh = fresh and m = m and ws = ws and rs = rs, folded s'_def]
  show ?thesis
    using accept_all [OF assms(1) inv assms(3,6,7), where fresh = fresh and m = m and ws = ws and rs = rs
        and lib = lib] o(4)
    unfolding o(1-3) n_def by blast
qed


subsection \<open>A server to evaluate on\<close>

text \<open>Object 0 listens on descriptor 5; two connections and a blocking call will be accepted.\<close>

definition sample_server :: tcp_server where
  "sample_server = server_start sample_lib 0 0 0
     (new_TcpServer sample_loop 0 (new_InetAddress ''0.0.0.0'' 1935 False) [5]) 1 (9, 9)"

definition sample_arrivals :: tcp_server where
  "sample_arrivals = sample_server\<lparr>listener := (listener sample_server)\<lparr>a_accepts :=
     [Inr (7, SockIn 1 9), Inr (8, SockIn 2 9), Inl EAGAIN]\<rparr>\<rparr>"

lemma sample_arrivals:
  "server_inv sample_ctl sample_arrivals" "owner (server_loop sample_arrivals) = 1"
  "events (server_loop sample_arrivals) = [5 \<mapsto> 0]"
  "a_accepts (listener sample_arrivals) = map Inr [(7, SockIn 1 9), (8, SockIn 2 9)] @ Inl EAGAIN # []"
  "next_object (clients sample_arrivals) = 1" "announced (clients sample_arrivals) = []"
  "server_reachable sample_lib sample_server"
proof -
  have l: "tw_inv (timing sample_loop)" "events sample_loop = Map.empty" "pipe sample_loop = None"
    "(1::nat) = owner sample_loop"
    using new_TimingWheel_inv by (simp_all add: sample_loop)
  note s = server_ready [OF sample_ctl_laws sample_loop(9) l(1-3) _ l(4), where f = 5 and lib = sample_lib and flags = 0
      and ?old4.0 = 0 and ?old6.0 = 0 and ev = 0 and addr = "new_InetAddress ''0.0.0.0'' 1935 False"
      and socks = "[]" and fresh = "(9, 9)", folded sample_server_def]
  show "server_inv sample_ctl sample_arrivals" "owner (server_loop sample_arrivals) = 1"
    "events (server_loop sample_arrivals) = [5 \<mapsto> 0]"
    "a_accepts (listener sample_arrivals) = map Inr [(7, SockIn 1 9), (8, SockIn 2 9)] @ Inl EAGAIN # []"
    "next_object (clients sample_arrivals) = 1" "announced (clients sample_arrivals) = []"
    using s sample_loop(2) by (simp_all add: sample_arrivals_def server_inv_def)
  show "server_reachable sample_lib sample_server"
    unfolding sample_server_def by (rule server_reachable.init [OF sample_loop(1)]) simp
qed

theorem server_serves_clients_witness:
  "\<exists>c. connections (clients (server_onRead sample_lib 0 0 0 1 (9, 9) ucast (\<lambda>_. []) (\<lambda>_. []) sample_arrivals)) 2 = Some c
     \<and> supervised sample_ctl (server_loop (server_onRead sample_lib 0 0 0 1 (9, 9) ucast (\<lambda>_. []) (\<lambda>_. []) sample_arrivals)) 2 8 c"
proof -
  have h: "1 = owner (server_loop sample_arrivals)" "retryable EAGAIN"
    "\<forall>(f, p) \<in> set [(7, SockIn 1 9), (8, SockIn 2 9)]. 0 \<le> f \<and> events (server_loop sample_arrivals) f = None"
    "distinct (map fst [(7 :: int, SockIn 1 9), (8, SockIn 2 9)])"
    by (simp_all add: sample_arrivals retryable_def)
  from server_serves_clients [OF sample_ctl_laws sample_arrivals(1) h(1) sample_arrivals(4) h(2-4),
      of sample_lib 0 0 0 "(9, 9)" ucast "\<lambda>_. []" "\<lambda>_. []"]
  show ?thesis by (auto simp: sample_arrivals(5) numeral_2_eq_2 dest!: spec [of _ "Suc 0"])
qed


end
