(* ===== verification/DnsService.thy ===== *)
theory DnsService
  imports SocketOpt
begin

text \<open>
  The name service of \<open>src/network/DnsService.h\<close> and \<open>DndService.cpp\<close>: a table from host
  names to addresses and the rounds of the worker thread that refreshes it. Every operation
  holds the mutex, so operations are state transformers; a round holds it for each of them only, so
  other threads may add hosts while a query is under way. What \<open>getaddrinfo\<close> answers to each query
  of a round is a parameter, and so are the order in which the hash table is walked through and the hosts added by others.
  Times slept are added up. Nobody changes the parameters during a round: the source does not synchronise that.
\<close>

subsection \<open>State\<close>

text \<open>An entry of the result list of \<open>getaddrinfo\<close>.\<close>

datatype addrinfo = Internet sockaddr | Other_family

record dns_service =
  host_infos :: "string \<Rightarrow> inet_address list option"
  interval :: int
  sleep_ms :: int
  retry :: int
  running_flag :: bool
  queries :: nat
  slept :: int

definition new_DnsService :: dns_service where
  "new_DnsService = \<lparr>host_infos = Map.empty, interval = 5000, sleep_ms = 1000, retry = 3,
     running_flag = False, queries = 0, slept = 0\<rparr>"

subsection \<open>The table\<close>

definition addHost :: "dns_service \<Rightarrow> string \<Rightarrow> dns_service" where
  "addHost d host =
     (case host_infos d host of
        None \<Rightarrow> d\<lparr>host_infos := (host_infos d)(host \<mapsto> [])\<rparr>
      | Some _ \<Rightarrow> d)"

text \<open>The index is converted to \<open>size_t\<close> before the remainder is taken; \<open>None\<close> is the null pointer.\<close>

definition getHostAddress :: "dns_service \<Rightarrow> string \<Rightarrow> int \<Rightarrow> inet_address option" where
  "getHostAddress d host index =
     (case host_infos d host of
        None \<Rightarrow> None
      | Some addrs \<Rightarrow>
          if length addrs > 0
          then Some (addrs ! (unat (word_of_int index :: u64) mod length addrs))
          else None)"

definition getHostAddresses :: "dns_service \<Rightarrow> string \<Rightarrow> inet_address list" where
  "getHostAddresses d host =
     (case host_infos d host of None \<Rightarrow> [] | Some addrs \<Rightarrow> addrs)"

text \<open>The caller's vector is swapped with the one in the table.\<close>

definition updateHostAddress ::
    "dns_service \<Rightarrow> string \<Rightarrow> inet_address list \<Rightarrow> inet_address list \<times> dns_service" where
  "updateHostAddress d host addrs =
     (getHostAddresses d host, d\<lparr>host_infos := (host_infos d)(host \<mapsto> addrs)\<rparr>)"

definition getHostInfos :: "dns_service \<Rightarrow> string \<Rightarrow> inet_address list option" where
  "getHostInfos d = host_infos d"

definition setDnsServiceParams :: "dns_service \<Rightarrow> int \<Rightarrow> int \<Rightarrow> int \<Rightarrow> dns_service" where
  "setDnsServiceParams d i s r = d\<lparr>interval := i, sleep_ms := s, retry := r\<rparr>"

text \<open>Whether a thread is started or joined is the second component.\<close>

definition dns_start :: "dns_service \<Rightarrow> dns_service \<times> bool" where
  "dns_start d = (if running_flag d then (d, False) else (d\<lparr>running_flag := True\<rparr>, True))"

definition dns_stop :: "dns_service \<Rightarrow> dns_service \<times> bool" where
  "dns_stop d = (if \<not> running_flag d then (d, False) else (d\<lparr>running_flag := False\<rparr>, True))"

subsection \<open>Refreshing\<close>

text \<open>
  \<open>None\<close>: \<open>getaddrinfo\<close> failed. An entry of another family gives an empty address.
\<close>

definition getHostInfo :: "inet_lib \<Rightarrow> addrinfo list option \<Rightarrow> inet_address list" where
  "getHostInfo lib result =
     (case result of
        None \<Rightarrow> []
      | Some ps \<Rightarrow> map (\<lambda>p. case p of
            Internet s \<Rightarrow> fill_address lib s default_InetAddress
          | Other_family \<Rightarrow> default_InetAddress) ps)"

text \<open>
  The inner loop of a round, for one host: \<open>k\<close> is what is left of \<open>retry\<close>, \<open>res host i\<close> the answer to the
  i-th query for the host in this round, and \<open>others host i\<close> the hosts that other threads add during that query.
\<close>

fun try_host ::
    "inet_lib \<Rightarrow> (string \<Rightarrow> nat \<Rightarrow> addrinfo list option) \<Rightarrow> (string \<Rightarrow> nat \<Rightarrow> string list) \<Rightarrow> string
       \<Rightarrow> nat \<Rightarrow> nat \<Rightarrow> dns_service \<Rightarrow> dns_service" where
  "try_host lib res others host i 0 d = d"
| "try_host lib res others host i (Suc k) d =
     (let addrs = getHostInfo lib (res host i);
          d1 = foldl addHost (d\<lparr>queries := Suc (queries d)\<rparr>) (others host i)
      in if length addrs > 0 then snd (updateHostAddress d1 host addrs)
         else try_host lib res others host (Suc i) k (d1\<lparr>slept := slept d1 + sleep_ms d1\<rparr>))"

text \<open>
  A round visits the hosts that the copy of the table made at its beginning holds; \<open>order\<close> is the order of
  the hash table.
\<close>

definition dns_round ::
    "inet_lib \<Rightarrow> (string \<Rightarrow> nat \<Rightarrow> addrinfo list option) \<Rightarrow> (string \<Rightarrow> nat \<Rightarrow> string list) \<Rightarrow> string list
       \<Rightarrow> dns_service \<Rightarrow> dns_service" where
  "dns_round lib res others order d =
     (let hosts = filter (\<lambda>h. getHostInfos d h \<noteq> None) order;
          d1 = foldl (\<lambda>d host. try_host lib res others host 0 (nat (retry d)) d) d hosts
      in d1\<lparr>slept := slept d1 + interval d1\<rparr>)"

text \<open>
  \<open>onWorker\<close>: rounds while \<open>running_\<close>; while the thread sleeps between two rounds the service may be changed by
  others, here by \<open>f\<close>.
\<close>

fun onWorker ::
    "inet_lib \<Rightarrow> ((string \<Rightarrow> nat \<Rightarrow> addrinfo list option) \<times> (string \<Rightarrow> nat \<Rightarrow> string list) \<times> string list
       \<times> (dns_service \<Rightarrow> dns_service)) list \<Rightarrow> dns_service \<Rightarrow> dns_service" where
  "onWorker lib [] d = d"
| "onWorker lib ((res, others, order, f) # rounds) d =
     (if running_flag d then onWorker lib rounds (f (dns_round lib res others order d)) else d)"

subsection \<open>Lemmas\<close>

text \<open>What the queries \<open>i, ..., i + k - 1\<close> for a host answer.\<close>

definition dns_answers ::
    "inet_lib \<Rightarrow> (string \<Rightarrow> nat \<Rightarrow> addrinfo list option) \<Rightarrow> string \<Rightarrow> nat \<Rightarrow> nat \<Rightarrow> inet_address list list" where
  "dns_answers lib res host i k = map (\<lambda>j. getHostInfo lib (res host j)) [i..<i + k]"

lemma dns_answers_Suc:
  "dns_answers lib res host i (Suc k) = getHostInfo lib (res host i) # dns_answers lib res host (Suc i) k"
  by (simp add: dns_answers_def upt_conv_Cons del: upt_Suc)

definition refreshed :: "inet_address list list \<Rightarrow> inet_address list option \<Rightarrow> inet_address list option" where
  "refreshed answers old = (case find (\<lambda>a. a \<noteq> []) answers of None \<Rightarrow> old | Some a \<Rightarrow> Some a)"

text \<open>The queries that fail before one succeeds, and the queries made.\<close>

definition failures :: "inet_address list list \<Rightarrow> nat" where
  "failures answers = length (takeWhile (\<lambda>a. a = []) answers)"

definition tries :: "inet_address list list \<Rightarrow> nat" where
  "tries answers = min (length answers) (Suc (failures answers))"

lemma failures_simps [simp]: "failures [] = 0" "failures (a # as) = (if a = [] then Suc (failures as) else 0)"
  by (simp_all add: failures_def)

lemma tries_simps [simp]: "tries [] = 0" "tries (a # as) = (if a = [] then Suc (tries as) else 1)"
  by (simp_all add: tries_def)

lemma refreshed_simps [simp]:
  "refreshed [] old = old" "refreshed (a # as) old = (if a = [] then refreshed as old else Some a)"
  by (simp_all add: refreshed_def)

lemma refreshed_some: "refreshed as (Some x) \<noteq> None"
  by (induction as) simp_all

text \<open>A table with the hosts of a set added.\<close>

definition with_hosts ::
    "(string \<Rightarrow> inet_address list option) \<Rightarrow> string set \<Rightarrow> string \<Rightarrow> inet_address list option" where
  "with_hosts m A h = (if m h = None \<and> h \<in> A then Some [] else m h)"

lemma with_hosts_simps [simp]:
  "with_hosts m {} = m" "with_hosts (with_hosts m A) B = with_hosts m (A \<union> B)"
  by (auto simp: with_hosts_def fun_eq_iff)

lemma addHost_fields:
  "host_infos (addHost d h) = with_hosts (host_infos d) {h}" "retry (addHost d h) = retry d"
  "interval (addHost d h) = interval d" "sleep_ms (addHost d h) = sleep_ms d" "queries (addHost d h) = queries d"
  "slept (addHost d h) = slept d" "running_flag (addHost d h) = running_flag d"
  by (auto simp: addHost_def with_hosts_def fun_eq_iff split: option.splits)

lemma addHosts_fields [simp]:
  "host_infos (foldl addHost d hs) = with_hosts (host_infos d) (set hs)" "retry (foldl addHost d hs) = retry d"
  "interval (foldl addHost d hs) = interval d" "sleep_ms (foldl addHost d hs) = sleep_ms d"
  "queries (foldl addHost d hs) = queries d" "slept (foldl addHost d hs) = slept d"
  "running_flag (foldl addHost d hs) = running_flag d"
  by (induction hs arbitrary: d) (simp_all add: addHost_fields)

text \<open>What other threads add while the host is asked for.\<close>

definition added_during ::
    "(string \<Rightarrow> nat \<Rightarrow> string list) \<Rightarrow> string \<Rightarrow> nat \<Rightarrow> nat \<Rightarrow> string set" where
  "added_during others h i n = (\<Union>j \<in> {i..<i + n}. set (others h j))"

lemma added_during_Suc: "added_during others h i (Suc n) = set (others h i) \<union> added_during others h (Suc i) n"
proof -
  have "{i..<i + Suc n} = insert i {Suc i..<Suc i + n}" by auto
  then show ?thesis by (simp add: added_during_def)
qed

lemma try_host_ok:
  fixes d :: dns_service and lib :: inet_lib and res :: "string \<Rightarrow> nat \<Rightarrow> addrinfo list option"
    and others :: "string \<Rightarrow> nat \<Rightarrow> string list" and i k :: nat
  assumes "host_infos d host \<noteq> None"
  defines "d' \<equiv> try_host lib res others host i k d" and "as \<equiv> dns_answers lib res host i k"
  shows "host_infos d' = (with_hosts (host_infos d) (added_during others host i (tries as)))
      (host := refreshed as (host_infos d host))"
    and "retry d' = retry d" and "interval d' = interval d" and "sleep_ms d' = sleep_ms d"
    and "running_flag d' = running_flag d"
    and "queries d' = queries d + tries as" and "slept d' = slept d + int (failures as) * sleep_ms d"
proof -
  have "host_infos d' = (with_hosts (host_infos d) (added_during others host i (tries as)))
      (host := refreshed as (host_infos d host))
    \<and> retry d' = retry d \<and> interval d' = interval d \<and> sleep_ms d' = sleep_ms d \<and> running_flag d' = running_flag d
    \<and> queries d' = queries d + tries as \<and> slept d' = slept d + int (failures as) * sleep_ms d"
    using assms(1) unfolding d'_def as_def
  proof (induction k arbitrary: i d)
    case 0
    then show ?case by (simp add: dns_answers_def added_during_def)
  next
    case (Suc k)
    let ?d1 = "foldl addHost (d\<lparr>queries := Suc (queries d)\<rparr>) (others host i)"
    have old: "with_hosts (host_infos d) A host = host_infos d host" for A
      using Suc.prems by (auto simp: with_hosts_def)
    show ?case
    proof (cases "getHostInfo lib (res host i) = []")
      case True
      then show ?thesis
        using Suc.IH [of "?d1\<lparr>slept := slept ?d1 + sleep_ms ?d1\<rparr>" "Suc i"] Suc.prems old
        by (simp add: dns_answers_Suc added_during_Suc algebra_simps)
    next
      case False
      have "added_during others host i (Suc 0) = set (others host i)" by (simp add: added_during_def)
      with False show ?thesis by (simp add: dns_answers_Suc updateHostAddress_def old)
    qed
  qed
  then show "host_infos d' = (with_hosts (host_infos d) (added_during others host i (tries as)))
      (host := refreshed as (host_infos d host))"
    and "retry d' = retry d" and "interval d' = interval d" and "sleep_ms d' = sleep_ms d"
    and "running_flag d' = running_flag d"
    and "queries d' = queries d + tries as" and "slept d' = slept d + int (failures as) * sleep_ms d" by simp_all
qed

lemma with_hosts_step:
  fixes U :: "string set" and as :: "string \<Rightarrow> inet_address list list"
  assumes "\<forall>g \<in> S. m g \<noteq> None" and "h \<notin> S" and "m h \<noteq> None"
  defines "T \<equiv> \<lambda>g. if g \<in> S then refreshed (as g) (m g) else with_hosts m U g"
  shows "(with_hosts T B)(h := refreshed (as h) (T h))
     = (\<lambda>g. if g \<in> insert h S then refreshed (as g) (m g) else with_hosts m (B \<union> U) g)"
proof
  fix g
  have "T h = m h" using assms(2,3) by (simp add: T_def with_hosts_def)
  moreover have "T g \<noteq> None" if g: "g \<in> S"
  proof (cases "m g")
    case None
    then show ?thesis using assms(1) g by blast
  next
    case (Some x)
    then show ?thesis using g refreshed_some by (simp add: T_def)
  qed
  ultimately show "((with_hosts T B)(h := refreshed (as h) (T h))) g
     = (if g \<in> insert h S then refreshed (as g) (m g) else with_hosts m (B \<union> U) g)"
    by (cases "g \<in> S") (auto simp: with_hosts_def T_def)
qed

text \<open>All hosts of a round, one after the other.\<close>

lemma refresh_all:
  fixes d :: dns_service and lib :: inet_lib and res :: "string \<Rightarrow> nat \<Rightarrow> addrinfo list option"
    and others :: "string \<Rightarrow> nat \<Rightarrow> string list"
  assumes "distinct hosts" and "\<forall>h \<in> set hosts. host_infos d h \<noteq> None"
  defines "d' \<equiv> foldl (\<lambda>d host. try_host lib res others host 0 (nat (retry d)) d) d hosts"
    and "answers h \<equiv> dns_answers lib res h 0 (nat (retry d))"
  shows "host_infos d' = (\<lambda>h. if h \<in> set hosts then refreshed (answers h) (host_infos d h)
        else with_hosts (host_infos d) (\<Union>g \<in> set hosts. added_during others g 0 (tries (answers g))) h)
    \<and> retry d' = retry d \<and> interval d' = interval d \<and> sleep_ms d' = sleep_ms d \<and> running_flag d' = running_flag d
    \<and> queries d' = queries d + (\<Sum>h \<in> set hosts. tries (answers h))
    \<and> slept d' = slept d + (\<Sum>h \<in> set hosts. int (failures (answers h)) * sleep_ms d)"
  using assms(1,2) unfolding d'_def answers_def
proof (induction hosts rule: rev_induct)
  case Nil
  then show ?case by simp
next
  case (snoc h hosts)
  define d1 where "d1 = foldl (\<lambda>d host. try_host lib res others host 0 (nat (retry d)) d) d hosts"
  have p: "distinct hosts" "h \<notin> set hosts" "host_infos d h \<noteq> None" "\<forall>g \<in> set hosts. host_infos d g \<noteq> None"
    using snoc.prems by simp_all
  note ih = snoc.IH [OF p(1,4), folded d1_def]
  have "host_infos d1 h = host_infos d h" using ih p(2,3) by (simp add: with_hosts_def)
  with p(3) have "host_infos d1 h \<noteq> None" by simp
  note t = try_host_ok [OF this, of lib res others 0 "nat (retry d)"]
  have f: "foldl (\<lambda>d host. try_host lib res others host 0 (nat (retry d)) d) d (hosts @ [h])
      = try_host lib res others h 0 (nat (retry d)) d1"
    using ih by (simp add: d1_def [symmetric])
  let ?as = "\<lambda>g. dns_answers lib res g 0 (nat (retry d))"
  let ?U = "\<Union>g \<in> set hosts. added_during others g 0 (tries (?as g))"
  let ?T = "\<lambda>g. if g \<in> set hosts then refreshed (?as g) (host_infos d g) else with_hosts (host_infos d) ?U g"
  have T: "host_infos d1 = ?T" using ih by blast
  have n: "queries d1 = queries d + (\<Sum>g \<in> set hosts. tries (?as g))" "retry d1 = retry d" "interval d1 = interval d"
      "sleep_ms d1 = sleep_ms d" "running_flag d1 = running_flag d"
      "slept d1 = slept d + (\<Sum>g \<in> set hosts. int (failures (?as g)) * sleep_ms d)"
    using ih by simp_all
  have s: "set (hosts @ [h]) = insert h (set hosts)" by simp
  have "host_infos (try_host lib res others h 0 (nat (retry d)) d1)
      = (\<lambda>g. if g \<in> insert h (set hosts) then refreshed (?as g) (host_infos d g)
          else with_hosts (host_infos d) (added_during others h 0 (tries (?as h)) \<union> ?U) g)"
    unfolding t(1) T by (rule with_hosts_step [OF p(4,2,3)])
  then show ?case
    unfolding f s t(2-) n UN_insert using p(2) by (simp del: fun_upd_apply)
qed

subsection \<open>Properties\<close>

text \<open>
  C35. A refresh round asks for each host that the table holds at its beginning, up to \<open>retry\<close> times and until
  an answer is not empty, sleeping after each failed query; this answer replaces the host's addresses, and a host whose queries
  all failed keeps what it had. A host that was not in the table is there afterwards if another thread
  added it meanwhile, without addresses, and is not asked for in this round.
\<close>

theorem dns_round_refreshes:
  fixes d :: dns_service and lib :: inet_lib and res :: "string \<Rightarrow> nat \<Rightarrow> addrinfo list option"
    and others :: "string \<Rightarrow> nat \<Rightarrow> string list"
  assumes "distinct order" and "dom (host_infos d) \<subseteq> set order"
  defines "d' \<equiv> dns_round lib res others order d" and "answers h \<equiv> dns_answers lib res h 0 (nat (retry d))"
  shows "(\<forall>h. host_infos d' h =
        (if h \<in> dom (host_infos d) then refreshed (answers h) (host_infos d h)
         else if h \<in> (\<Union>g \<in> dom (host_infos d). added_during others g 0 (tries (answers g))) then Some [] else None))
     \<and> queries d' = queries d + (\<Sum>g \<in> dom (host_infos d). tries (answers g))
     \<and> slept d' = slept d + (\<Sum>g \<in> dom (host_infos d). int (failures (answers g)) * sleep_ms d) + interval d"
proof -
  let ?hosts = "filter (\<lambda>h. host_infos d h \<noteq> None) order"
  have hosts: "set ?hosts = dom (host_infos d)" "distinct ?hosts" using assms(1,2) by auto
  then have "\<forall>h \<in> set ?hosts. host_infos d h \<noteq> None" by auto
  note r = refresh_all [OF hosts(2) this, of lib res others, unfolded hosts(1), folded answers_def]
  then show ?thesis by (auto simp: d'_def dns_round_def getHostInfos_def Let_def with_hosts_def)
qed

text \<open>A resolver that knows one host, and answers only to the second query for it; a host is added meanwhile.\<close>

definition sample_resolver :: "string \<Rightarrow> nat \<Rightarrow> addrinfo list option" where
  "sample_resolver h i = (if i = 1 \<and> h = ''a'' then Some [Internet (SockIn 7 53)] else None)"

definition sample_others :: "string \<Rightarrow> nat \<Rightarrow> string list" where
  "sample_others h i = (if i = 0 then [''c''] else [])"

theorem dns_round_refreshes_witness:
  "let d = addHost (addHost new_DnsService ''a'') ''b''; d' = dns_round sample_lib sample_resolver sample_others [''b'', ''c'', ''a''] d
   in host_infos d' ''a'' = Some [fill_address sample_lib (SockIn 7 53) default_InetAddress] \<and> host_infos d' ''b'' = Some []
     \<and> host_infos d' ''c'' = Some [] \<and> queries d' = 5 \<and> slept d' = 9000"
proof -
  let ?d = "addHost (addHost new_DnsService ''a'') ''b''"
  have d: "host_infos ?d = [''a'' \<mapsto> [], ''b'' \<mapsto> []]" "retry ?d = 3" "sleep_ms ?d = 1000" "interval ?d = 5000"
      "queries ?d = 0" "slept ?d = 0"
    by (simp_all add: addHost_def new_DnsService_def)
  then have o: "distinct [''b'', ''c'', ''a'']" "dom (host_infos ?d) \<subseteq> set [''b'', ''c'', ''a'']"
    and dom: "dom (host_infos ?d) = {''a'', ''b''}" by auto
  have a: "dns_answers sample_lib sample_resolver ''a'' 0 3
        = [[], [fill_address sample_lib (SockIn 7 53) default_InetAddress], []]"
      "dns_answers sample_lib sample_resolver ''b'' 0 3 = [[], [], []]"
    by (simp_all add: dns_answers_def sample_resolver_def getHostInfo_def upt_rec)
  note r = dns_round_refreshes [OF o, where lib = sample_lib and res = sample_resolver and others = sample_others]
  show ?thesis
    using r by (simp add: d dom a added_during_def sample_others_def Let_def)
qed

text \<open>A host with at least one address.\<close>

definition known :: "dns_service \<Rightarrow> string \<Rightarrow> bool" where
  "known d h \<longleftrightarrow> (\<exists>a. host_infos d h = Some a \<and> a \<noteq> [])"

lemma known_round:
  assumes "known d h" and "distinct order"
  shows "known (dns_round lib res others order d) h"
proof -
  let ?hosts = "filter (\<lambda>h. host_infos d h \<noteq> None) order"
  have r: "refreshed as (Some a) \<noteq> Some []" if "a \<noteq> []" for as a using that by (induction as) auto
  have "distinct ?hosts" "\<forall>h \<in> set ?hosts. host_infos d h \<noteq> None" using assms(2) by auto
  from refresh_all [OF this, of lib res others] show ?thesis
    using assms(1) r refreshed_some by (fastforce simp: known_def dns_round_def getHostInfos_def Let_def with_hosts_def)
qed

lemma known_addHost: "known d h \<Longrightarrow> known (addHost d a) h"
  by (auto simp: known_def addHost_def split: option.splits)

lemma known_addHosts: "known d h \<Longrightarrow> known (foldl addHost d hs) h"
  by (induction hs arbitrary: d) (simp_all add: known_addHost)

lemma known_address: "known d h \<Longrightarrow> getHostAddress d h i \<noteq> None"
  by (auto simp: known_def getHostAddress_def)

text \<open>
  An address that is known stays known: through any run of the worker in which the other
  threads only add hosts, a host that has addresses keeps having some, so \<open>getHostAddress\<close>
  never goes back to null, whatever the resolver answers.
\<close>

lemma dns_never_forgets:
  assumes "known d h" and "\<forall>(res, others, order, new) \<in> set rounds. distinct order"
  shows "getHostAddress (onWorker lib
           (map (\<lambda>(res, others, order, new). (res, others, order, \<lambda>d. foldl addHost d new)) rounds) d) h i \<noteq> None"
proof -
  have "known (onWorker lib
      (map (\<lambda>(res, others, order, new). (res, others, order, \<lambda>d. foldl addHost d new)) rounds) d) h"
    using assms
  proof (induction rounds arbitrary: d)
    case Nil
    then show ?case by simp
  next
    case (Cons r rounds)
    obtain res others order new where r: "r = (res, others, order, new)" by (cases r)
    have "known (foldl addHost (dns_round lib res others order d) new) h"
      using Cons.prems r by (intro known_addHosts known_round) auto
    with Cons r show ?case by simp
  qed
  then show ?thesis by (rule known_address)
qed

lemma dns_never_forgets_witness:
  "getHostAddress (onWorker sample_lib [(\<lambda>h i. None, \<lambda>h i. [], [''a''], \<lambda>d. foldl addHost d [''b''])]
     (new_DnsService\<lparr>host_infos := [''a'' \<mapsto> [default_InetAddress]], running_flag := True\<rparr>)) ''a'' 4 \<noteq> None"
  using dns_never_forgets [of "new_DnsService\<lparr>host_infos := [''a'' \<mapsto> [default_InetAddress]],
      running_flag := True\<rparr>" "''a''" "[(\<lambda>h i. None, \<lambda>h i. [], [''a''], [''b''])]" sample_lib 4]
  by (simp add: known_def)

text \<open>
  \<open>getHostAddress\<close> never reads outside the list, for any \<open>int\<close> index, negative ones
  included; indices from 0 on go round the list in turn.
\<close>

lemma host_address_in_range:
  assumes "host_infos d h = Some addrs" and "addrs \<noteq> []"
  shows "(\<exists>j < length addrs. getHostAddress d h i = Some (addrs ! j))
     \<and> (0 \<le> i \<and> i < 2 ^ 31 \<longrightarrow> getHostAddress d h i = Some (addrs ! (nat i mod length addrs)))"
proof -
  have "unat (word_of_int i :: u64) = nat i" if "0 \<le> i" "i < 2 ^ 31"
  proof -
    have "i < 2 ^ 64" using that(2) by simp
    with that(1) show ?thesis
      by (simp add: unat_eq_nat_uint uint_word_of_int take_bit_int_eq_self)
  qed
  moreover have "\<exists>j < length addrs. addrs ! (unat (word_of_int i :: u64) mod length addrs) = addrs ! j"
    using assms(2) by (intro exI [of _ "unat (word_of_int i :: u64) mod length addrs"]) simp
  ultimately show ?thesis using assms by (auto simp: getHostAddress_def)
qed

lemma host_address_in_range_witness:
  "getHostAddress (new_DnsService\<lparr>host_infos := [''a'' \<mapsto> [default_InetAddress]]\<rparr>) ''a'' 5
     = Some default_InetAddress"
  using host_address_in_range [of "new_DnsService\<lparr>host_infos := [''a'' \<mapsto> [default_InetAddress]]\<rparr>"
      "''a''" "[default_InetAddress]" 5]
  by simp

end
