(* ===== verification/Packet.thy ===== *)
theory Packet
  imports Prelude
begin

unbundle bit_operations_syntax

text \<open>
  Media packets of \<open>src/mmedia/base/Packet.h\<close> and \<open>Packet.cpp\<close>: a packed header followed by
  the data, in one block of memory. Sizes and flags keep their width; the extension is a
  pointer, named by a number.
\<close>

subsection \<open>Packets\<close>

definition kPacketTypeVideo :: u32 where "kPacketTypeVideo = 1"
definition kPacketTypeAudio :: u32 where "kPacketTypeAudio = 2"
definition kPacketTypeMeta :: u32 where "kPacketTypeMeta = 4"
definition kPacketTypeMeta3 :: u32 where "kPacketTypeMeta3 = 8"
definition kPacketTypeKeyFrame :: u32 where "kPacketTypeKeyFrame = 16"
definition kPacketTypeIDR :: u32 where "kPacketTypeIDR = 32"
definition kPacketTypeUnknown :: u32 where "kPacketTypeUnknown = 255"

lemmas packet_consts = kPacketTypeVideo_def kPacketTypeAudio_def kPacketTypeMeta_def
  kPacketTypeMeta3_def kPacketTypeKeyFrame_def kPacketTypeIDR_def kPacketTypeUnknown_def

record packet =
  p_type :: u32
  p_size :: u32
  p_index :: u32
  p_timestamp :: u64
  p_capacity :: u32
  p_ext :: "nat option"
  p_data :: bytes

text \<open>The members without padding, the shared pointer taking 16 bytes.\<close>

definition sizeof_Packet :: nat where "sizeof_Packet = 4 + 4 + 4 + 8 + 4 + 16"

text \<open>
  The argument, an \<open>int32_t\<close>, is converted to \<open>size_t\<close> when the header's size is added. A block
  smaller than the header is overrun by \<open>memset\<close> and the assignments, and \<open>malloc\<close> cannot
  give a huge one (more than \<open>avail\<close> bytes): both are \<open>None\<close>.
\<close>

definition newPacket :: "nat \<Rightarrow> int \<Rightarrow> packet option" where
  "newPacket avail n =
     (let block_size = (word_of_int (n + int sizeof_Packet) :: u64)
      in if unat block_size < sizeof_Packet \<or> avail < unat block_size then None
         else Some \<lparr>p_type = kPacketTypeUnknown, p_size = 0, p_index = -1, p_timestamp = 0,
           p_capacity = word_of_int n, p_ext = None,
           p_data = replicate (unat block_size - sizeof_Packet) 0\<rparr>)"

definition isVideo :: "packet \<Rightarrow> bool" where
  "isVideo p \<longleftrightarrow> p_type p AND kPacketTypeVideo \<noteq> 0"

definition isAudio :: "packet \<Rightarrow> bool" where
  "isAudio p \<longleftrightarrow> p_type p = kPacketTypeAudio"

definition isMeta :: "packet \<Rightarrow> bool" where
  "isMeta p \<longleftrightarrow> p_type p = kPacketTypeMeta"

definition isMeta3 :: "packet \<Rightarrow> bool" where
  "isMeta3 p \<longleftrightarrow> p_type p = kPacketTypeMeta3"

definition isKeyFrame :: "packet \<Rightarrow> bool" where
  "isKeyFrame p \<longleftrightarrow> p_type p AND kPacketTypeKeyFrame \<noteq> 0 \<and> p_type p AND kPacketTypeVideo \<noteq> 0"

definition isIDR :: "packet \<Rightarrow> bool" where
  "isIDR p \<longleftrightarrow> p_type p AND kPacketTypeIDR \<noteq> 0 \<and> p_type p AND kPacketTypeKeyFrame \<noteq> 0"

definition packetSize :: "packet \<Rightarrow> int" where
  "packetSize p = sint (ucast (ucast (p_size p) + of_nat sizeof_Packet :: u64) :: u32)"

definition packet_space :: "packet \<Rightarrow> int" where
  "packet_space p = sint (p_capacity p - p_size p)"

definition setPacketSize :: "packet \<Rightarrow> u32 \<Rightarrow> packet" where
  "setPacketSize p len = p\<lparr>p_size := len\<rparr>"

definition updatePacketSize :: "packet \<Rightarrow> u32 \<Rightarrow> packet" where
  "updatePacketSize p len = p\<lparr>p_size := p_size p + len\<rparr>"

definition setSize :: "packet \<Rightarrow> u32 \<Rightarrow> packet" where
  "setSize p s = p\<lparr>p_size := s\<rparr>"

definition setType :: "packet \<Rightarrow> u32 \<Rightarrow> packet" where
  "setType p t = p\<lparr>p_type := t\<rparr>"

definition setIndex :: "packet \<Rightarrow> u32 \<Rightarrow> packet" where
  "setIndex p i = p\<lparr>p_index := i\<rparr>"

definition setTimestamp :: "packet \<Rightarrow> u64 \<Rightarrow> packet" where
  "setTimestamp p t = p\<lparr>p_timestamp := t\<rparr>"

definition setCapacity :: "packet \<Rightarrow> u32 \<Rightarrow> packet" where
  "setCapacity p c = p\<lparr>p_capacity := c\<rparr>"

definition setExt :: "packet \<Rightarrow> nat option \<Rightarrow> packet" where
  "setExt p e = p\<lparr>p_ext := e\<rparr>"

subsection \<open>Lemmas\<close>

lemma unat_word_of_int_u64: "unat (word_of_int k :: u64) = nat (k mod 2 ^ 64)"
  by (simp add: unat_eq_nat_uint uint_word_of_int)

text \<open>A negative size gives a block too small for the header or too large for any memory.\<close>

lemma block_size:
  assumes "- (2 ^ 31) \<le> n" and "n < 2 ^ 31"
  defines "b \<equiv> unat (word_of_int (n + int sizeof_Packet) :: u64)"
  shows "0 \<le> n \<Longrightarrow> b = nat n + sizeof_Packet" and "n < 0 \<Longrightarrow> b < sizeof_Packet \<or> 2 ^ 63 \<le> b"
proof -
  show "b = nat n + sizeof_Packet" if "0 \<le> n"
    using that assms(2) unfolding b_def unat_word_of_int_u64 by (simp add: sizeof_Packet_def)
  show "b < sizeof_Packet \<or> 2 ^ 63 \<le> b" if "n < 0"
  proof (cases "0 \<le> n + int sizeof_Packet")
    case True
    with that show ?thesis unfolding b_def unat_word_of_int_u64
      by (simp add: sizeof_Packet_def nat_less_iff)
  next
    case False
    then have "(n + int sizeof_Packet + 2 ^ 64) mod 2 ^ 64 = n + int sizeof_Packet + 2 ^ 64"
      using assms(1) by (intro mod_pos_pos_trivial) (simp_all add: sizeof_Packet_def)
    then have "(n + int sizeof_Packet) mod 2 ^ 64 = n + int sizeof_Packet + 2 ^ 64" by simp
    then show ?thesis using assms(1) unfolding b_def unat_word_of_int_u64
      by (simp add: sizeof_Packet_def le_nat_iff)
  qed
qed

lemma newPacket_sizes_aux:
  assumes "0 \<le> n" and "n < 2 ^ 31" and "nat n + sizeof_Packet \<le> avail"
  shows "\<exists>p. newPacket avail n = Some p"
  using block_size(1) [of n] assms unfolding newPacket_def Let_def by simp

subsection \<open>Properties\<close>

text \<open>
  C40. A packet can be made exactly for the sizes from 0 to what memory gives: it then has the
  requested number of zero bytes of data and all of it is free; a negative size never gives
  a usable block.
\<close>

theorem newPacket_sizes:
  assumes "- (2 ^ 31) \<le> n" and "n < 2 ^ 31" and "avail < 2 ^ 63"
  shows "case newPacket avail n of
       None \<Rightarrow> n < 0 \<or> avail < nat n + sizeof_Packet
     | Some p \<Rightarrow> 0 \<le> n \<and> nat n + sizeof_Packet \<le> avail \<and> p_data p = replicate (nat n) 0
         \<and> packet_space p = n \<and> packetSize p = int sizeof_Packet"
proof (cases "0 \<le> n")
  case True
  have "sint (word_of_int n :: u32) = n"
    unfolding sint_sbintrunc' using True assms(2) by (simp add: signed_take_bit_int_eq_self)
  with True show ?thesis
    unfolding newPacket_def Let_def block_size(1) [OF assms(1,2) True]
    by (simp add: packet_space_def packetSize_def) (simp add: sizeof_Packet_def)
next
  case False
  then have "unat (word_of_int (n + int sizeof_Packet) :: u64) < sizeof_Packet
      \<or> avail < unat (word_of_int (n + int sizeof_Packet) :: u64)"
    using block_size(2) [OF assms(1,2)] assms(3) by linarith
  with False show ?thesis unfolding newPacket_def Let_def by simp
qed

theorem newPacket_sizes_witness:
  "(case newPacket 100 3 of None \<Rightarrow> False | Some p \<Rightarrow> length (p_data p) = 3 \<and> packet_space p = 3)
   \<and> newPacket 100 (-1) = None"
proof -
  have "case newPacket 100 3 of None \<Rightarrow> False | Some p \<Rightarrow> length (p_data p) = 3 \<and> packet_space p = 3"
    using newPacket_sizes [of 3 100] by (cases "newPacket 100 3") (simp_all add: sizeof_Packet_def)
  moreover have "newPacket 100 (-1) = None"
    using newPacket_sizes [of "-1" 100] by (cases "newPacket 100 (-1)") simp_all
  ultimately show ?thesis by simp
qed

text \<open>
  A new packet has no type, but as the code for that is 255, all bits, it answers yes to
  \<open>isVideo\<close>, \<open>isKeyFrame\<close> and \<open>isIDR\<close>, and no to the tests by equality.
\<close>

lemma untyped_packet_is_video:
  assumes "newPacket avail n = Some p"
  shows "isVideo p \<and> isKeyFrame p \<and> isIDR p \<and> \<not> isAudio p \<and> \<not> isMeta p \<and> \<not> isMeta3 p"
  using assms
  by (auto simp: newPacket_def Let_def isVideo_def isKeyFrame_def isIDR_def isAudio_def isMeta_def
      isMeta3_def packet_consts split: if_splits)

lemma untyped_packet_is_video_witness:
  "\<exists>p. newPacket 100 3 = Some p \<and> isVideo p \<and> isIDR p"
proof -
  obtain p where "newPacket 100 3 = Some p"
    using newPacket_sizes_aux [of 3 100] by (auto simp: sizeof_Packet_def)
  with untyped_packet_is_video [of 100 3 p] show ?thesis by blast
qed

end
