(* ===== verification/Connection.thy ===== *)
theory Connection
  imports EventLoop SocketOpt
begin

text \<open>
  The base class of connections, \<open>src/network/net/Connection.h\<close> and \<open>Connection.cpp\<close>: its
  addresses, its table of contexts and its activation. A context is a pointer, named by a
  number, or null. The active callback is counted.
\<close>

subsection \<open>State\<close>

datatype context_type = kNormalContext | kHttpContext | kRtmpContext | kRtpContext | kFlvContext
  | kUserContext

fun context_code :: "context_type \<Rightarrow> int" where
  "context_code kNormalContext = 0"
| "context_code kHttpContext = 1"
| "context_code kRtmpContext = 3"
| "context_code kRtpContext = 4"
| "context_code kFlvContext = 5"
| "context_code kUserContext = 6"

record connection =
  c_loop :: event_loop
  contexts :: "int \<Rightarrow> nat option option"
  active_flag :: bool
  activations :: nat
  activating :: nat
  local_addr :: inet_address
  peer_addr :: inet_address

text \<open>\<open>activating\<close> counts the closures of \<open>active\<close> that wait in the loop's queue.\<close>

definition new_Connection :: "event_loop \<Rightarrow> inet_address \<Rightarrow> inet_address \<Rightarrow> connection" where
  "new_Connection l loc peer =
     \<lparr>c_loop = l, contexts = Map.empty, active_flag = False, activations = 0, activating = 0,
      local_addr = loc, peer_addr = peer\<rparr>"

definition setPeerAddr :: "connection \<Rightarrow> inet_address \<Rightarrow> connection" where
  "setPeerAddr c a = c\<lparr>peer_addr := a\<rparr>"

definition setLocalAddr :: "connection \<Rightarrow> inet_address \<Rightarrow> connection" where
  "setLocalAddr c a = c\<lparr>local_addr := a\<rparr>"

subsection \<open>Contexts\<close>

definition setContext :: "connection \<Rightarrow> int \<Rightarrow> nat option \<Rightarrow> connection" where
  "setContext c t ctx = c\<lparr>contexts := (contexts c)(t \<mapsto> ctx)\<rparr>"

text \<open>The null pointer both for a type that is not in the table and for a null entry.\<close>

definition getContext :: "connection \<Rightarrow> int \<Rightarrow> nat option" where
  "getContext c t = (case contexts c t of Some ctx \<Rightarrow> ctx | None \<Rightarrow> None)"

text \<open>\<open>operator[]\<close> creates the entry that \<open>reset\<close> then clears.\<close>

definition removeContext :: "connection \<Rightarrow> int \<Rightarrow> connection" where
  "removeContext c t = c\<lparr>contexts := (contexts c)(t \<mapsto> None)\<rparr>"

definition clearContexts :: "connection \<Rightarrow> connection" where
  "clearContexts c = c\<lparr>contexts := Map.empty\<rparr>"

subsection \<open>Activation\<close>

text \<open>The closure that \<open>active\<close> runs in the loop.\<close>

definition do_activate :: "connection \<Rightarrow> connection" where
  "do_activate c = c\<lparr>active_flag := True, activations := Suc (activations c)\<rparr>"

definition active :: "connection \<Rightarrow> nat \<Rightarrow> nat \<times> int \<Rightarrow> connection" where
  "active c t fresh =
     (if \<not> active_flag c then
        if isInLoopThread (c_loop c) t then do_activate c
        else c\<lparr>activating := Suc (activating c),
               c_loop := weakup ((c_loop c)\<lparr>queue := queue (c_loop c) @ [UserTask (activating c)]\<rparr>)
                           (fst fresh) (snd fresh)\<rparr>
      else c)"

text \<open>The loop runs one of the closures.\<close>

definition run_activation :: "connection \<Rightarrow> connection" where
  "run_activation c =
     (if activating c = 0 then c else do_activate (c\<lparr>activating := activating c - 1\<rparr>))"

definition deactive :: "connection \<Rightarrow> connection" where
  "deactive c = c\<lparr>active_flag := False\<rparr>"

subsection \<open>Lemmas\<close>

lemma getContext_simps [simp]:
  "getContext (setContext c t ctx) t' = (if t' = t then ctx else getContext c t')"
  "getContext (removeContext c t) t' = (if t' = t then None else getContext c t')"
  "getContext (clearContexts c) t' = None"
  by (simp_all add: getContext_def setContext_def removeContext_def clearContexts_def)

lemma active_other_thread:
  assumes "\<not> active_flag c" and "t \<noteq> owner (c_loop c)"
  shows "\<not> active_flag (active c t fresh)" "activations (active c t fresh) = activations c"
    "activating (active c t fresh) = Suc (activating c)"
    "owner (c_loop (active c t fresh)) = owner (c_loop c)"
  using assms
  by (auto simp: active_def isInLoopThread_def weakup_def new_Event_def addEvent_def Let_def
      setEvents_def syscall_def split: option.splits)

subsection \<open>Properties\<close>

text \<open>
  Activation is only exclusive inside the loop's thread: there any number of calls of
  \<open>active\<close> runs the callback once; but every call another thread makes before the loop
  gets to run the first closure queues one more, and each runs the callback.
\<close>

lemma active_runs_per_waiting_call:
  assumes "\<not> active_flag c" and "activating c = 0"
  shows "activations (((\<lambda>c. active c (owner (c_loop c)) fresh) ^^ Suc n) c) = Suc (activations c)
     \<and> (t \<noteq> owner (c_loop c) \<longrightarrow>
          activations ((run_activation ^^ n) (((\<lambda>c. active c t fresh) ^^ n) c)) = activations c + n)"
proof
  have "activations (((\<lambda>c. active c (owner (c_loop c)) fresh) ^^ Suc n) c) = Suc (activations c)
      \<and> active_flag (((\<lambda>c. active c (owner (c_loop c)) fresh) ^^ Suc n) c)"
    by (induction n) (use assms in \<open>simp_all add: active_def isInLoopThread_def do_activate_def\<close>)
  then show "activations (((\<lambda>c. active c (owner (c_loop c)) fresh) ^^ Suc n) c) = Suc (activations c)" ..
  show "t \<noteq> owner (c_loop c) \<longrightarrow>
      activations ((run_activation ^^ n) (((\<lambda>c. active c t fresh) ^^ n) c)) = activations c + n"
  proof
    assume t: "t \<noteq> owner (c_loop c)"
    have waiting: "\<not> active_flag (((\<lambda>c. active c t fresh) ^^ n) c)
        \<and> activations (((\<lambda>c. active c t fresh) ^^ n) c) = activations c
        \<and> activating (((\<lambda>c. active c t fresh) ^^ n) c) = n
        \<and> owner (c_loop (((\<lambda>c. active c t fresh) ^^ n) c)) = owner (c_loop c)" for n
      by (induction n) (use assms t active_other_thread in auto)
    have "n \<le> activating c \<Longrightarrow> activations ((run_activation ^^ n) c) = activations c + n
        \<and> activating ((run_activation ^^ n) c) = activating c - n" for c
      by (induction n) (auto simp: run_activation_def do_activate_def)
    with waiting [of n] show "activations ((run_activation ^^ n) (((\<lambda>c. active c t fresh) ^^ n) c))
        = activations c + n" by simp
  qed
qed

definition sample_connection :: connection where
  "sample_connection = new_Connection sample_loop default_InetAddress default_InetAddress"

lemma active_runs_per_waiting_call_witness:
  "activations ((run_activation ^^ 2) (((\<lambda>c. active c 4 (9, 11)) ^^ 2) sample_connection)) = 2"
proof -
  have "\<not> active_flag sample_connection" "activating sample_connection = 0"
    "4 \<noteq> owner (c_loop sample_connection)" "activations sample_connection = 0"
    by (simp_all add: sample_connection_def new_Connection_def sample_loop)
  with active_runs_per_waiting_call [of sample_connection, where n = 2 and t = 4 and fresh = "(9, 11)"] show ?thesis by simp
qed

end
