(* ===== verification/Logger.thy ===== *)
theory Logger
  imports FileLogMgr
begin

text \<open>
  The logger and the log stream: \<open>src/base/Logger.cpp\<close>, \<open>LogStream.cpp\<close> and the time stamps of
  \<open>TTime.cpp\<close>. The clock, already converted to local time, and the thread's number are
  inputs; the file is one of \<open>FileLogMgr\<close>. Without a file the line goes to the standard output.
\<close>

subsection \<open>Levels\<close>

datatype LogLevel = kTrace | kDebug | kInfo | kWarning | kError | kLevelMax

fun level_code :: "LogLevel \<Rightarrow> nat" where
  "level_code kTrace = 0"
| "level_code kDebug = 1"
| "level_code kInfo = 2"
| "level_code kWarning = 3"
| "level_code kError = 4"
| "level_code kLevelMax = 5"

lemma level_code_inject: "level_code a = level_code b \<Longrightarrow> a = b"
  by (cases a; cases b) simp_all

instantiation LogLevel :: linorder
begin

definition less_eq_LogLevel :: "LogLevel \<Rightarrow> LogLevel \<Rightarrow> bool" where
  "less_eq_LogLevel a b = (level_code a \<le> level_code b)"

definition less_LogLevel :: "LogLevel \<Rightarrow> LogLevel \<Rightarrow> bool" where
  "less_LogLevel a b = (level_code a < level_code b)"

instance
  by standard (auto simp: less_eq_LogLevel_def less_LogLevel_def intro: level_code_inject)

end

definition LogLevelStr :: "string list" where
  "LogLevelStr = [''TRACE'', ''DEBUG'', ''INFO'', ''WARNING'', ''ERROR'']"

subsection \<open>Time\<close>

record local_time =
  tm_year :: nat
  tm_mon :: nat
  tm_mday :: nat
  tm_hour :: nat
  tm_min :: nat
  tm_sec :: nat
  tv_usec :: nat

text \<open>Seconds and microseconds of \<open>gettimeofday\<close>.\<close>

definition nowMs :: "nat \<Rightarrow> nat \<Rightarrow> nat" where
  "nowMs tv_sec usec = tv_sec * 1000 + usec div 1000"

definition TTime_now :: "local_time \<Rightarrow> nat \<times> nat \<times> nat \<times> nat \<times> nat \<times> nat" where
  "TTime_now tm = (tm_year tm + 1900, tm_mon tm + 1, tm_mday tm, tm_hour tm, tm_min tm, tm_sec tm)"

definition ISONow :: "local_time \<Rightarrow> string" where
  "ISONow tm =
     to_string (tm_year tm + 1900) @ ''-'' @ pad 2 (tm_mon tm + 1) @ ''-'' @ pad 2 (tm_mday tm) @ '' ''
     @ pad 2 (tm_hour tm) @ '':'' @ pad 2 (tm_min tm) @ '':'' @ pad 2 (tm_sec tm)"

text \<open>The buffer for the milliseconds holds three characters and the terminator.\<close>

definition IOSNowMs :: "local_time \<Rightarrow> string" where
  "IOSNowMs tm = ISONow tm @ ''.'' @ take 3 (pad 3 (tv_usec tm div 1000))"

subsection \<open>Lines\<close>

record log_site =
  site_file :: string
  site_line :: nat
  site_func :: string

definition newline :: char where
  "newline = char_of (10 :: nat)"

text \<open>The constructor of \<open>LogStream\<close>, what is streamed, and the newline of the destructor.\<close>

definition log_header :: "local_time \<Rightarrow> nat \<Rightarrow> LogLevel \<Rightarrow> log_site \<Rightarrow> string" where
  "log_header tm tid lv w =
     IOSNowMs tm @ '' '' @ to_string tid @ '' '' @ LogLevelStr ! level_code lv @ '' ''
     @ ''['' @ getFileName (site_file w) @ '':'' @ to_string (site_line w) @ '']'' @ '' ''
     @ ''['' @ site_func w @ ''] ''"

definition log_line :: "local_time \<Rightarrow> nat \<Rightarrow> LogLevel \<Rightarrow> log_site \<Rightarrow> string \<Rightarrow> string" where
  "log_line tm tid lv w msg = log_header tm tid lv w @ msg @ [newline]"

record logger =
  fileLog :: "file_log option"
  log_level :: LogLevel

definition new_Logger :: "file_log option \<Rightarrow> logger" where
  "new_Logger f = \<lparr>fileLog = f, log_level = kDebug\<rparr>"

definition setLevel :: "logger \<Rightarrow> LogLevel \<Rightarrow> logger" where
  "setLevel l lv = l\<lparr>log_level := lv\<rparr>"

text \<open>The second component is the standard output.\<close>

definition logger_write :: "file_system \<times> string \<Rightarrow> logger \<Rightarrow> string \<Rightarrow> file_system \<times> string" where
  "logger_write s l message =
     (case fileLog l of
        Some f \<Rightarrow> (writeLog (fst s) f message, if log_fd f = None then snd s @ message else snd s)
      | None \<Rightarrow> (fst s, snd s @ message))"

text \<open>
  The macros \<open>LOG_TRACE\<close> to \<open>LOG_ERROR\<close>: nothing without a logger or below its level.
\<close>

definition LOG ::
    "logger option \<Rightarrow> local_time \<Rightarrow> nat \<Rightarrow> LogLevel \<Rightarrow> log_site \<Rightarrow> string
       \<Rightarrow> file_system \<times> string \<Rightarrow> file_system \<times> string" where
  "LOG g tm tid lv w msg s =
     (case g of
        None \<Rightarrow> s
      | Some l \<Rightarrow> if log_level l \<le> lv then logger_write s l (log_line tm tid lv w msg) else s)"

subsection \<open>Properties\<close>

text \<open>
  Logging to a file appends exactly the lines at or above the logger's level, each once and
  in order, and touches nothing else: neither other files nor the standard output.
\<close>

lemma log_lines_in_order:
  assumes "fileLog l = Some f" and "log_fd f = Some i"
  shows "foldl (\<lambda>s (tm, tid, lv, w, msg). LOG (Some l) tm tid lv w msg s) (fs0, out) ms
     = (fs0\<lparr>contents := (contents fs0)(i := contents fs0 i @ concat (map
          (\<lambda>(tm, tid, lv, w, msg). log_line tm tid lv w msg)
          (filter (\<lambda>(tm, tid, lv, w, msg). log_level l \<le> lv) ms)))\<rparr>, out)"
proof (induction ms arbitrary: fs0)
  case Nil
  show ?case by simp
next
  case (Cons m ms)
  obtain tm tid lv w msg where m: "m = (tm, tid, lv, w, msg)" by (cases m)
  show ?case
  proof (cases "log_level l \<le> lv")
    case True
    let ?fs1 = "fs0\<lparr>contents := (contents fs0)(i := contents fs0 i @ log_line tm tid lv w msg)\<rparr>"
    have "LOG (Some l) tm tid lv w msg (fs0, out) = (?fs1, out)"
      using True assms by (simp add: LOG_def logger_write_def writeLog_def sys_append_def)
    with True m show ?thesis by (simp add: Cons.IH [of ?fs1] cong: if_cong)
  next
    case False
    then have "LOG (Some l) tm tid lv w msg (fs0, out) = (fs0, out)" by (simp add: LOG_def)
    with False m show ?thesis by (simp add: Cons.IH [of fs0])
  qed
qed

definition sample_time :: local_time where
  "sample_time = \<lparr>tm_year = 124, tm_mon = 0, tm_mday = 2, tm_hour = 3, tm_min = 4, tm_sec = 5,
     tv_usec = 6000\<rparr>"

definition sample_site :: log_site where
  "sample_site = \<lparr>site_file = ''src/a.cpp'', site_line = 12, site_func = ''main''\<rparr>"

lemma log_lines_in_order_witness:
  "contents (fst (foldl (\<lambda>s (tm, tid, lv, w, msg).
       LOG (Some (new_Logger (Some (new_FileLog\<lparr>log_fd := Some 4\<rparr>)))) tm tid lv w msg s)
       (\<lparr>entries = Map.empty, contents = (\<lambda>_. []), next_inode = 5\<rparr>, [])
       [(sample_time, 1, kTrace, sample_site, ''hidden''), (sample_time, 1, kError, sample_site, ''shown'')])) 4
   = log_line sample_time 1 kError sample_site ''shown''"
  using log_lines_in_order [of "new_Logger (Some (new_FileLog\<lparr>log_fd := Some 4\<rparr>))"
      "new_FileLog\<lparr>log_fd := Some 4\<rparr>" 4 "\<lparr>entries = Map.empty, contents = (\<lambda>_. []), next_inode = 5\<rparr>"
      "[]" "[(sample_time, 1, kTrace, sample_site, ''hidden''), (sample_time, 1, kError, sample_site, ''shown'')]"]
  by (simp add: new_Logger_def less_eq_LogLevel_def)

end
