(* ===== verification/RtmpSession.thy ===== *)
theory RtmpSession
  imports TcpServer RtmpHandshake
begin

text \<open>
  The RTMP server of \<open>src/mmedia/tests/RtmpServer.cpp\<close>, the program that puts the handshake of
  \<open>RtmpHandshake.cpp\<close> on connections of a \<open>TcpServer\<close>: the callbacks it installs, and the
  handshake's operations with the calls of \<open>TcpConnection::send\<close> carried out on the real
  connection. The arrays \<open>C1S1_\<close> and \<open>C2S2_\<close> live in the memory that the connection's output queue
  points into. Everything here runs in the loop's thread.
\<close>

subsection \<open>Sessions\<close>

text \<open>
  A connection with the handshake in its context; \<open>c1_at\<close> and \<open>c2_at\<close> are the addresses of the
  two arrays. The field \<open>sent\<close> of the handshake logs the packets given to \<open>send\<close>, its fields
  \<open>alive\<close> and \<open>pending\<close> are not used: the connection says what they stand for.
\<close>

record rtmp_session =
  tcp :: tcp_connection
  hs :: rtmp_handshake
  c1_at :: addr
  c2_at :: addr

definition store :: "(addr \<Rightarrow> byte) \<Rightarrow> addr \<Rightarrow> bytes \<Rightarrow> addr \<Rightarrow> byte" where
  "store m a d = (\<lambda>x. if unat (x - a) < length d then d ! unat (x - a) else m x)"

text \<open>The arrays of a handshake \<open>h\<close> that was computed, put into memory.\<close>

definition put_hs :: "rtmp_session \<Rightarrow> rtmp_handshake \<Rightarrow> rtmp_session" where
  "put_hs s h = s\<lparr>hs := h, tcp := (tcp s)\<lparr>memory :=
     store (store (memory (tcp s)) (c1_at s) (C1S1 h)) (c2_at s) (C2S2 h)\<rparr>\<rparr>"

definition set_state :: "rtmp_session \<Rightarrow> RtmpHandshakeState \<Rightarrow> rtmp_session" where
  "set_state s st = s\<lparr>hs := (hs s)\<lparr>hs_state := st\<rparr>\<rparr>"

subsection \<open>Sending and the write-complete callback\<close>

text \<open>
  The weak pointer to the connection can be locked while anything holds the connection. A \<open>send\<close>
  that is written at once ends with the write-complete callback, which calls \<open>writeComplete\<close>.
\<close>

definition session_rank :: "rtmp_session \<Rightarrow> nat" where
  "session_rank s = server_rank (hs s)"

function session_send :: "rtmp_session \<Rightarrow> addr \<Rightarrow> nat \<Rightarrow> rtmp_session"
  and session_sendC2S2 :: "rtmp_session \<Rightarrow> rtmp_session"
  and session_writeComplete :: "rtmp_session \<Rightarrow> rtmp_session" where
  "session_send s buf len =
     (let c = send (tcp s) (owner (lp (tcp s))) (0, 0) buf (of_nat len);
          s1 = s\<lparr>tcp := c, hs := (hs s)\<lparr>sent := sent (hs s) @ [read_mem (memory (tcp s)) buf len]\<rparr>\<rparr>
      in if completions (tcp s) < completions c then session_writeComplete s1 else s1)"
| "session_sendC2S2 s =
     (if kept_alive (tcp s) then session_send s (c2_at s) kRtmpHandShakePacketSize else s)"
| "session_writeComplete s =
     (if \<not> kept_alive (tcp s) then s
      else case hs_state (hs s) of
        kHandShakePostS0S1 \<Rightarrow> session_sendC2S2 (set_state s kHandShakePostS2)
      | kHandShakePostS2 \<Rightarrow> set_state s kHandShakeWaitC2
      | kHandShakePostC0C1 \<Rightarrow> set_state s kHandShakeWaitS0S1
      | kHandShakePostC2 \<Rightarrow> set_state s kHandShakeDone
      | kHandShakeDoing \<Rightarrow> set_state s kHandShakeDone
      | _ \<Rightarrow> s)"
  by pat_completeness auto
termination
  by (relation "measure (\<lambda>x. case x of
      Inl (s, b, n) \<Rightarrow> 3 * session_rank s + 1
    | Inr (Inl s) \<Rightarrow> 3 * session_rank s + 2
    | Inr (Inr s) \<Rightarrow> 3 * session_rank s)")
    (auto simp: session_rank_def server_rank_def set_state_def)

declare session_send.simps [simp del] session_sendC2S2.simps [simp del]
  session_writeComplete.simps [simp del]

definition session_sendC1S1 :: "rtmp_session \<Rightarrow> rtmp_session" where
  "session_sendC1S1 s =
     (if kept_alive (tcp s) then session_send s (c1_at s) (kRtmpHandShakePacketSize + 1) else s)"

definition session_start :: "world \<Rightarrow> rtmp_session \<Rightarrow> rtmp_session" where
  "session_start w s =
     (let s1 = put_hs s (createC1S1 w (hs s))
      in if is_client (hs s1) then session_sendC1S1 (set_state s1 kHandShakeWaitS0S1)
         else set_state s1 kHandShakeWaitC0C1)"

subsection \<open>Receiving\<close>

text \<open>\<open>RtmpHandShake::handshake\<close> on the connection's own input buffer.\<close>

definition take_input :: "rtmp_session \<Rightarrow> nat \<Rightarrow> rtmp_session option" where
  "take_input s n = do {
     b \<leftarrow> retrieve (message_buffer (tcp s)) n;
     Some (s\<lparr>tcp := (tcp s)\<lparr>message_buffer := b\<rparr>\<rparr>)
   }"

definition session_handshake :: "world \<Rightarrow> rtmp_session \<Rightarrow> (int \<times> rtmp_session) option" where
  "session_handshake w s =
     (let buf = message_buffer (tcp s)
      in if \<not> kept_alive (tcp s) then Some (-1, s)
      else case hs_state (hs s) of
        kHandShakeWaitC0C1 \<Rightarrow>
          if readableBytes buf < kRtmpHandShakePacketSize + 1 then Some (1, s)
          else
            let (offset, h1) = checkC1S1 w (hs s) (peek buf) (kRtmpHandShakePacketSize + 1)
            in if offset \<ge> 0 then do {
                 s1 \<leftarrow> take_input (put_hs s (createC2S2 w h1 (drop 1 (peek buf)))) (kRtmpHandShakePacketSize + 1);
                 Some (0, session_sendC1S1 (set_state s1 kHandShakePostS0S1))
               } else Some (-1, s\<lparr>hs := h1\<rparr>)
      | kHandShakeWaitC2 \<Rightarrow>
          if readableBytes buf < kRtmpHandShakePacketSize then Some (1, s)
          else if checkC2S2 (peek buf) kRtmpHandShakePacketSize then do {
            s1 \<leftarrow> take_input (set_state s kHandShakeDone) kRtmpHandShakePacketSize;
            Some (0, s1)
          } else Some (-1, s)
      | kHandShakeWaitS0S1 \<Rightarrow>
          if readableBytes buf < kRtmpHandShakePacketSize + 1 then Some (1, s)
          else
            let (offset, h1) = checkC1S1 w (hs s) (peek buf) (kRtmpHandShakePacketSize + 1)
            in if offset \<ge> 0 then do {
                 s1 \<leftarrow> take_input (put_hs s (createC2S2 w h1 (drop 1 (peek buf)))) (kRtmpHandShakePacketSize + 1);
                 if readableBytes (message_buffer (tcp s1)) \<ge> kRtmpHandShakePacketSize
                 then Some (2, session_sendC2S2 (set_state s1 kHandShakeDoing))
                 else Some (0, session_sendC1S1
                        (set_state (session_sendC2S2 (set_state s1 kHandShakePostC2)) kHandShakePostS0S1))
               } else Some (-1, s\<lparr>hs := h1\<rparr>)
      | _ \<Rightarrow> Some (0, s))"

text \<open>
  The message callback of the server. Its argument is a shared pointer, which holds the
  connection while the callback runs.
\<close>

definition hold :: "rtmp_session \<Rightarrow> rtmp_session" where
  "hold s = s\<lparr>tcp := (tcp s)\<lparr>holders := Suc (holders (tcp s))\<rparr>\<rparr>"

definition unhold :: "rtmp_session \<Rightarrow> rtmp_session" where
  "unhold s = s\<lparr>tcp := (tcp s)\<lparr>holders := holders (tcp s) - 1\<rparr>\<rparr>"

definition session_message :: "world \<Rightarrow> rtmp_session \<Rightarrow> nat \<Rightarrow> conn_error + rtmp_session" where
  "session_message w s t =
     (case session_handshake w (hold s) of
        None \<Rightarrow> Inl BufferAbort
      | Some (ret, s1) \<Rightarrow>
          if ret = 0 \<or> ret = 1 then Inr (unhold s1)
          else (case forceClose (tcp s1) t (0, 0) of
                  Inl e \<Rightarrow> Inl e
                | Inr c \<Rightarrow> Inr (unhold (s1\<lparr>tcp := c\<rparr>))))"

subsection \<open>The handlers\<close>

lemma sendInLoop_frame:
  "reads (sendInLoop c b n) = reads c \<and> memory (sendInLoop c b n) = memory c
     \<and> closed (sendInLoop c b n) = closed c \<and> message_buffer (sendInLoop c b n) = message_buffer c
     \<and> event_id (sendInLoop c b n) = event_id c \<and> holders (sendInLoop c b n) = holders c
     \<and> in_server (sendInLoop c b n) = in_server c \<and> close_cb (sendInLoop c b n) = close_cb c
     \<and> owner (lp (sendInLoop c b n)) = owner (lp c) \<and> events (lp (sendInLoop c b n)) = events (lp c)
     \<and> getFd (lp (sendInLoop c b n)) e = getFd (lp c) e \<and> timing (lp (sendInLoop c b n)) = timing (lp c)"
  by (simp add: sendInLoop_def sys_write_def write_complete_cb_def enableWriting_def Let_def
      enableEventWriting_frame split: list.splits io_result.splits)

text \<open>What sending leaves alone.\<close>

definition same_session :: "rtmp_session \<Rightarrow> rtmp_session \<Rightarrow> bool" where
  "same_session s' s \<longleftrightarrow>
     reads (tcp s') = reads (tcp s) \<and> memory (tcp s') = memory (tcp s) \<and> closed (tcp s') = closed (tcp s)
   \<and> message_buffer (tcp s') = message_buffer (tcp s) \<and> event_id (tcp s') = event_id (tcp s)
   \<and> holders (tcp s') = holders (tcp s) \<and> in_server (tcp s') = in_server (tcp s)
   \<and> close_cb (tcp s') = close_cb (tcp s) \<and> owner (lp (tcp s')) = owner (lp (tcp s))
   \<and> events (lp (tcp s')) = events (lp (tcp s)) \<and> (\<forall>e. getFd (lp (tcp s')) e = getFd (lp (tcp s)) e)
   \<and> timing (lp (tcp s')) = timing (lp (tcp s)) \<and> c1_at s' = c1_at s \<and> c2_at s' = c2_at s
   \<and> C1S1 (hs s') = C1S1 (hs s) \<and> C2S2 (hs s') = C2S2 (hs s) \<and> is_client (hs s') = is_client (hs s)"

lemma same_session_refl [simp]: "same_session s s"
  by (simp add: same_session_def)

lemma same_session_trans: "same_session s2 s1 \<Longrightarrow> same_session s1 s \<Longrightarrow> same_session s2 s"
  by (simp add: same_session_def)

lemma same_session_set_state [simp]:
  "same_session (set_state s st) s" "same_session s2 (set_state s st) = same_session s2 s"
  by (simp_all add: same_session_def set_state_def)

lemma send_same:
  "same_session (session_send s b n) s" "same_session (session_sendC2S2 s) s"
  "same_session (session_writeComplete s) s"
proof (induction s b n and s and s rule: session_send_session_sendC2S2_session_writeComplete.induct)
  case (1 s b n)
  let ?c = "send (tcp s) (owner (lp (tcp s))) (0, 0) b (of_nat n)"
  let ?s1 = "s\<lparr>tcp := ?c, hs := (hs s)\<lparr>sent := sent (hs s) @ [read_mem (memory (tcp s)) b n]\<rparr>\<rparr>"
  have "same_session ?s1 s"
    by (simp add: same_session_def send_def isInLoopThread_def sendInLoop_frame)
  with 1 same_session_trans [of "session_writeComplete ?s1" ?s1 s] show ?case
    by (simp add: session_send.simps [of s b n] Let_def)
next
  case (2 s)
  then show ?case by (simp add: session_sendC2S2.simps [of s])
next
  case (3 s)
  then show ?case
    by (cases "hs_state (hs s)") (simp_all add: session_writeComplete.simps [of s])
qed

lemma sendC1S1_same: "same_session (session_sendC1S1 s) s"
  by (simp add: session_sendC1S1_def send_same)

lemma take_input_same:
  "take_input s n = Some s1 \<Longrightarrow> reads (tcp s1) = reads (tcp s)"
  by (auto simp: take_input_def bind_eq_Some_conv)

lemma session_handshake_reads:
  assumes "session_handshake w s = Some (r, s1)"
  shows "reads (tcp s1) = reads (tcp s)"
proof -
  have put: "reads (tcp (put_hs s h)) = reads (tcp s)" "reads (tcp (set_state s st)) = reads (tcp s)" for s h st
    by (simp_all add: put_hs_def set_state_def)
  have send: "reads (tcp (session_sendC1S1 s)) = reads (tcp s)" "reads (tcp (session_sendC2S2 s)) = reads (tcp s)" for s
    using sendC1S1_same [of s] send_same(2) [of s] by (simp_all add: same_session_def)
  show ?thesis
    using assms
    by (cases "hs_state (hs s)")
      (auto simp: session_handshake_def Let_def bind_eq_Some_conv put send
        dest!: take_input_same split: if_splits prod.splits)
qed

lemma onClose_reads: "onClose c t = Inr c1 \<Longrightarrow> reads c1 = reads c"
  by (auto simp: onClose_def onConnectionClose_def split: if_splits)

lemma session_message_reads:
  assumes "session_message w s t = Inr s1"
  shows "reads (tcp s1) = reads (tcp s)"
  using assms
  by (auto simp: session_message_def hold_def unhold_def forceClose_def post_def dest!: session_handshake_reads
      onClose_reads split: option.splits if_splits sum.splits)

text \<open>
  \<open>TcpConnection::onRead\<close> with this callback. A read from a closed descriptor, -1, fails with
  \<open>EBADF\<close>. When the callback let go of the last owner, the loop goes on in a destroyed object.
\<close>

definition EBADF :: int where "EBADF = 9"

definition session_readv :: "tcp_connection \<Rightarrow> nat \<Rightarrow> int + bytes" where
  "session_readv c = (if getFd (lp c) (event_id c) = -1 then (\<lambda>_. Inl EBADF) else sys_readv (reads c))"

definition session_close :: "rtmp_session \<Rightarrow> nat \<Rightarrow> conn_error + rtmp_session" where
  "session_close s t = (case onClose (tcp s) t of Inl e \<Rightarrow> Inl e | Inr c \<Rightarrow> Inr (s\<lparr>tcp := c\<rparr>))"

function session_onRead_loop :: "world \<Rightarrow> rtmp_session \<Rightarrow> nat \<Rightarrow> conn_error + rtmp_session" where
  "session_onRead_loop w s t =
     (let c = tcp s; space = readFd_space (message_buffer c)
      in case readFd (session_readv c) (message_buffer c) of
           None \<Rightarrow> Inl BufferAbort
         | Some (n, err, b) \<Rightarrow>
             let s1 = s\<lparr>tcp := c\<lparr>message_buffer := b, reads := after_readv (reads c) space\<rparr>\<rparr>
             in if n > 0 then
                  (case session_message w (s1\<lparr>tcp := (tcp s1)\<lparr>seen := seen c @ [content b]\<rparr>\<rparr>) t of
                     Inl e \<Rightarrow> Inl e
                   | Inr s2 \<Rightarrow> if kept_alive (tcp s2) then session_onRead_loop w s2 t else Inl UseAfterFree)
                else if n = 0 then session_close s1 t
                else if \<not> retryable (case err of Some e \<Rightarrow> e | None \<Rightarrow> 0) then session_close s1 t
                else Inr s1)"
  by pat_completeness auto
termination
proof (relation "measure (\<lambda>(w, s, t). avail (reads (tcp s)))", goal_cases)
  case (2 w s t c space x n y err b s1 s2)
  have "0 < readFd_space (message_buffer c)"
    by (simp add: readFd_space_def extrabuf_size_def)
  moreover have "reads (tcp s2) = after_readv (reads c) space"
    using session_message_reads [OF 2(8)] 2(6) by simp
  ultimately show ?case
    using 2
    by (cases "reads c"; cases "hd (reads c)"; cases "getFd (lp c) (event_id c) = -1")
      (auto simp: readFd_def session_readv_def sys_readv_def after_readv_def avail_def Let_def bind_eq_Some_conv
        split: if_splits)
qed simp

declare session_onRead_loop.simps [simp del]

definition extend_session :: "rtmp_session \<Rightarrow> rtmp_session" where
  "extend_session s = s\<lparr>tcp := extendLife (tcp s)\<rparr>"

definition session_onRead :: "world \<Rightarrow> rtmp_session \<Rightarrow> nat \<Rightarrow> conn_error + rtmp_session" where
  "session_onRead w s t =
     (if closed (tcp s) then Inr s else session_onRead_loop w (extend_session s) t)"

text \<open>\<open>TcpConnection::onWrite\<close> calls the write-complete callback last, and at most once.\<close>

definition session_onWrite :: "rtmp_session \<Rightarrow> nat \<Rightarrow> conn_error + rtmp_session" where
  "session_onWrite s t =
     (case onWrite (tcp s) t of
        Inl e \<Rightarrow> Inl e
      | Inr c \<Rightarrow>
          let s1 = s\<lparr>tcp := c\<rparr>
          in Inr (if completions (tcp s) < completions c then session_writeComplete s1 else s1))"

text \<open>
  A new connection: \<open>onAccept\<close> of the server and the callback for new connections, which makes the
  handshake and starts it. \<open>a1\<close> and \<open>a2\<close> are the addresses of its arrays.
\<close>

definition session_accept ::
    "world \<Rightarrow> event_loop \<Rightarrow> nat \<Rightarrow> nat \<times> int \<Rightarrow> nat \<Rightarrow> int \<Rightarrow> (addr \<Rightarrow> byte) \<Rightarrow> addr \<Rightarrow> addr
       \<Rightarrow> conn_error + rtmp_session" where
  "session_accept w l t fresh ev sockfd m a1 a2 =
     (case onAccept l t fresh ev sockfd m [] [] of
        Inl e \<Rightarrow> Inl e
      | Inr c \<Rightarrow> Inr (session_start w \<lparr>tcp = c, hs = new_RtmpHandShake False, c1_at = a1, c2_at = a2\<rparr>))"

subsection \<open>The connection carries out what the handshake asks for\<close>

text \<open>A session as the handshake sees it: output is pending while the connection has some queued.\<close>

definition session_abs :: "rtmp_session \<Rightarrow> rtmp_handshake" where
  "session_abs s = (hs s)\<lparr>alive := True, pending := io_vec_list (tcp s) \<noteq> []\<rparr>"

text \<open>
  The bytes written and queued are the packets sent, and the arrays are in memory.
\<close>

definition session_ok :: "(kernel \<Rightarrow> syscall \<Rightarrow> kernel) \<Rightarrow> rtmp_session \<Rightarrow> bool" where
  "session_ok ctl s \<longleftrightarrow>
     queued_watched ctl (tcp s) \<and> \<not> closed (tcp s) \<and> nonempty_iovecs (io_vec_list (tcp s))
   \<and> getFd (lp (tcp s)) (event_id (tcp s)) \<noteq> -1
   \<and> wire (tcp s) @ gather (memory (tcp s)) (io_vec_list (tcp s)) = concat (sent (hs s))
   \<and> read_mem (memory (tcp s)) (c1_at s) (kRtmpHandShakePacketSize + 1) = C1S1 (hs s)
   \<and> read_mem (memory (tcp s)) (c2_at s) kRtmpHandShakePacketSize = C2S2 (hs s)"

lemma session_okD:
  assumes "session_ok ctl s"
  shows "queued_watched ctl (tcp s)" and "\<not> closed (tcp s)" and "nonempty_iovecs (io_vec_list (tcp s))"
    and "getFd (lp (tcp s)) (event_id (tcp s)) \<noteq> -1"
    and "wire (tcp s) @ gather (memory (tcp s)) (io_vec_list (tcp s)) = concat (sent (hs s))"
    and "read_mem (memory (tcp s)) (c1_at s) (kRtmpHandShakePacketSize + 1) = C1S1 (hs s)"
    and "read_mem (memory (tcp s)) (c2_at s) kRtmpHandShakePacketSize = C2S2 (hs s)"
    and "kept_alive (tcp s)"
  using assms by (simp_all add: session_ok_def kept_alive_def queued_watched_def)

lemma session_ok_set_state [simp]: "session_ok ctl (set_state s st) = session_ok ctl s"
  by (simp add: session_ok_def set_state_def)

lemma session_abs_tcp [simp]:
  "io_vec_list c = io_vec_list (tcp s) \<Longrightarrow> session_abs (s\<lparr>tcp := c\<rparr>) = session_abs s"
  by (simp add: session_abs_def)

lemma session_abs_set_state [simp]:
  "session_abs (set_state s st) = (session_abs s)\<lparr>hs_state := st\<rparr>"
  by (simp add: session_abs_def set_state_def)

text \<open>One \<open>send\<close> on an open connection whose next write the kernel does not refuse.\<close>

lemma send_once:
  fixes s :: rtmp_session and buf :: addr and n :: nat
  assumes "epoll_laws ctl" and "session_ok ctl s" and "writes (tcp s) \<noteq> []"
    and "list_all is_Wrote (writes (tcp s))" and "0 < n" and "n < 2 ^ 64"
  defines "c \<equiv> send (tcp s) (owner (lp (tcp s))) (0, 0) buf (of_nat n)"
  defines "s1 \<equiv> s\<lparr>tcp := c, hs := (hs s)\<lparr>sent := sent (hs s) @ [read_mem (memory (tcp s)) buf n]\<rparr>\<rparr>"
  shows "session_ok ctl s1" and "list_all is_Wrote (writes c)" and "length (writes (tcp s)) \<le> Suc (length (writes c))"
    and "completions (tcp s) < completions c \<Longrightarrow> io_vec_list (tcp s) = [] \<and> io_vec_list c = []"
    and "\<not> completions (tcp s) < completions c \<Longrightarrow> io_vec_list c \<noteq> []"
proof -
  let ?c = "tcp s"
  note ok = session_okD [OF assms(2)]
  have u: "unat (of_nat n :: u64) = n" using assms(6) by (simp add: unat_of_nat)
  have c: "c = sendInLoop ?c buf (of_nat n)" using ok(2) by (simp add: c_def send_def isInLoopThread_def)
  note st = sendInLoop_step [OF assms(1) ok(1,2) assms(3,4), of buf "of_nat n", folded c, unfolded u]
  note fr = sendInLoop_frame [of ?c buf "of_nat n", folded c]
  have nz: "(of_nat n :: u64) \<noteq> 0" using u assms(5) by auto
  obtain k rs where w: "writes ?c = Wrote k # rs"
    using assms(3,4) by (cases "writes ?c"; cases "hd (writes ?c)") (auto simp: is_Wrote_def)
  have new: "nonempty_iovecs (io_vec_list c)
      \<and> (if completions ?c < completions c then io_vec_list ?c = [] \<and> io_vec_list c = [] else io_vec_list c \<noteq> [])"
    using ok(2,3) nz w unfolding c
    by (auto simp: sendInLoop_def sys_write_def write_complete_cb_def enableWriting_def nonempty_iovecs_def Let_def
        word_neq_0_conv [symmetric] split: list.splits io_result.splits)
  then show "completions ?c < completions c \<Longrightarrow> io_vec_list ?c = [] \<and> io_vec_list c = []"
    and "\<not> completions ?c < completions c \<Longrightarrow> io_vec_list c \<noteq> []" by (auto split: if_splits)
  show "session_ok ctl s1"
    using ok st(1-4) fr new by (simp add: session_ok_def s1_def)
  show "list_all is_Wrote (writes c)" "length (writes ?c) \<le> Suc (length (writes c))"
    using st(5,6) by simp_all
qed

text \<open>The result of a send depends only on what happens to the sends still to come.\<close>

lemma send_cong:
  "(\<forall>k \<ge> length (sent h). completes w k = completes w' k) \<Longrightarrow> conn_send w h d = conn_send w' h d"
  "(\<forall>k \<ge> length (sent h). completes w k = completes w' k) \<Longrightarrow> sendC2S2 w h = sendC2S2 w' h"
  "(\<forall>k \<ge> length (sent h). completes w k = completes w' k) \<Longrightarrow> writeComplete w h = writeComplete w' h"
proof (induction w h d and w h and w h rule: conn_send_sendC2S2_writeComplete.induct)
  case (1 w h d)
  then show ?case by (simp add: conn_send.simps [of _ h] Let_def)
next
  case (2 w h)
  then show ?case by (simp add: sendC2S2.simps [of _ h])
next
  case (3 w h)
  then show ?case by (cases "hs_state h") (simp_all add: writeComplete.simps [of _ h])
qed

text \<open>
  What a send or a callback must give: the handshake's own result, for some answer to the
  question which sends are written at once, using one write of the kernel per send.
\<close>

definition budget :: "rtmp_session \<Rightarrow> nat" where
  "budget s = length (writes (tcp s)) + length (sent (hs s))"

definition carries_out ::
    "(kernel \<Rightarrow> syscall \<Rightarrow> kernel) \<Rightarrow> world \<Rightarrow> rtmp_session \<Rightarrow> (world \<Rightarrow> rtmp_handshake) \<Rightarrow> rtmp_session \<Rightarrow> bool" where
  "carries_out ctl w s f s' \<longleftrightarrow>
     (\<exists>k. session_abs s' = f (w\<lparr>completes := k\<rparr>)) \<and> session_ok ctl s'
   \<and> list_all is_Wrote (writes (tcp s')) \<and> budget s \<le> budget s'"

lemma carries_outI:
  assumes "session_abs s' = f (w\<lparr>completes := k\<rparr>)" and "session_ok ctl s'"
    and "list_all is_Wrote (writes (tcp s'))" and "budget s \<le> budget s'"
  shows "carries_out ctl w s f s'"
  using assms unfolding carries_out_def by blast

lemma set_state_simps [simp]:
  "tcp (set_state s st) = tcp s" "hs (set_state s st) = (hs s)\<lparr>hs_state := st\<rparr>"
  "c1_at (set_state s st) = c1_at s" "c2_at (set_state s st) = c2_at s" "budget (set_state s st) = budget s"
  by (simp_all add: set_state_def budget_def)

lemma session_abs_simps [simp]:
  "alive (session_abs s)" "hs_state (session_abs s) = hs_state (hs s)" "sent (session_abs s) = sent (hs s)"
  "C1S1 (session_abs s) = C1S1 (hs s)" "C2S2 (session_abs s) = C2S2 (hs s)"
  "pending (session_abs s) = (io_vec_list (tcp s) \<noteq> [])" "is_client (session_abs s) = is_client (hs s)"
  by (simp_all add: session_abs_def)

lemma send_carries_out:
  assumes "epoll_laws ctl"
  shows "session_ok ctl s \<Longrightarrow> session_rank s < length (writes (tcp s)) \<Longrightarrow> list_all is_Wrote (writes (tcp s))
       \<Longrightarrow> 0 < n \<Longrightarrow> n < 2 ^ 64 \<Longrightarrow>
       carries_out ctl w s (\<lambda>w. conn_send w (session_abs s) (read_mem (memory (tcp s)) b n)) (session_send s b n)"
    and "session_ok ctl s \<Longrightarrow> session_rank s < length (writes (tcp s)) \<Longrightarrow> list_all is_Wrote (writes (tcp s)) \<Longrightarrow>
       carries_out ctl w s (\<lambda>w. sendC2S2 w (session_abs s)) (session_sendC2S2 s)"
    and "session_ok ctl s \<Longrightarrow> session_rank s \<le> length (writes (tcp s)) \<Longrightarrow> list_all is_Wrote (writes (tcp s)) \<Longrightarrow>
       carries_out ctl w s (\<lambda>w. writeComplete w (session_abs s)) (session_writeComplete s)"
proof (induction s b n and s and s rule: session_send_session_sendC2S2_session_writeComplete.induct)
  case (1 s b n)
  let ?c = "send (tcp s) (owner (lp (tcp s))) (0, 0) b (of_nat n)"
  let ?d = "read_mem (memory (tcp s)) b n"
  let ?s1 = "s\<lparr>tcp := ?c, hs := (hs s)\<lparr>sent := sent (hs s) @ [?d]\<rparr>\<rparr>"
  have "writes (tcp s) \<noteq> []" using "1.prems"(2) by auto
  note o = send_once [OF assms "1.prems"(1) this "1.prems"(3-5), of b]
  have bud: "budget s \<le> budget ?s1" using o(3) by (simp add: budget_def)
  have rank: "session_rank ?s1 = session_rank s" by (simp add: session_rank_def server_rank_def)
  show ?case
  proof (cases "completions (tcp s) < completions ?c")
    case True
    note q = o(4) [OF True]
    have r: "session_send s b n = session_writeComplete ?s1"
      using True by (simp add: session_send.simps [of s] Let_def)
    have "carries_out ctl w ?s1 (\<lambda>w. writeComplete w (session_abs ?s1)) (session_writeComplete ?s1)"
      using o(1-3) "1.prems"(2) rank by (intro "1.IH" [OF refl refl True]) simp_all
    then obtain k where k: "session_abs (session_writeComplete ?s1)
          = writeComplete (w\<lparr>completes := k\<rparr>) (session_abs ?s1)" "session_ok ctl (session_writeComplete ?s1)"
        "list_all is_Wrote (writes (tcp (session_writeComplete ?s1)))"
        "budget ?s1 \<le> budget (session_writeComplete ?s1)"
      unfolding carries_out_def by auto
    let ?k = "k(length (sent (hs s)) := True)"
    have a: "session_abs ?s1 = (session_abs s)\<lparr>sent := sent (session_abs s) @ [?d]\<rparr>"
      using q by (simp add: session_abs_def)
    have "writeComplete (w\<lparr>completes := k\<rparr>) (session_abs ?s1) = writeComplete (w\<lparr>completes := ?k\<rparr>) (session_abs ?s1)"
      by (rule send_cong(3)) simp
    also have "\<dots> = conn_send (w\<lparr>completes := ?k\<rparr>) (session_abs s) ?d"
      using q unfolding a by (intro conn_send_now [symmetric]) simp_all
    finally show ?thesis
      using k bud unfolding r by (intro carries_outI [where k = ?k]) simp_all
  next
    case False
    have a: "session_abs ?s1 = (session_abs s)\<lparr>sent := sent (session_abs s) @ [?d], pending := True\<rparr>"
      using o(5) [OF False] by (simp add: session_abs_def)
    have "session_send s b n = ?s1"
      using False by (simp add: session_send.simps [of s] Let_def)
    then show ?thesis
      using o(1,2) bud conn_send_later(2) [of "w\<lparr>completes := \<lambda>_. False\<rparr>" "session_abs s" ?d]
      by (intro carries_outI [where k = "\<lambda>_. False"]) (simp_all add: a)
  qed
next
  case (2 s)
  note ok = session_okD [OF "2.prems"(1)]
  have "carries_out ctl w s (\<lambda>w. conn_send w (session_abs s) (read_mem (memory (tcp s)) (c2_at s) kRtmpHandShakePacketSize))
      (session_send s (c2_at s) kRtmpHandShakePacketSize)"
    using 2 ok(8) by (intro "2.IH") (simp_all add: kRtmpHandShakePacketSize_def)
  then show ?case using ok(7,8) by (simp add: session_sendC2S2.simps [of s] sendC2S2.simps)
next
  case (3 s)
  note ok = session_okD [OF "3.prems"(1)]
  show ?case
  proof (cases "hs_state (hs s) = kHandShakePostS0S1")
    case True
    have r: "session_rank s = 1" "session_rank (set_state s kHandShakePostS2) = 0"
      using True by (simp_all add: session_rank_def server_rank_def)
    have "writes (tcp s) \<noteq> []" using "3.prems"(2) r by auto
    then have "carries_out ctl w (set_state s kHandShakePostS2)
        (\<lambda>w. sendC2S2 w (session_abs (set_state s kHandShakePostS2))) (session_sendC2S2 (set_state s kHandShakePostS2))"
      using 3 ok(8) True r by (intro "3.IH") simp_all
    then show ?thesis
      using True ok(8)
      by (simp add: session_writeComplete.simps [of s] writeComplete.simps carries_out_def)
  next
    case False
    then show ?thesis
      using 3 ok(8)
      by (cases "hs_state (hs s)")
        (simp_all add: session_writeComplete.simps [of s] writeComplete.simps carries_out_def)
  qed
qed

lemma sendC1S1_carries_out:
  assumes "epoll_laws ctl" and "session_ok ctl s" and "session_rank s < length (writes (tcp s))"
    and "list_all is_Wrote (writes (tcp s))"
  shows "carries_out ctl w s (\<lambda>w. sendC1S1 w (session_abs s)) (session_sendC1S1 s)"
  using send_carries_out(1) [OF assms, of "kRtmpHandShakePacketSize + 1" w "c1_at s"] session_okD(6,8) [OF assms(2)]
  by (simp add: session_sendC1S1_def sendC1S1_def kRtmpHandShakePacketSize_def)

subsection \<open>The arrays in memory\<close>

text \<open>No byte of the range \<open>a\<close>, \<open>n\<close> is in the range \<open>b\<close>, \<open>m\<close>.\<close>

definition apart :: "addr \<Rightarrow> nat \<Rightarrow> addr \<Rightarrow> nat \<Rightarrow> bool" where
  "apart a n b m \<longleftrightarrow> (\<forall>i < n. m \<le> unat (a + of_nat i - b))"

lemma read_store_same: "length d < 2 ^ 64 \<Longrightarrow> read_mem (store m a d) a (length d) = d"
  by (rule nth_equalityI) (simp_all add: read_mem_def store_def unat_of_nat)

lemma read_store_apart: "apart b n a (length d) \<Longrightarrow> read_mem (store m a d) b n = read_mem m b n"
  by (simp add: read_mem_def store_def apart_def) (metis atLeastLessThan_iff not_less)

lemma put_hs_arrays:
  assumes "queued_watched ctl (tcp s)" and "\<not> closed (tcp s)" and "getFd (lp (tcp s)) (event_id (tcp s)) \<noteq> -1"
    and "wire (tcp s) = concat (sent h)" and "io_vec_list (tcp s) = []"
    and "length (C1S1 h) = kRtmpHandShakePacketSize + 1" and "length (C2S2 h) = kRtmpHandShakePacketSize"
    and "apart (c1_at s) (kRtmpHandShakePacketSize + 1) (c2_at s) kRtmpHandShakePacketSize"
  shows "session_ok ctl (put_hs s h)"
proof -
  let ?m = "store (store (memory (tcp s)) (c1_at s) (C1S1 h)) (c2_at s) (C2S2 h)"
  have "read_mem ?m (c2_at s) kRtmpHandShakePacketSize = C2S2 h"
    using read_store_same [of "C2S2 h"] assms(7) by (simp add: kRtmpHandShakePacketSize_def)
  moreover have "read_mem ?m (c1_at s) (kRtmpHandShakePacketSize + 1) = C1S1 h"
    using read_store_apart [of "c1_at s" "kRtmpHandShakePacketSize + 1" "c2_at s" "C2S2 h"]
      read_store_same [of "C1S1 h"] assms(6-8) by (simp add: kRtmpHandShakePacketSize_def)
  ultimately show ?thesis
    using assms(1-5) by (simp add: session_ok_def put_hs_def queued_watched_def nonempty_iovecs_def)
qed

lemma put_hs_ok:
  assumes "session_ok ctl s" and "io_vec_list (tcp s) = []" and "sent h = sent (hs s)"
    and "length (C1S1 h) = kRtmpHandShakePacketSize + 1" and "length (C2S2 h) = kRtmpHandShakePacketSize"
    and "apart (c1_at s) (kRtmpHandShakePacketSize + 1) (c2_at s) kRtmpHandShakePacketSize"
  shows "session_ok ctl (put_hs s h)"
  using session_okD [OF assms(1)] assms(2-6) by (intro put_hs_arrays) simp_all

lemma put_hs_simps [simp]:
  "hs (put_hs s h) = h" "io_vec_list (tcp (put_hs s h)) = io_vec_list (tcp s)"
  "writes (tcp (put_hs s h)) = writes (tcp s)" "message_buffer (tcp (put_hs s h)) = message_buffer (tcp s)"
  "c1_at (put_hs s h) = c1_at s" "c2_at (put_hs s h) = c2_at s"
  by (simp_all add: put_hs_def)

lemma take_input_Some:
  "retrieve (message_buffer (tcp s)) n = Some b \<Longrightarrow> take_input s n = Some (s\<lparr>tcp := (tcp s)\<lparr>message_buffer := b\<rparr>\<rparr>)"
  by (simp add: take_input_def)

lemma session_ok_frame [simp]:
  "session_ok ctl (s\<lparr>tcp := (tcp s)\<lparr>message_buffer := b\<rparr>\<rparr>) = session_ok ctl s"
  "session_ok ctl (s\<lparr>tcp := (tcp s)\<lparr>message_buffer := b, reads := rs\<rparr>\<rparr>) = session_ok ctl s"
  "session_ok ctl (s\<lparr>tcp := (tcp s)\<lparr>holders := k\<rparr>\<rparr>) = session_ok ctl s"
  "session_ok ctl (s\<lparr>tcp := (tcp s)\<lparr>seen := sn\<rparr>\<rparr>) = session_ok ctl s"
  "session_ok ctl (s\<lparr>tcp := (tcp s)\<lparr>reads := rs, writes := ws\<rparr>\<rparr>) = session_ok ctl s"
  by (simp_all add: session_ok_def queued_watched_def)

lemma length_createC2S2:
  assumes "\<And>k d. length (hmac w k d) = kDigestLength"
  shows "length (C2S2 (createC2S2 w h d)) = kRtmpHandShakePacketSize"
  using assms length_now
  by (simp add: createC2S2_def Let_def CalculateDigest_def genRandom_def kRtmpHandShakePacketSize_def kDigestLength_def)

subsection \<open>A server's session\<close>

text \<open>
  The invariant. A handshake sends two packets; \<open>budget\<close> says that the kernel takes something of
  every write that is still to come.
\<close>

definition srv_ok :: "(kernel \<Rightarrow> syscall \<Rightarrow> kernel) \<Rightarrow> rtmp_session \<Rightarrow> bool" where
  "srv_ok ctl s \<longleftrightarrow> session_ok ctl s \<and> buf_ok (message_buffer (tcp s)) \<and> server_ok (session_abs s)
     \<and> apart (c1_at s) (kRtmpHandShakePacketSize + 1) (c2_at s) kRtmpHandShakePacketSize"

definition willing :: "rtmp_session \<Rightarrow> bool" where
  "willing s \<longleftrightarrow> list_all is_Wrote (writes (tcp s)) \<and> 2 \<le> budget s"

lemma srv_okD:
  assumes "srv_ok ctl s"
  shows "session_ok ctl s" and "buf_ok (message_buffer (tcp s))" and "server_ok (session_abs s)"
    and "apart (c1_at s) (kRtmpHandShakePacketSize + 1) (c2_at s) kRtmpHandShakePacketSize"
  using assms by (simp_all add: srv_ok_def)

text \<open>The result of a server's sends is again a session in order.\<close>

lemma server_sends_S0S1:
  assumes "epoll_laws ctl" and "session_ok ctl s" and "willing s" and "buf_ok (message_buffer (tcp s))"
    and "apart (c1_at s) (kRtmpHandShakePacketSize + 1) (c2_at s) kRtmpHandShakePacketSize"
    and "hs_state (hs s) = kHandShakePostS0S1" and "\<not> is_client (hs s)" and "sent (hs s) = []"
    and "io_vec_list (tcp s) = []"
  defines "s' \<equiv> session_sendC1S1 s"
  shows "srv_ok ctl s'" and "willing s'" and "\<exists>k. session_abs s' = sendC1S1 (w\<lparr>completes := k\<rparr>) (session_abs s)"
    and "hs_state (hs s') \<in> {kHandShakePostS0S1, kHandShakePostS2, kHandShakeWaitC2}"
    and "message_buffer (tcp s') = message_buffer (tcp s)"
proof -
  have "carries_out ctl w s (\<lambda>w. sendC1S1 w (session_abs s)) s'"
    using assms(3,6,8) unfolding s'_def
    by (intro sendC1S1_carries_out [OF assms(1,2)])
      (simp_all add: willing_def budget_def session_rank_def server_rank_def)
  then obtain k where k: "session_abs s' = sendC1S1 (w\<lparr>completes := k\<rparr>) (session_abs s)" "session_ok ctl s'"
      "list_all is_Wrote (writes (tcp s'))" "budget s \<le> budget s'"
    unfolding carries_out_def by blast
  note same = sendC1S1_same [of s, folded s'_def, unfolded same_session_def]
  have a: "alive (session_abs s)" "\<not> is_client (session_abs s)" "\<not> pending (session_abs s)"
      "sent (session_abs s) = []" "hs_state (session_abs s) = kHandShakePostS0S1"
    using assms(6-9) by simp_all
  from k(1) show "\<exists>k. session_abs s' = sendC1S1 (w\<lparr>completes := k\<rparr>) (session_abs s)" by blast
  show "srv_ok ctl s'"
    using k(2) server_send(1) [OF a] assms(4,5) same by (simp add: srv_ok_def k(1))
  show "willing s'" using k(3,4) assms(3) by (simp add: willing_def)
  have "hs_state (session_abs s') \<in> {kHandShakePostS0S1, kHandShakePostS2, kHandShakeWaitC2}"
    unfolding k(1) by (rule server_send(2) [OF a])
  then show "hs_state (hs s') \<in> {kHandShakePostS0S1, kHandShakePostS2, kHandShakeWaitC2}" by simp
  show "message_buffer (tcp s') = message_buffer (tcp s)" using same by simp
qed

text \<open>
  One call of \<open>handshake\<close>: it returns, with the handshake's own answer, and leaves the session in order.
\<close>

lemma session_handshake_ok:
  assumes "epoll_laws ctl" and "srv_ok ctl s" and "willing s" and "\<And>k d. length (hmac w k d) = kDigestLength"
  shows "\<exists>r s' k. session_handshake w s = Some (r, s')
     \<and> handshake (w\<lparr>completes := k\<rparr>) (session_abs s) (message_buffer (tcp s))
         = Some (r, session_abs s', message_buffer (tcp s'))
     \<and> (r \<noteq> -1 \<longrightarrow> srv_ok ctl s' \<and> willing s')"
proof -
  note ok = srv_okD [OF assms(2)]
  note so = session_okD [OF ok(1)]
  let ?b = "message_buffer (tcp s)"
  have st: "hs_state (hs s) \<in> {kHandShakeWaitC0C1, kHandShakePostS0S1, kHandShakePostS2, kHandShakeWaitC2, kHandShakeDone}"
    using ok(3) by (cases "hs_state (hs s)") (auto simp: server_ok_def)
  consider "hs_state (hs s) = kHandShakeWaitC0C1" "kRtmpHandShakePacketSize + 1 \<le> readableBytes ?b"
    | "hs_state (hs s) = kHandShakeWaitC2" "kRtmpHandShakePacketSize \<le> readableBytes ?b"
    | "hs_state (hs s) = kHandShakeWaitC0C1 \<and> readableBytes ?b < kRtmpHandShakePacketSize + 1
        \<or> hs_state (hs s) = kHandShakeWaitC2 \<and> readableBytes ?b < kRtmpHandShakePacketSize
        \<or> hs_state (hs s) \<in> {kHandShakePostS0S1, kHandShakePostS2, kHandShakeDone}"
    using st by fastforce
  then show ?thesis
  proof cases
    case 3
    then show ?thesis
      using so(8) assms(2,3)
      by (intro exI [of _ "if hs_state (hs s) \<in> {kHandShakeWaitC0C1, kHandShakeWaitC2} then 1 else 0"]
          exI [of _ s] exI [of _ "completes w"])
        (auto simp: session_handshake_def handshake_def)
  next
    case 2
    obtain b' where b': "retrieve ?b kRtmpHandShakePacketSize = Some b'" "buf_ok b'"
      using retrieve_ok [OF ok(2) 2(2)] by blast
    let ?s' = "(set_state s kHandShakeDone)\<lparr>tcp := (tcp s)\<lparr>message_buffer := b'\<rparr>\<rparr>"
    have abs: "session_abs ?s' = (session_abs s)\<lparr>hs_state := kHandShakeDone\<rparr>"
      by (simp add: session_abs_def)
    have "session_ok ctl ?s'"
      using ok(1) session_ok_frame(1) [where s = "set_state s kHandShakeDone" and b = b' and ctl = ctl] by simp
    then have "srv_ok ctl ?s'"
      using ok(3,4) b'(2) 2(1) by (simp add: srv_ok_def abs server_ok_def)
    moreover have "willing ?s'" using assms(3) by (simp add: willing_def budget_def)
    moreover have "session_handshake w s = Some (0, ?s')"
      using 2 so(8) take_input_Some [of "set_state s kHandShakeDone" _ b'] b'(1)
      by (simp add: session_handshake_def checkC2S2_def)
    moreover have "handshake w (session_abs s) ?b = Some (0, session_abs ?s', b')"
      using 2 b'(1) by (simp add: handshake_def checkC2S2_def abs)
    ultimately show ?thesis
      by (intro exI [of _ 0] exI [of _ ?s'] exI [of _ "completes w"]) simp
  next
    case 1
    have q: "io_vec_list (tcp s) = []" "sent (hs s) = []" "\<not> is_client (hs s)"
      using ok(3) 1(1) by (simp_all add: server_ok_def)
    obtain off h1 where c: "checkC1S1 w (hs s) (peek ?b) (kRtmpHandShakePacketSize + 1) = (off, h1)"
      by (cases "checkC1S1 w (hs s) (peek ?b) (kRtmpHandShakePacketSize + 1)")
    note cf = checkC1S1_frame [OF c]
    have c': "checkC1S1 (w\<lparr>completes := k\<rparr>) (session_abs s) (peek ?b) (kRtmpHandShakePacketSize + 1)
        = (off, h1\<lparr>alive := True, pending := False\<rparr>)" for k
      using c q(1) VerifyDigest_hmac_cong [of "w\<lparr>completes := k\<rparr>" w]
      by (auto simp: checkC1S1_def session_abs_def Let_def split: if_splits)
    show ?thesis
    proof (cases "off \<ge> 0")
      case False
      then show ?thesis
        using 1 so(8) c c' [of "completes w"] q(1)
        by (intro exI [of _ "-1"] exI [of _ "s\<lparr>hs := h1\<rparr>"] exI [of _ "completes w"])
          (simp add: session_handshake_def handshake_def session_abs_def)
    next
      case True
      obtain b' where b': "retrieve ?b (kRtmpHandShakePacketSize + 1) = Some b'" "buf_ok b'"
        using retrieve_ok [OF ok(2) 1(2)] by blast
      let ?d = "drop 1 (peek ?b)"
      let ?h2 = "createC2S2 w h1 ?d"
      let ?s1 = "put_hs s ?h2"
      let ?s2 = "?s1\<lparr>tcp := (tcp ?s1)\<lparr>message_buffer := b'\<rparr>\<rparr>"
      let ?s3 = "set_state ?s2 kHandShakePostS0S1"
      have l1: "length (C1S1 (hs s)) = kRtmpHandShakePacketSize + 1"
        by (simp flip: so(6))
      have s1: "session_ok ctl ?s1"
        using length_createC2S2 [of w h1 ?d, OF assms(4)] cf q l1
        by (intro put_hs_ok [OF ok(1) q(1) _ _ _ ok(4)]) simp_all
      have s3: "session_ok ctl ?s3" "willing ?s3" "io_vec_list (tcp ?s3) = []" "message_buffer (tcp ?s3) = b'"
        "hs ?s3 = ?h2\<lparr>hs_state := kHandShakePostS0S1\<rparr>" "c1_at ?s3 = c1_at s" "c2_at ?s3 = c2_at s"
        using s1 q assms(3) cf by (simp_all add: willing_def budget_def)
      note send = server_sends_S0S1 [OF assms(1) s3(1,2)]
      have sends: "srv_ok ctl (session_sendC1S1 ?s3)" "willing (session_sendC1S1 ?s3)"
        "\<exists>k. session_abs (session_sendC1S1 ?s3) = sendC1S1 (w\<lparr>completes := k\<rparr>) (session_abs ?s3)"
        "message_buffer (tcp (session_sendC1S1 ?s3)) = b'"
        using send(1,2,5) send(3) [of w] s3(3-7) b'(2) ok(4) cf q by simp_all
      obtain k where k: "session_abs (session_sendC1S1 ?s3) = sendC1S1 (w\<lparr>completes := k\<rparr>) (session_abs ?s3)"
        using sends(3) by blast
      have r: "session_handshake w s = Some (0, session_sendC1S1 ?s3)"
        using 1 True so(8) c take_input_Some [of ?s1 _ b'] b'(1) by (simp add: session_handshake_def Let_def)
      have a3: "session_abs ?s3 = (createC2S2 (w\<lparr>completes := k\<rparr>) (h1\<lparr>alive := True, pending := False\<rparr>) ?d)\<lparr>hs_state := kHandShakePostS0S1\<rparr>"
        using q(1) s3(3,5) by (simp add: session_abs_def createC2S2_def genRandom_def CalculateDigest_def Let_def)
      have "handshake (w\<lparr>completes := k\<rparr>) (session_abs s) ?b = Some (0, session_abs (session_sendC1S1 ?s3), b')"
        using 1 True c' [of k] b'(1) unfolding k a3 by (simp add: handshake_def Let_def)
      with r sends show ?thesis
        by (intro exI [of _ 0] exI [of _ "session_sendC1S1 ?s3"] exI [of _ k]) simp
    qed
  qed
qed

subsection \<open>Writing the queue\<close>

text \<open>What is left of the kernel's answers when \<open>n\<close> bytes have been taken, none refused.\<close>

fun room_for :: "nat \<Rightarrow> io_result list \<Rightarrow> io_result list option" where
  "room_for n [] = None"
| "room_for n (Failed e # rs) = None"
| "room_for n (Wrote k # rs) =
     (if k = 0 then None else if n \<le> k then Some rs else room_for (n - k) rs)"

lemma onWrite_loop_takes:
  assumes "io_vec_list c \<noteq> []" and "nonempty_iovecs (io_vec_list c)"
    and "length (gather (memory c) (io_vec_list c)) < 2 ^ 64"
    and "room_for (length (gather (memory c) (io_vec_list c))) (writes c) = Some rs"
  shows "onWrite_loop c t = Inr (write_complete_cb (enableWriting
     (c\<lparr>wire := wire c @ gather (memory c) (io_vec_list c), writes := rs, io_vec_list := []\<rparr>) False))"
  using assms
proof (induction "length (gather (memory c) (io_vec_list c))" "writes c" arbitrary: c rule: room_for.induct)
  case (3 k ws)
  let ?g = "gather (memory c) (io_vec_list c)"
  let ?n = "min k (length ?g)"
  let ?c1 = "c\<lparr>wire := wire c @ take k ?g, writes := ws\<rparr>"
  let ?c2 = "?c1\<lparr>io_vec_list := consume (of_nat ?n) (io_vec_list c)\<rparr>"
  note w = 3(2) [symmetric]
  have k: "k \<noteq> 0" using "3.prems"(4) w by (auto split: if_splits)
  have g: "?g \<noteq> []" using gather_Nil_iff [OF "3.prems"(2)] "3.prems"(1) by simp
  have u: "unat (of_nat ?n :: u64) = ?n" using "3.prems"(3) by (simp add: unat_of_nat)
  have sys: "sys_write c ?g = (of_nat ?n, ?c1)" using w by (simp add: sys_write_def)
  have pos: "0 < (of_nat ?n :: u64)" using k g by (simp add: word_less_nat_alt u)
  have g2: "gather (memory c) (consume (of_nat ?n) (io_vec_list c)) = drop ?n ?g"
    by (simp add: gather_consume u)
  have empty: "consume (of_nat ?n) (io_vec_list c) = [] \<longleftrightarrow> length ?g \<le> k"
    using consume_Nil_iff [OF "3.prems"(2), of "of_nat ?n" "memory c"] u by auto
  show ?case
  proof (cases "length ?g \<le> k")
    case True
    then have "ws = rs" using "3.prems"(4) w k by simp
    with True empty sys pos "3.prems"(1) show ?thesis
      by (simp add: onWrite_loop.simps [of c])
  next
    case False
    have "onWrite_loop c t = onWrite_loop ?c2 t"
      using False empty sys pos "3.prems"(1) by (simp add: onWrite_loop.simps [of c])
    also have "\<dots> = Inr (write_complete_cb (enableWriting
        (?c2\<lparr>wire := wire ?c2 @ gather (memory ?c2) (io_vec_list ?c2), writes := rs, io_vec_list := []\<rparr>) False))"
      using False empty w k "3.prems" g2 by (intro 3(1)) (simp_all add: nonempty_consume)
    finally show ?thesis using False g2 by simp
  qed
qed (metis room_for.simps(1,2) option.distinct(1))+

text \<open>The writable event of a session in order: the queue goes out and the handshake moves on.\<close>

definition onWrite_willing :: "rtmp_session \<Rightarrow> bool" where
  "onWrite_willing s \<longleftrightarrow>
     (\<exists>rs. (if io_vec_list (tcp s) = [] then Some (writes (tcp s))
            else room_for (length (gather (memory (tcp s)) (io_vec_list (tcp s)))) (writes (tcp s))) = Some rs
        \<and> list_all is_Wrote rs \<and> 2 \<le> length rs + length (sent (hs s)))"

lemma array_lengths:
  assumes "session_ok ctl s"
  shows "length (C1S1 (hs s)) = kRtmpHandShakePacketSize + 1" and "length (C2S2 (hs s)) = kRtmpHandShakePacketSize"
  using session_okD(6,7) [OF assms] by (metis length_read_mem)+

lemma server_sent:
  assumes "server_ok h"
  shows "sent h \<in> {[], [C1S1 h], [C1S1 h, C2S2 h]}"
  using assms by (cases "hs_state h") (simp_all add: server_ok_def)

lemma queue_short:
  assumes "srv_ok ctl s"
  shows "length (gather (memory (tcp s)) (io_vec_list (tcp s))) < 2 ^ 64"
proof -
  note ok = srv_okD [OF assms]
  have "length (gather (memory (tcp s)) (io_vec_list (tcp s))) \<le> length (concat (sent (hs s)))"
    by (simp flip: session_okD(5) [OF ok(1)])
  also have "\<dots> \<le> 3073"
    using server_sent [OF ok(3)] array_lengths [OF ok(1)] by (auto simp: kRtmpHandShakePacketSize_def)
  finally show ?thesis by simp
qed

lemma session_onWrite_step:
  assumes "epoll_laws ctl" and "srv_ok ctl s" and "onWrite_willing s"
  shows "\<exists>s1. session_onWrite s t = Inr (session_writeComplete s1) \<and> session_ok ctl s1 \<and> willing s1
     \<and> session_abs s1 = (session_abs s)\<lparr>pending := False\<rparr> \<and> hs s1 = hs s \<and> io_vec_list (tcp s1) = []
     \<and> message_buffer (tcp s1) = message_buffer (tcp s) \<and> c1_at s1 = c1_at s \<and> c2_at s1 = c2_at s"
proof -
  note ok = srv_okD [OF assms(2)]
  note so = session_okD [OF ok(1)]
  let ?c = "extendLife (tcp s)"
  obtain rs where rs: "list_all is_Wrote rs" "2 \<le> length rs + length (sent (hs s))"
      "(if io_vec_list (tcp s) = [] then Some (writes (tcp s))
        else room_for (length (gather (memory (tcp s)) (io_vec_list (tcp s)))) (writes (tcp s))) = Some rs"
    using assms(3) unfolding onWrite_willing_def by blast
  let ?c1 = "?c\<lparr>wire := wire ?c @ gather (memory ?c) (io_vec_list ?c), writes := rs, io_vec_list := []\<rparr>"
  let ?c2 = "write_complete_cb (enableWriting ?c1 False)"
  let ?s1 = "s\<lparr>tcp := ?c2\<rparr>"
  have "onWrite (tcp s) t = Inr ?c2"
  proof (cases "io_vec_list (tcp s) = []")
    case True
    then have "?c1 = ?c" using rs(3) by simp
    with True so(2) show ?thesis by (simp add: onWrite_def)
  next
    case False
    then show ?thesis
      using onWrite_loop_takes [of ?c rs t] so(2,3) queue_short [OF assms(2)] rs(3) by (simp add: onWrite_def)
  qed
  then have w: "session_onWrite s t = Inr (session_writeComplete ?s1)"
    by (simp add: session_onWrite_def write_complete_cb_def enableWriting_def)
  have "lp ?c = (lp (tcp s))\<lparr>timing := timing (lp ?c)\<rparr>"
    by (simp add: extendLife_def split: option.splits)
  then obtain tw where tw: "lp ?c = (lp (tcp s))\<lparr>timing := tw\<rparr>" by blast
  have r: "reg_inv ctl (lp ?c) \<and> registered (lp ?c) (event_id (tcp s))"
    using so(1) by (simp add: tw queued_watched_def registered_def)
  have "queued_watched ctl ?c2"
    using loop_writes.set_ok [of ctl "lp ?c" "event_id (tcp s)" False] assms(1) r
    by (simp add: queued_watched_def write_complete_cb_def enableWriting_def)
  moreover have "getFd (lp ?c2) (event_id (tcp s)) = getFd (lp (tcp s)) (event_id (tcp s))"
    by (simp add: write_complete_cb_def enableWriting_def enableEventWriting_frame tw)
  ultimately have "session_ok ctl ?s1"
    using so by (simp add: session_ok_def write_complete_cb_def enableWriting_def nonempty_iovecs_def)
  moreover have "willing ?s1"
    using rs(1,2) by (simp add: willing_def budget_def write_complete_cb_def enableWriting_def)
  ultimately show ?thesis
    using w by (intro exI [of _ ?s1]) (simp add: session_abs_def write_complete_cb_def enableWriting_def)
qed

lemma session_onWrite_ok:
  assumes "epoll_laws ctl" and "srv_ok ctl s" and "onWrite_willing s"
  shows "\<exists>s'. session_onWrite s t = Inr s' \<and> srv_ok ctl s' \<and> willing s'
     \<and> (\<exists>k. session_abs s' = drain (w\<lparr>completes := k\<rparr>) (session_abs s))
     \<and> message_buffer (tcp s') = message_buffer (tcp s)"
proof -
  note ok = srv_okD [OF assms(2)]
  from session_onWrite_step [OF assms, of t] obtain s1 where s1: "session_onWrite s t = Inr (session_writeComplete s1)"
      "session_ok ctl s1" "willing s1" "session_abs s1 = (session_abs s)\<lparr>pending := False\<rparr>" "hs s1 = hs s"
      "io_vec_list (tcp s1) = []" "message_buffer (tcp s1) = message_buffer (tcp s)" "c1_at s1 = c1_at s"
      "c2_at s1 = c2_at s" by blast
  let ?s' = "session_writeComplete s1"
  have rank: "session_rank s1 \<le> length (writes (tcp s1))"
  proof (cases "hs_state (hs s) = kHandShakePostS0S1")
    case True
    then have "sent (hs s) = [C1S1 (hs s)]" using ok(3) by (simp add: server_ok_def)
    then show ?thesis using s1(3,5) by (simp add: willing_def budget_def session_rank_def server_rank_def)
  qed (simp add: session_rank_def server_rank_def s1(5))
  have "carries_out ctl w s1 (\<lambda>w. writeComplete w (session_abs s1)) ?s'"
    using s1(3) by (intro send_carries_out(3) [OF assms(1) s1(2) rank]) (simp add: willing_def)
  then obtain k where k: "session_abs ?s' = writeComplete (w\<lparr>completes := k\<rparr>) (session_abs s1)" "session_ok ctl ?s'"
      "list_all is_Wrote (writes (tcp ?s'))" "budget s1 \<le> budget ?s'"
    unfolding carries_out_def by blast
  have dr: "session_abs ?s' = drain (w\<lparr>completes := k\<rparr>) (session_abs s)"
  proof (cases "pending (session_abs s)")
    case True
    then show ?thesis by (simp only: drain_cases k(1) s1(4))
  next
    case False
    then have q: "session_abs s1 = session_abs s" by (simp add: s1(4))
    have "hs_state (session_abs s) \<in> {kHandShakeWaitC0C1, kHandShakeWaitC2, kHandShakeDone}"
      using ok(3) False by (cases "hs_state (hs s)") (simp_all add: server_ok_def)
    then have "writeComplete (w\<lparr>completes := k\<rparr>) (session_abs s) = session_abs s"
      by (intro writeComplete_cases(5)) auto
    then show ?thesis using False by (simp only: k(1) q drain_def if_False)
  qed
  have "server_ok (session_abs ?s')"
    unfolding dr using ok(3) by (simp add: drain_def server_writeComplete)
  moreover have "same_session ?s' s1" by (rule send_same(3))
  ultimately have "srv_ok ctl ?s'" "message_buffer (tcp ?s') = message_buffer (tcp s)"
    using k(2) ok(2,4) s1(7-9) by (simp_all add: srv_ok_def same_session_def)
  moreover have "willing ?s'" using k(3,4) s1(3) by (simp add: willing_def)
  ultimately show ?thesis using s1(1) dr by blast
qed

subsection \<open>What a server's session has received\<close>

definition first_packet :: "world \<Rightarrow> bytes" where
  "first_packet w = C1S1 (createC1S1 w (new_RtmpHandShake False))"

text \<open>A packet the server accepts as C0C1.\<close>

definition valid_C0C1 :: "world \<Rightarrow> bytes \<Rightarrow> bool" where
  "valid_C0C1 w P \<longleftrightarrow> fst (checkC1S1 w (new_RtmpHandShake False) P (kRtmpHandShakePacketSize + 1)) \<ge> 0"

text \<open>\<open>D\<close> is everything received; the packets already handled are gone from the buffer.\<close>

definition consumed :: "RtmpHandshakeState \<Rightarrow> nat" where
  "consumed st = (case st of kHandShakeWaitC0C1 \<Rightarrow> 0 | kHandShakeDone \<Rightarrow> 2 * kRtmpHandShakePacketSize + 1
     | _ \<Rightarrow> kRtmpHandShakePacketSize + 1)"

definition second_packet :: "world \<Rightarrow> bytes \<Rightarrow> bytes" where
  "second_packet w P =
     (let (off, h) = checkC1S1 w (start w (new_RtmpHandShake False)) P (kRtmpHandShakePacketSize + 1)
      in C2S2 (createC2S2 w h (drop 1 P)))"

definition has_received :: "world \<Rightarrow> rtmp_session \<Rightarrow> bytes \<Rightarrow> bool" where
  "has_received w s D \<longleftrightarrow> consumed (hs_state (hs s)) \<le> length D
     \<and> content (message_buffer (tcp s)) = drop (consumed (hs_state (hs s))) D
     \<and> C1S1 (hs s) = first_packet w
     \<and> (if hs_state (hs s) = kHandShakeWaitC0C1 then session_abs s = start w (new_RtmpHandShake False)
        else C2S2 (hs s) = second_packet w (take (kRtmpHandShakePacketSize + 1) D))"

lemma checkC1S1_new:
  assumes "\<not> is_client h" and "is_complex_handshake h"
  shows "fst (checkC1S1 w h P n) = fst (checkC1S1 w (new_RtmpHandShake False) P n)"
  using assms by (auto simp: checkC1S1_def new_RtmpHandShake_def Let_def)

lemma content_peek: "buf_ok b \<Longrightarrow> \<exists>r. peek b = content b @ r"
  by (metis append_take_drop_id content_def)

lemma hold_simps [simp]:
  "session_abs (hold s) = session_abs s" "session_abs (unhold s) = session_abs s"
  "srv_ok ctl (hold s) = srv_ok ctl s" "srv_ok ctl (unhold s) = srv_ok ctl s"
  "willing (hold s) = willing s" "willing (unhold s) = willing s"
  "message_buffer (tcp (hold s)) = message_buffer (tcp s)" "message_buffer (tcp (unhold s)) = message_buffer (tcp s)"
  "hs (hold s) = hs s" "hs (unhold s) = hs s"
  by (simp_all add: hold_def unhold_def session_abs_def srv_ok_def willing_def budget_def)

lemma has_received_abs:
  "has_received w s D \<longleftrightarrow> consumed (hs_state (session_abs s)) \<le> length D
     \<and> content (message_buffer (tcp s)) = drop (consumed (hs_state (session_abs s))) D
     \<and> C1S1 (session_abs s) = first_packet w
     \<and> (if hs_state (session_abs s) = kHandShakeWaitC0C1 then session_abs s = start w (new_RtmpHandShake False)
        else C2S2 (session_abs s) = second_packet w (take (kRtmpHandShakePacketSize + 1) D))"
  by (simp add: has_received_def)

lemma has_received_more:
  assumes "has_received w s D" and "hs s' = hs s" and "session_abs s' = session_abs s"
    and "content (message_buffer (tcp s')) = content (message_buffer (tcp s)) @ d"
  shows "has_received w s' (D @ d)"
proof -
  have "consumed (hs_state (hs s)) \<le> length D" using assms(1) by (simp add: has_received_def)
  moreover from this have "kRtmpHandShakePacketSize + 1 \<le> length D" if "hs_state (hs s) \<noteq> kHandShakeWaitC0C1"
    using that by (cases "hs_state (hs s)") (simp_all add: consumed_def)
  ultimately show ?thesis
    using assms by (simp add: has_received_def)
qed

lemma createC2S2_cong: "take 8 d = take 8 d' \<Longrightarrow> createC2S2 w h d = createC2S2 w h d'"
  by (simp add: createC2S2_def)

text \<open>The server's packets do not depend on which sends are written at once.\<close>

lemma completes_world [simp]:
  "VerifyDigest (w\<lparr>completes := k\<rparr>) = VerifyDigest w"
  "CalculateDigest (w\<lparr>completes := k\<rparr>) = CalculateDigest w" "genRandom (w\<lparr>completes := k\<rparr>) = genRandom w"
  using VerifyDigest_hmac_cong [of "w\<lparr>completes := k\<rparr>" w]
  by (simp_all add: genRandom_def CalculateDigest_def fun_eq_iff)

lemma completes_frame [simp]:
  "checkC1S1 (w\<lparr>completes := k\<rparr>) h P n = checkC1S1 w h P n"
  "createC2S2 (w\<lparr>completes := k\<rparr>) h d = createC2S2 w h d"
  "createC1S1 (w\<lparr>completes := k\<rparr>) h = createC1S1 w h"
  unfolding checkC1S1_def createC2S2_def createC1S1_def completes_world by (rule refl | simp)+

lemma completes_start [simp]:
  "start (w\<lparr>completes := k\<rparr>) (new_RtmpHandShake False) = start w (new_RtmpHandShake False)"
  by (simp add: start_def Let_def) (simp add: new_RtmpHandShake_def)

lemma second_packet_completes [simp]: "second_packet (w\<lparr>completes := k\<rparr>) P = second_packet w P"
  by (simp add: second_packet_def)

text \<open>What \<open>handshake\<close> makes of the input, for a server in order.\<close>

lemma handshake_progress:
  assumes "server_ok h" and "buf_ok b" and "handshake w h b = Some (r, h', b')"
    and "consumed (hs_state h) \<le> length D" and "content b = drop (consumed (hs_state h)) D"
    and "if hs_state h = kHandShakeWaitC0C1 then h = start w (new_RtmpHandShake False)
      else C2S2 h = second_packet w (take (kRtmpHandShakePacketSize + 1) D)"
    and "kRtmpHandShakePacketSize + 1 \<le> length D \<Longrightarrow>
      0 \<le> fst (checkC1S1 w (new_RtmpHandShake False) (take (kRtmpHandShakePacketSize + 1) D) (kRtmpHandShakePacketSize + 1))"
  shows "(r = 0 \<or> r = 1) \<and> C1S1 h' = C1S1 h \<and> consumed (hs_state h') \<le> length D
     \<and> content b' = drop (consumed (hs_state h')) D
     \<and> (if hs_state h' = kHandShakeWaitC0C1 then h' = start w (new_RtmpHandShake False)
        else C2S2 h' = second_packet w (take (kRtmpHandShakePacketSize + 1) D))
     \<and> (hs_state h = kHandShakeWaitC0C1 \<longrightarrow>
          (hs_state h' = kHandShakeWaitC0C1) = (length D < kRtmpHandShakePacketSize + 1) \<and> hs_state h' \<noteq> kHandShakeDone)
     \<and> (hs_state h \<noteq> kHandShakeWaitC0C1 \<longrightarrow> hs_state h' =
          (if hs_state h = kHandShakeWaitC2 \<and> 2 * kRtmpHandShakePacketSize + 1 \<le> length D then kHandShakeDone
           else hs_state h))"
proof -
  let ?n = "kRtmpHandShakePacketSize + 1"
  have al: "alive h" "\<not> is_client h" using assms(1) by (simp_all add: server_ok_def)
  have len: "readableBytes b = length D - consumed (hs_state h)"
    using length_content [of b] assms(2,5) by simp
  have st: "hs_state h \<in> {kHandShakeWaitC0C1, kHandShakePostS0S1, kHandShakePostS2, kHandShakeWaitC2, kHandShakeDone}"
    using assms(1) by (cases "hs_state h") (auto simp: server_ok_def)
  show ?thesis
  proof (cases "hs_state h = kHandShakeWaitC0C1 \<and> ?n \<le> length D")
    case True
    then have c0: "content b = D" "readableBytes b = length D" using assms(5) len by (simp_all add: consumed_def)
    obtain off h1 where c: "checkC1S1 w h (peek b) ?n = (off, h1)" by (cases "checkC1S1 w h (peek b) ?n")
    note cf = checkC1S1_frame [OF c]
    obtain x where "peek b = content b @ x" using content_peek [OF assms(2)] by blast
    then have pk: "peek b = take ?n D @ (drop ?n D @ x)" by (simp add: c0(1))
    then have "checkC1S1 w h (peek b) ?n = checkC1S1 w h (take ?n D) ?n"
      using checkC1S1_prefix [of "take ?n D" w h "drop ?n D @ x" ?n] True by simp
    then have ck: "checkC1S1 w (start w (new_RtmpHandShake False)) (take ?n D) ?n = (off, h1)"
      using assms(6) True c by simp
    have "is_complex_handshake h" using assms(6) True server_started(4) by simp
    then have off: "0 \<le> off"
      using assms(7) True checkC1S1_new [of h w "take ?n D" ?n] assms(6) al(2) ck by simp
    obtain b1 where b1: "retrieve b ?n = Some b1" "content b1 = drop ?n D"
      using retrieve_ok [OF assms(2), of ?n] True c0 by auto
    let ?h2 = "(createC2S2 w h1 (drop 1 (peek b)))\<lparr>hs_state := kHandShakePostS0S1\<rparr>"
    have r: "r = 0" "h' = sendC1S1 w ?h2" "b' = b1"
      using assms(3) True al(1) c off b1(1) c0(2) by (simp_all add: handshake_def Let_def)
    have "hs_state (sendC1S1 w ?h2) \<in> {kHandShakePostS0S1, kHandShakePostS2, kHandShakeWaitC2}"
      using True assms(1) cf by (intro server_send(2)) (simp_all add: server_ok_def)
    moreover have "C1S1 h' = C1S1 h" using cf by (simp add: r(2) sendC1S1_def)
    moreover have "take 8 (drop 1 (peek b)) = take 8 (drop 1 (take ?n D))"
      using True by (simp add: pk kRtmpHandShakePacketSize_def min_def)
    then have "C2S2 h' = second_packet w (take ?n D)"
      using ck createC2S2_cong [of "drop 1 (peek b)" "drop 1 (take ?n D)"]
      by (simp add: r(2) sendC1S1_def second_packet_def)
    ultimately show ?thesis
      using True r(1,3) b1(2) unfolding r(2) by (auto simp: consumed_def)
  next
    case False
    show ?thesis
    proof (cases "hs_state h = kHandShakeWaitC2 \<and> 2 * kRtmpHandShakePacketSize + 1 \<le> length D")
      case True
      then have "kRtmpHandShakePacketSize \<le> readableBytes b" using len by (simp add: consumed_def) linarith
      moreover from retrieve_ok [OF assms(2) this] obtain b1
        where b1: "retrieve b kRtmpHandShakePacketSize = Some b1"
          "content b1 = drop kRtmpHandShakePacketSize (content b)" by blast
      ultimately have "r = 0 \<and> h' = h\<lparr>hs_state := kHandShakeDone\<rparr> \<and> b' = b1"
        using assms(3) al(1) True by (simp add: handshake_def checkC2S2_def)
      moreover have "C2S2 h = second_packet w (take ?n D)" using assms(6) True by simp
      ultimately show ?thesis
        using True b1(2) assms(4,5) by (simp add: consumed_def mult_2 add.commute)
    next
      case no: False
      have "hs_state h = kHandShakeWaitC0C1 \<Longrightarrow> readableBytes b < ?n"
        using False len by (simp add: consumed_def)
      moreover have "hs_state h = kHandShakeWaitC2 \<Longrightarrow> readableBytes b < kRtmpHandShakePacketSize"
        using no len by (simp add: consumed_def kRtmpHandShakePacketSize_def)
      ultimately have "(r = 0 \<or> r = 1) \<and> h' = h \<and> b' = b"
        using assms(3) al(1) st by (auto simp: handshake_def)
      with False no assms(4-6) show ?thesis by auto
    qed
  qed
qed

lemma session_message_ok:
  assumes "epoll_laws ctl" and "srv_ok ctl s" and "willing s" and "\<And>k d. length (hmac w k d) = kDigestLength"
    and "has_received w s D"
    and "kRtmpHandShakePacketSize + 1 \<le> length D \<Longrightarrow> valid_C0C1 w (take (kRtmpHandShakePacketSize + 1) D)"
  shows "\<exists>s'. session_message w s t = Inr s' \<and> srv_ok ctl s' \<and> willing s' \<and> has_received w s' D
     \<and> (hs_state (hs s) = kHandShakeWaitC0C1 \<longrightarrow>
          (hs_state (hs s') = kHandShakeWaitC0C1) = (length D < kRtmpHandShakePacketSize + 1) \<and> hs_state (hs s') \<noteq> kHandShakeDone)
     \<and> (hs_state (hs s) \<noteq> kHandShakeWaitC0C1 \<longrightarrow> hs_state (hs s') =
          (if hs_state (hs s) = kHandShakeWaitC2 \<and> 2 * kRtmpHandShakePacketSize + 1 \<le> length D then kHandShakeDone
           else hs_state (hs s)))
     \<and> (\<exists>k r. handshake (w\<lparr>completes := k\<rparr>) (session_abs s) (message_buffer (tcp s))
           = Some (r, session_abs s', message_buffer (tcp s')))"
proof -
  obtain r s1 k where h: "session_handshake w (hold s) = Some (r, s1)"
      "handshake (w\<lparr>completes := k\<rparr>) (session_abs s) (message_buffer (tcp s)) = Some (r, session_abs s1, message_buffer (tcp s1))"
      "r \<noteq> -1 \<longrightarrow> srv_ok ctl s1 \<and> willing s1"
    using session_handshake_ok [OF assms(1), of "hold s" w] assms(2-4) by (simp only: hold_simps) blast
  note ok = srv_okD [OF assms(2)]
  note hr = assms(5) [unfolded has_received_abs, THEN conjunct1]
    assms(5) [unfolded has_received_abs, THEN conjunct2, THEN conjunct1]
    assms(5) [unfolded has_received_abs, THEN conjunct2, THEN conjunct2, THEN conjunct1]
    assms(5) [unfolded has_received_abs, THEN conjunct2, THEN conjunct2, THEN conjunct2]
  note p = handshake_progress [OF ok(3,2) h(2) hr(1), unfolded completes_frame completes_start second_packet_completes,
      OF hr(2,4) assms(6) [unfolded valid_C0C1_def]]
  have p': "(r = 0 \<or> r = 1) \<and> has_received w s1 D
     \<and> (hs_state (hs s) = kHandShakeWaitC0C1 \<longrightarrow>
          (hs_state (hs s1) = kHandShakeWaitC0C1) = (length D < kRtmpHandShakePacketSize + 1) \<and> hs_state (hs s1) \<noteq> kHandShakeDone)
     \<and> (hs_state (hs s) \<noteq> kHandShakeWaitC0C1 \<longrightarrow> hs_state (hs s1) =
          (if hs_state (hs s) = kHandShakeWaitC2 \<and> 2 * kRtmpHandShakePacketSize + 1 \<le> length D then kHandShakeDone
           else hs_state (hs s)))"
    using p hr(3) unfolding has_received_abs session_abs_simps by argo
  then have "session_message w s t = Inr (unhold s1)" "srv_ok ctl s1 \<and> willing s1"
    using h(1,3) by (auto simp: session_message_def)
  moreover have "has_received w (unhold s1) D = has_received w s1 D" by (simp add: has_received_abs)
  ultimately show ?thesis
    using p' h(2) by (intro exI [of _ "unhold s1"]) (simp, blast)
qed

lemma take_prefix: "n \<le> length a \<Longrightarrow> take n (a @ b) = take n a"
  by simp

text \<open>One turn of the read loop, on data that is there.\<close>

lemma session_readv_open:
  "getFd (lp c) (event_id c) \<noteq> -1 \<Longrightarrow> session_readv c = sys_readv (reads c)"
  by (simp add: session_readv_def)

lemma srv_frame [simp]:
  "srv_ok ctl (s\<lparr>tcp := (tcp s)\<lparr>message_buffer := b, reads := rs, seen := sn\<rparr>\<rparr>)
     \<longleftrightarrow> srv_ok ctl s \<and> buf_ok b" if "buf_ok (message_buffer (tcp s))"
  using that by (auto simp: srv_ok_def session_ok_def session_abs_def queued_watched_def)

lemma willing_frame [simp]:
  "willing (s\<lparr>tcp := (tcp s)\<lparr>message_buffer := b, reads := rs, seen := sn\<rparr>\<rparr>) = willing s"
  by (simp add: willing_def budget_def)

lemma sys_readv_turn:
  assumes "rs = map Inr (d # ds)" and "[] \<notin> set (d # ds)" and "0 < n"
  shows "\<exists>ds2. sys_readv rs n = Inr (take n d) \<and> (ds = [] \<longrightarrow> length d \<le> n \<longrightarrow> ds2 = []) \<and> 0 < length (take n d) \<and> after_readv rs n = map Inr ds2
     \<and> take n d @ concat ds2 = concat (d # ds) \<and> [] \<notin> set ds2 \<and> avail (map Inr ds2) < avail rs"
  using assms
  by (intro exI [of _ "if length d \<le> n then ds else drop n d # ds"])
    (auto simp: sys_readv_def after_readv_def avail_def)

lemma session_turn:
  assumes "srv_ok ctl s" and "has_received w s D" and "reads (tcp s) = map Inr (d # ds)" and "[] \<notin> set (d # ds)"
  obtains s2 a ds2 where
    "session_onRead_loop w s t = (case session_message w s2 t of Inl e \<Rightarrow> Inl e
       | Inr s3 \<Rightarrow> if kept_alive (tcp s3) then session_onRead_loop w s3 t else Inl UseAfterFree)"
    and "srv_ok ctl s2" and "has_received w s2 (D @ a)" and "willing s2 = willing s" and "hs s2 = hs s"
    and "session_abs s2 = session_abs s" and "content (message_buffer (tcp s2)) = content (message_buffer (tcp s)) @ a"
    and "reads (tcp s2) = map Inr ds2" and "a @ concat ds2 = concat (d # ds)" and "[] \<notin> set ds2"
    and "avail (map Inr ds2) < avail (map Inr (d # ds))"
    and "ds = [] \<longrightarrow> length d \<le> readFd_space (message_buffer (tcp s)) \<longrightarrow> ds2 = []"
    and "close_cb (tcp s2) = close_cb (tcp s)" and "holders (tcp s2) = holders (tcp s)"
    and "owner (lp (tcp s2)) = owner (lp (tcp s))"
proof -
  let ?c = "tcp s" and ?b = "message_buffer (tcp s)"
  let ?n = "readFd_space ?b"
  note ok = srv_okD [OF assms(1)]
  note rv = session_readv_open [OF session_okD(4) [OF ok(1)]]
  from sys_readv_turn [OF assms(3,4) readFd_space_pos [of ?b]]
  obtain ds2 where d: "sys_readv (reads ?c) ?n = Inr (take ?n d)" "0 < length (take ?n d)"
      "after_readv (reads ?c) ?n = map Inr ds2" "take ?n d @ concat ds2 = concat (d # ds)" "[] \<notin> set ds2"
      "avail (map Inr ds2) < avail (map Inr (d # ds))" "ds = [] \<longrightarrow> length d \<le> ?n \<longrightarrow> ds2 = []"
    using assms(3) by auto
  obtain b where b: "readFd (session_readv ?c) ?b = Some (int (length (take ?n d)), None, b)"
      "buf_ok b" "content b = content ?b @ take ?n d"
    using readFd_data [of ?b "sys_readv (reads ?c)" "take ?n d"] d(1) ok(2) by (auto simp: rv)
  let ?s2 = "s\<lparr>tcp := ?c\<lparr>message_buffer := b, reads := map Inr ds2, seen := seen ?c @ [content b]\<rparr>\<rparr>"
  have "session_onRead_loop w s t = (case session_message w ?s2 t of Inl e \<Rightarrow> Inl e
       | Inr s3 \<Rightarrow> if kept_alive (tcp s3) then session_onRead_loop w s3 t else Inl UseAfterFree)"
    using d(2,3) by (simp add: session_onRead_loop.simps [of w s] b(1) Let_def)
  moreover have "srv_ok ctl ?s2" using assms(1) ok(2) b(2) by simp
  moreover have "has_received w ?s2 (D @ take ?n d)"
    using has_received_more [OF assms(2), of ?s2 "take ?n d"] b(3) by simp
  ultimately show thesis using d(4-7) b(3) by (intro that [of ?s2 "take ?n d" ds2]) simp_all
qed

text \<open>
  What the handshake sees of its connection: some bytes come in and \<open>handshake\<close> is called, or the
  output is complete. Which of its own sends are written at once is the connection's choice.
\<close>

inductive hs_call :: "world \<Rightarrow> rtmp_handshake \<times> msgbuffer \<Rightarrow> rtmp_handshake \<times> msgbuffer \<Rightarrow> bool"
  for w where
  message: "content b1 = content b @ d \<Longrightarrow> handshake (w\<lparr>completes := k\<rparr>) h b1 = Some (r, h', b')
     \<Longrightarrow> hs_call w (h, b) (h', b')"
| drained: "hs_call w (h, b) (drain (w\<lparr>completes := k\<rparr>) h, b)"

definition hs_calls :: "world \<Rightarrow> rtmp_session \<Rightarrow> rtmp_session \<Rightarrow> bool" where
  "hs_calls w s s' \<longleftrightarrow> (hs_call w)\<^sup>*\<^sup>* (session_abs s, message_buffer (tcp s)) (session_abs s', message_buffer (tcp s'))"

lemma hs_calls_refl: "session_abs s' = session_abs s \<Longrightarrow> message_buffer (tcp s') = message_buffer (tcp s) \<Longrightarrow> hs_calls w s s'"
  by (simp add: hs_calls_def)

lemma hs_calls_trans: "hs_calls w s1 s2 \<Longrightarrow> hs_calls w s2 s3 \<Longrightarrow> hs_calls w s1 s3"
  by (simp add: hs_calls_def)

lemma hs_calls_message:
  assumes "session_abs s1 = session_abs s" and "content (message_buffer (tcp s1)) = content (message_buffer (tcp s)) @ d"
    and "handshake (w\<lparr>completes := k\<rparr>) (session_abs s1) (message_buffer (tcp s1)) = Some (r, session_abs s', message_buffer (tcp s'))"
  shows "hs_calls w s s'"
  unfolding hs_calls_def using hs_call.message [OF assms(2,3)] assms(1) by simp

lemma hs_calls_drained:
  assumes "session_abs s' = drain (w\<lparr>completes := k\<rparr>) (session_abs s)"
    and "message_buffer (tcp s') = message_buffer (tcp s)"
  shows "hs_calls w s s'"
  unfolding hs_calls_def using hs_call.drained [of w "session_abs s" "message_buffer (tcp s)" k] assms by simp

text \<open>
  \<open>onRead\<close> takes in all data that is there, however the reads cut it.
\<close>

lemma session_onRead_loop_ok:
  assumes laws: "epoll_laws ctl" and mac: "\<And>k d. length (hmac w k d) = kDigestLength"
    and "srv_ok ctl s" and "willing s" and "has_received w s D"
    and "reads (tcp s) = map Inr ds" and "[] \<notin> set ds"
    and "kRtmpHandShakePacketSize + 1 \<le> length (D @ concat ds) \<Longrightarrow>
      valid_C0C1 w (take (kRtmpHandShakePacketSize + 1) (D @ concat ds))"
  shows "\<exists>s'. session_onRead_loop w s t = Inr s' \<and> srv_ok ctl s' \<and> willing s' \<and> has_received w s' (D @ concat ds)
     \<and> reads (tcp s') = [] \<and> hs_calls w s s'
     \<and> (ds = [] \<longrightarrow> hs_state (hs s') = hs_state (hs s))
     \<and> (length ds = 1 \<longrightarrow> length (concat ds) \<le> readFd_space (message_buffer (tcp s)) \<longrightarrow>
          hs_state (hs s) = kHandShakeWaitC0C1 \<longrightarrow> hs_state (hs s') \<noteq> kHandShakeDone)
     \<and> (ds \<noteq> [] \<longrightarrow> hs_state (hs s) = kHandShakeWaitC0C1 \<longrightarrow>
          (hs_state (hs s') = kHandShakeWaitC0C1) = (length (D @ concat ds) < kRtmpHandShakePacketSize + 1))
     \<and> (ds \<noteq> [] \<longrightarrow> hs_state (hs s) \<noteq> kHandShakeWaitC0C1 \<longrightarrow> hs_state (hs s') =
          (if hs_state (hs s) = kHandShakeWaitC2 \<and> 2 * kRtmpHandShakePacketSize + 1 \<le> length (D @ concat ds)
           then kHandShakeDone else hs_state (hs s)))"
  using assms(3-)
proof (induction "avail (map Inr ds)" arbitrary: s D ds rule: less_induct)
  case less
  let ?c = "tcp s" and ?b = "message_buffer (tcp s)"
  let ?n = "readFd_space ?b"
  note ok = srv_okD [OF less.prems(1)]
  note rv = session_readv_open [OF session_okD(4) [OF ok(1)]]
  show ?case
  proof (cases ds)
    case Nil
    then have r: "readFd (session_readv ?c) ?b = Some (-1, Some EAGAIN, ?b)"
      using less.prems(4) by (simp add: rv readFd_def sys_readv_def)
    let ?s1 = "s\<lparr>tcp := ?c\<lparr>message_buffer := ?b, reads := []\<rparr>\<rparr>"
    have "session_onRead_loop w s t = Inr ?s1"
      using Nil less.prems(4) by (simp add: session_onRead_loop.simps [of w s] r retryable_def after_readv_def)
    moreover have "srv_ok ctl ?s1" "willing ?s1" "has_received w ?s1 D"
      using srv_frame [OF ok(2), where ctl = ctl and b = ?b and rs = "[]" and sn = "seen ?c"] less.prems(1-3) ok(2)
      by (simp_all add: willing_def budget_def has_received_def)
    moreover have "hs_calls w s ?s1" by (rule hs_calls_refl) simp_all
    ultimately show ?thesis using Nil by simp
  next
    case (Cons d ds')
    show ?thesis
    proof (cases rule: session_turn [OF less.prems(1,3) less.prems(4,5) [unfolded Cons], where t = t])
      case (1 s2 a ds2)
      note s2 = 1(1-3,5-7)
      have will: "willing s2" using 1(4) less.prems(2) by simp
      note d = 1(8-12) [folded Cons]
      let ?D = "D @ a"
      have all: "?D @ concat ds2 = D @ concat ds" using d(2) by simp
      have "valid_C0C1 w (take (kRtmpHandShakePacketSize + 1) ?D)" if "kRtmpHandShakePacketSize + 1 \<le> length ?D"
      proof -
        have "take (kRtmpHandShakePacketSize + 1) (D @ concat ds) = take (kRtmpHandShakePacketSize + 1) ?D"
          unfolding all [symmetric] using that by (subst take_append) simp
        moreover have "kRtmpHandShakePacketSize + 1 \<le> length (D @ concat ds)"
          unfolding all [symmetric] using that by simp
        ultimately show ?thesis using less.prems(6) by simp
    qed
    from session_message_ok [OF laws s2(2) will mac s2(3) this, of t] obtain s3 where s3:
        "session_message w s2 t = Inr s3" "srv_ok ctl s3" "willing s3" "has_received w s3 ?D"
        "hs_state (hs s) = kHandShakeWaitC0C1 \<longrightarrow>
          (hs_state (hs s3) = kHandShakeWaitC0C1) = (length ?D < kRtmpHandShakePacketSize + 1) \<and> hs_state (hs s3) \<noteq> kHandShakeDone"
        "hs_state (hs s) \<noteq> kHandShakeWaitC0C1 \<longrightarrow> hs_state (hs s3) =
          (if hs_state (hs s) = kHandShakeWaitC2 \<and> 2 * kRtmpHandShakePacketSize + 1 \<le> length ?D then kHandShakeDone
           else hs_state (hs s))"
        "\<exists>k r. handshake (w\<lparr>completes := k\<rparr>) (session_abs s2) (message_buffer (tcp s2))
           = Some (r, session_abs s3, message_buffer (tcp s3))"
      unfolding s2(4) by blast
    have ref: "hs_calls w s s3"
      using s3(7) s2(5,6) hs_calls_message [where w = w and ?s1.0 = s2 and s = s and d = a] by auto
    have rd: "reads (tcp s3) = map Inr ds2" using session_message_reads [OF s3(1)] d(1) by simp
    have step: "session_onRead_loop w s t = session_onRead_loop w s3 t"
      using s2(1) s3(1) session_okD(8) [OF srv_okD(1) [OF s3(2)]] by simp
    from less.hyps [OF d(4) s3(2-4) rd d(3), unfolded all] less.prems(6) obtain s' where s':
        "session_onRead_loop w s3 t = Inr s'" "srv_ok ctl s'" "willing s'" "has_received w s' (D @ concat ds)"
        "reads (tcp s') = [] \<and> hs_calls w s3 s'"
        "ds2 = [] \<longrightarrow> hs_state (hs s') = hs_state (hs s3)"
        "ds2 \<noteq> [] \<longrightarrow> hs_state (hs s3) = kHandShakeWaitC0C1 \<longrightarrow>
          (hs_state (hs s') = kHandShakeWaitC0C1) = (length (D @ concat ds) < kRtmpHandShakePacketSize + 1)"
        "ds2 \<noteq> [] \<longrightarrow> hs_state (hs s3) \<noteq> kHandShakeWaitC0C1 \<longrightarrow> hs_state (hs s') =
          (if hs_state (hs s3) = kHandShakeWaitC2 \<and> 2 * kRtmpHandShakePacketSize + 1 \<le> length (D @ concat ds)
           then kHandShakeDone else hs_state (hs s3))" by blast
    have len: "length ?D \<le> length (D @ concat ds)" "ds2 = [] \<Longrightarrow> length ?D = length (D @ concat ds)"
      unfolding all [symmetric] by simp_all
    have "hs_state (hs s) = kHandShakeWaitC0C1 \<longrightarrow>
          (hs_state (hs s') = kHandShakeWaitC0C1) = (length (D @ concat ds) < kRtmpHandShakePacketSize + 1)"
      using s3(5) s'(6-8) len by (cases "ds2 = []") (auto split: if_splits)
    moreover have "hs_state (hs s) \<noteq> kHandShakeWaitC0C1 \<longrightarrow> hs_state (hs s') =
          (if hs_state (hs s) = kHandShakeWaitC2 \<and> 2 * kRtmpHandShakePacketSize + 1 \<le> length (D @ concat ds)
           then kHandShakeDone else hs_state (hs s))"
      using s3(6) s'(6-8) len by (cases "ds2 = []") (auto split: if_splits)
    moreover have "hs_state (hs s') \<noteq> kHandShakeDone"
      if "length ds = 1" "length (concat ds) \<le> ?n" "hs_state (hs s) = kHandShakeWaitC0C1"
      using that d(5) Cons s3(5) s'(6) by simp
    ultimately show ?thesis
      using Cons step s'(1-5) hs_calls_trans [OF ref] by simp
    qed
  qed
qed

end
