(* ===== verification/RtmpServer.thy ===== *)
theory RtmpServer
  imports RtmpSession
begin

text \<open>
  The RTMP server of \<open>src/mmedia/tests/RtmpServer.cpp\<close> from the accept of a connection on: the
  events of the connection, what it answers whatever they are, and what its callbacks
  do to a peer that does not follow the protocol.
\<close>

subsection \<open>A session from the accept on\<close>

text \<open>
  The events of a connection. A readable socket has \<open>ds\<close> waiting, cut as the reads cut it; \<open>ws\<close>
  says how many bytes the kernel takes of each write that the handler makes. What a handler does
  not use of its \<open>ws\<close> is dropped.
\<close>

datatype session_event = Readable "bytes list" "io_result list" | Writable "io_result list"

fun session_do :: "world \<Rightarrow> nat \<Rightarrow> session_event \<Rightarrow> rtmp_session \<Rightarrow> conn_error + rtmp_session" where
  "session_do w t (Readable ds ws) s =
     session_onRead w (s\<lparr>tcp := (tcp s)\<lparr>reads := map Inr ds, writes := ws\<rparr>\<rparr>) t"
| "session_do w t (Writable ws) s = session_onWrite (s\<lparr>tcp := (tcp s)\<lparr>writes := ws\<rparr>\<rparr>) t"

fun session_run :: "world \<Rightarrow> nat \<Rightarrow> session_event list \<Rightarrow> rtmp_session \<Rightarrow> conn_error + rtmp_session" where
  "session_run w t [] s = Inr s"
| "session_run w t (e # es) s =
     (case session_do w t e s of Inl x \<Rightarrow> Inl x | Inr s' \<Rightarrow> session_run w t es s')"

fun event_input :: "session_event \<Rightarrow> bytes" where
  "event_input (Readable ds ws) = concat ds"
| "event_input (Writable ws) = []"

definition input :: "session_event list \<Rightarrow> bytes" where
  "input es = concat (map event_input es)"

text \<open>
  The peer does not close, and the kernel takes something of each of the next \<open>n\<close> writes. A handler
  sends at most twice, and no more than 3073 bytes are ever queued.
\<close>

definition takes_some :: "nat \<Rightarrow> io_result list \<Rightarrow> bool" where
  "takes_some n ws \<longleftrightarrow> n \<le> length ws \<and> list_all (\<lambda>r. is_Wrote r \<and> r \<noteq> Wrote 0) ws"

fun event_ok :: "session_event \<Rightarrow> bool" where
  "event_ok (Readable ds ws) = ([] \<notin> set ds \<and> takes_some 2 ws)"
| "event_ok (Writable ws) = takes_some 3075 ws"

text \<open>A session in order that has received \<open>D\<close>.\<close>

definition serving :: "(kernel \<Rightarrow> syscall \<Rightarrow> kernel) \<Rightarrow> world \<Rightarrow> rtmp_session \<Rightarrow> bytes \<Rightarrow> bool" where
  "serving ctl w s D \<longleftrightarrow> srv_ok ctl s \<and> has_received w s D
     \<and> (hs_state (hs s) = kHandShakeWaitC0C1 \<longrightarrow> length D < kRtmpHandShakePacketSize + 1)"

lemma servingD:
  assumes "serving ctl w s D"
  shows "session_ok ctl s" and "server_ok (session_abs s)"
  using assms by (simp_all add: serving_def srv_ok_def)

lemma room_for_enough:
  assumes "n + k \<le> length ws" and "list_all (\<lambda>r. is_Wrote r \<and> r \<noteq> Wrote 0) ws" and "0 < n"
  shows "\<exists>rs. room_for n ws = Some rs \<and> list_all is_Wrote rs \<and> k \<le> length rs"
  using assms
proof (induction n ws rule: room_for.induct)
  case (3 n j rs)
  then show ?case
    by (cases "n \<le> j") (auto simp: list_all_iff)
qed (auto simp: is_Wrote_def)

lemma writable_willing:
  assumes "srv_ok ctl s" and "event_ok (Writable ws)"
  shows "onWrite_willing (s\<lparr>tcp := (tcp s)\<lparr>writes := ws\<rparr>\<rparr>)"
proof -
  let ?n = "length (gather (memory (tcp s)) (io_vec_list (tcp s)))"
  note so = session_okD [OF srv_okD(1) [OF assms(1)]]
  have "?n \<le> length (concat (sent (hs s)))" by (simp flip: so(5))
  also have "\<dots> \<le> 3073"
    using server_sent [OF srv_okD(3) [OF assms(1)]] array_lengths [OF srv_okD(1) [OF assms(1)]]
    by (auto simp: kRtmpHandShakePacketSize_def)
  finally have n: "?n + 2 \<le> length ws" using assms(2) by (simp add: takes_some_def)
  show ?thesis
  proof (cases "io_vec_list (tcp s) = []")
    case True
    then show ?thesis using assms(2) n by (auto simp: onWrite_willing_def takes_some_def list_all_iff)
  next
    case False
    then have "0 < ?n" using gather_Nil_iff [OF so(3)] by simp
    from room_for_enough [OF n _ this] assms(2) show ?thesis
      using False by (auto simp: onWrite_willing_def takes_some_def)
  qed
qed

text \<open>
  A loop, run by thread \<open>t\<close>, that can take a new connection \<open>ev\<close> on the descriptor \<open>f\<close>, and two
  arrays of the handshake's size that do not overlap.
\<close>

definition can_accept ::
    "(kernel \<Rightarrow> syscall \<Rightarrow> kernel) \<Rightarrow> event_loop \<Rightarrow> nat \<Rightarrow> nat \<Rightarrow> int \<Rightarrow> addr \<Rightarrow> addr \<Rightarrow> bool" where
  "can_accept ctl l t ev f a1 a2 \<longleftrightarrow>
     reg_inv ctl l \<and> tw_inv (timing l) \<and> (\<forall>g. events l g \<noteq> Some ev) \<and> events l f = None \<and> 0 \<le> f
   \<and> t = owner l \<and> apart a1 (kRtmpHandShakePacketSize + 1) a2 kRtmpHandShakePacketSize"

lemma session_accept_ok:
  assumes "epoll_laws ctl" and "can_accept ctl l t ev f a1 a2" and "\<And>k d. length (hmac w k d) = kDigestLength"
  shows "\<exists>s. session_accept w l t fresh ev f m a1 a2 = Inr s \<and> serving ctl w s []
     \<and> session_abs s = start w (new_RtmpHandShake False) \<and> message_buffer (tcp s) = new_MsgBuffer kInitialSize
     \<and> close_cb (tcp s) \<and> holders (tcp s) = 0 \<and> owner (lp (tcp s)) = t"
proof -
  have a: "reg_inv ctl l" "tw_inv (timing l)" "\<forall>g. events l g \<noteq> Some ev" "events l f = None" "0 \<le> f" "t = owner l"
      "apart a1 (kRtmpHandShakePacketSize + 1) a2 kRtmpHandShakePacketSize"
    using assms(2) by (simp_all add: can_accept_def)
  obtain c where c: "onAccept l t fresh ev f m [] [] = Inr c" "idle_left c (Entry (next_id (timing l)) (Idle ev)) 30 30"
      "lp c = (addEvent (new_Event l ev f) ev)\<lparr>timing := insertEntry ((timing l)\<lparr>next_id := Suc (next_id (timing l))\<rparr>) 30
         (Entry (next_id (timing l)) (Idle ev))\<rparr>"
      "event_id c = ev" "in_server c" "io_vec_list c = []" "wire c = []"
      "message_buffer c = new_MsgBuffer kInitialSize" "close_cb c" "holders c = 0"
    using onAccept_ok [OF a(2,4,6), of fresh ev m "[]" "[]"] by blast
  let ?h = "createC1S1 w (new_RtmpHandShake False)"
  let ?s = "\<lparr>tcp = c, hs = new_RtmpHandShake False, c1_at = a1, c2_at = a2\<rparr>"
  let ?s' = "set_state (put_hs ?s ?h) kHandShakeWaitC0C1"
  have s: "session_accept w l t fresh ev f m a1 a2 = Inr ?s'"
    using c(1) by (simp add: session_accept_def session_start_def Let_def) (simp add: new_RtmpHandShake_def)
  have "reg_inv ctl (addEvent (new_Event l ev f) ev)"
    using addEvent_reg [OF assms(1) new_Event_reg [OF a(1,3)]] a(3,5) by simp
  moreover have fd: "getFd (addEvent (new_Event l ev f) ev) ev = f"
    using a(4) by (simp add: addEvent_def getFd_def Let_def new_Event_def)
  moreover have "registered (lp c) ev" using c(2,4) by (simp add: idle_left_def)
  ultimately have q: "queued_watched ctl c" "getFd (lp c) ev \<noteq> -1"
    using a(5) c(3,4,6) by (simp_all add: queued_watched_def)
  have len: "length (C1S1 ?h) = kRtmpHandShakePacketSize + 1"
    using createC1S1_shape(1) [OF _ assms(3)] by (simp add: new_RtmpHandShake_def)
  have new: "C2S2 ?h = replicate kRtmpHandShakePacketSize 0" "sent ?h = []" "is_complex_handshake ?h"
    by (simp_all add: createC1S1_def new_RtmpHandShake_def Let_def)
  have "session_ok ctl (put_hs ?s ?h)"
    using c(2,4,6,7) q len new a(7) by (intro put_hs_arrays) (simp_all add: idle_left_def)
  moreover have abs: "session_abs ?s' = start w (new_RtmpHandShake False)"
    using c(6) new(2) by (simp add: session_abs_def start_def Let_def) (simp add: new_RtmpHandShake_def createC1S1_def Let_def)
  ultimately have "srv_ok ctl ?s'"
    using server_start_ok [of w] c(8) a(7) by (simp add: srv_ok_def)
  moreover have "has_received w ?s' []"
    using c(8) new(3) abs by (simp add: has_received_def consumed_def first_packet_def)
  moreover have "owner (lp c) = t" using c(3) a(6) by simp
  ultimately show ?thesis
    using s abs c(8-10) by (simp add: serving_def kRtmpHandShakePacketSize_def) (simp add: put_hs_def)
qed

lemma reads_writes_frame [simp]:
  "session_ok ctl (s\<lparr>tcp := (tcp s)\<lparr>writes := ws\<rparr>\<rparr>) = session_ok ctl s"
  "srv_ok ctl (s\<lparr>tcp := (tcp s)\<lparr>reads := rs, writes := ws\<rparr>\<rparr>) = srv_ok ctl s"
  "srv_ok ctl (s\<lparr>tcp := (tcp s)\<lparr>writes := ws\<rparr>\<rparr>) = srv_ok ctl s"
  by (simp_all add: srv_ok_def) (simp_all add: session_ok_def queued_watched_def)

lemma extend_session_frame [simp]:
  "srv_ok ctl (extend_session s) = srv_ok ctl s" "hs (extend_session s) = hs s"
  "session_abs (extend_session s) = session_abs s" "willing (extend_session s) = willing s"
  "message_buffer (tcp (extend_session s)) = message_buffer (tcp s)"
  "reads (tcp (extend_session s)) = reads (tcp s)"
proof -
  have "lp (extendLife (tcp s)) = (lp (tcp s))\<lparr>timing := timing (lp (extendLife (tcp s)))\<rparr>"
    by (simp add: extendLife_def split: option.splits)
  then obtain tw where tw: "lp (extendLife (tcp s)) = (lp (tcp s))\<lparr>timing := tw\<rparr>" by blast
  show abs: "session_abs (extend_session s) = session_abs s" by (simp add: extend_session_def)
  show "srv_ok ctl (extend_session s) = srv_ok ctl s"
    using abs by (simp add: srv_ok_def session_ok_def extend_session_def queued_watched_def registered_def
        watches_write_def tw)
qed (simp_all add: extend_session_def willing_def budget_def)

text \<open>A readable event: the session takes all the data in.\<close>

lemma session_readable_ok:
  assumes "epoll_laws ctl" and "\<And>k d. length (hmac w k d) = kDigestLength"
    and "serving ctl w s D" and "event_ok (Readable ds ws)"
    and "kRtmpHandShakePacketSize + 1 \<le> length (D @ concat ds) \<Longrightarrow>
      valid_C0C1 w (take (kRtmpHandShakePacketSize + 1) (D @ concat ds))"
  shows "\<exists>s'. session_do w t (Readable ds ws) s = Inr s' \<and> serving ctl w s' (D @ concat ds) \<and> hs_calls w s s'
     \<and> (hs_state (hs s) \<noteq> kHandShakeWaitC0C1 \<longrightarrow> hs_state (hs s') =
          (if ds \<noteq> [] \<and> hs_state (hs s) = kHandShakeWaitC2
             \<and> 2 * kRtmpHandShakePacketSize + 1 \<le> length (D @ concat ds)
           then kHandShakeDone else hs_state (hs s)))
     \<and> (length ds = 1 \<longrightarrow> length (concat ds) \<le> readFd_space (message_buffer (tcp s)) \<longrightarrow>
          hs_state (hs s) = kHandShakeWaitC0C1 \<longrightarrow> hs_state (hs s') \<noteq> kHandShakeDone)"
proof -
  have sv: "srv_ok ctl s" "has_received w s D"
      "hs_state (hs s) = kHandShakeWaitC0C1 \<longrightarrow> length D < kRtmpHandShakePacketSize + 1"
    using assms(3) by (simp_all add: serving_def)
  let ?s = "s\<lparr>tcp := (tcp s)\<lparr>reads := map Inr ds, writes := ws\<rparr>\<rparr>"
  let ?e = "extend_session ?s"
  have "\<not> closed (tcp s)" using session_okD(2) [OF srv_okD(1) [OF sv(1)]] .
  then have "session_do w t (Readable ds ws) s = session_onRead_loop w ?e t"
    by (simp add: session_onRead_def)
  moreover have "srv_ok ctl ?e" "reads (tcp ?e) = map Inr ds" using sv(1) by simp_all
  moreover have "willing ?s"
    using assms(4) by (auto simp: willing_def budget_def takes_some_def list_all_iff)
  then have "willing ?e" by (simp only: extend_session_frame)
  moreover have "hs_calls w ?e s' \<Longrightarrow> hs_calls w s s'" for s'
    by (rule hs_calls_trans [OF hs_calls_refl]) simp_all
  moreover have "has_received w ?e D" using has_received_more [OF sv(2), of ?e "[]"] by simp
  ultimately show ?thesis
    using session_onRead_loop_ok [of ctl w ?e D ds t] assms sv(3)
    by (cases "ds = []") (auto simp: serving_def)
qed

text \<open>A writable event: the queue goes out, and the next packet is sent.\<close>

lemma server_drain:
  assumes "server_ok h"
  shows "hs_state h = kHandShakeWaitC0C1 \<Longrightarrow> drain w h = h"
    and "hs_state h \<in> {kHandShakeWaitC2, kHandShakeDone} \<Longrightarrow> hs_state (drain w h) = hs_state h"
    and "hs_state h = kHandShakePostS2 \<Longrightarrow> hs_state (drain w h) = kHandShakeWaitC2"
    and "hs_state h = kHandShakePostS0S1 \<Longrightarrow> hs_state (drain w h) \<in> {kHandShakePostS2, kHandShakeWaitC2}"
  using assms by (auto simp: server_ok_def drain_def conn_send.simps writeComplete_cases Let_def)

lemma session_writable_ok:
  assumes "epoll_laws ctl" and "serving ctl w s D" and "event_ok (Writable ws)"
  shows "\<exists>s'. session_do w t (Writable ws) s = Inr s' \<and> serving ctl w s' D
     \<and> (\<exists>k. session_abs s' = drain (w\<lparr>completes := k\<rparr>) (session_abs s))
     \<and> message_buffer (tcp s') = message_buffer (tcp s)"
proof -
  have sv: "srv_ok ctl s" "has_received w s D"
      "hs_state (hs s) = kHandShakeWaitC0C1 \<longrightarrow> length D < kRtmpHandShakePacketSize + 1"
    using assms(2) by (simp_all add: serving_def)
  let ?s = "s\<lparr>tcp := (tcp s)\<lparr>writes := ws\<rparr>\<rparr>"
  have "srv_ok ctl ?s" using sv(1) by simp
  from session_onWrite_ok [OF assms(1) this writable_willing [OF sv(1) assms(3)], of t w] obtain s' k where
      s': "session_do w t (Writable ws) s = Inr s'" "srv_ok ctl s'"
        "session_abs s' = drain (w\<lparr>completes := k\<rparr>) (session_abs s)"
        "message_buffer (tcp s') = message_buffer (tcp s)" by auto
  note ok = srv_okD(3) [OF sv(1)]
  note d = server_drain [OF ok, of "w\<lparr>completes := k\<rparr>", folded s'(3)]
  have "consumed (hs_state (hs s')) = consumed (hs_state (hs s))
      \<and> (hs_state (hs s') = kHandShakeWaitC0C1 \<longleftrightarrow> hs_state (hs s) = kHandShakeWaitC0C1)"
    using d(2-4) d(1) [THEN arg_cong, of hs_state] ok
    by (cases "hs_state (hs s)") (auto simp: consumed_def server_ok_def)
  note st = this [THEN conjunct1] this [THEN conjunct2]
  have "C1S1 (session_abs s') = C1S1 (session_abs s)" "C2S2 (session_abs s') = C2S2 (session_abs s)"
    by (simp_all add: s'(3) drain_def)
  then have "has_received w s' D"
    using sv(2) st d(1) s'(4) by (simp add: has_received_def)
  then show ?thesis using s' sv(3) st by (auto simp: serving_def)
qed

text \<open>Any sequence of events.\<close>

lemma session_run_ok:
  assumes "epoll_laws ctl" and "\<And>k d. length (hmac w k d) = kDigestLength"
    and "serving ctl w s D" and "list_all event_ok es"
    and "kRtmpHandShakePacketSize + 1 \<le> length (D @ input es) \<Longrightarrow>
      valid_C0C1 w (take (kRtmpHandShakePacketSize + 1) (D @ input es))"
  shows "\<exists>s'. session_run w t es s = Inr s' \<and> serving ctl w s' (D @ input es) \<and> hs_calls w s s'"
  using assms(3-5)
proof (induction es arbitrary: s D)
  case Nil
  then show ?case by (simp add: input_def hs_calls_refl)
next
  case (Cons e es)
  have in': "(D @ event_input e) @ input es = D @ input (e # es)" by (simp add: input_def)
  have v: "valid_C0C1 w (take (kRtmpHandShakePacketSize + 1) (D @ event_input e))"
    if "kRtmpHandShakePacketSize + 1 \<le> length (D @ event_input e)"
    using Cons.prems(3) that unfolding in' [symmetric] by (simp add: take_prefix)
  have ev: "event_ok e" "list_all event_ok es" using Cons.prems(2) by simp_all
  obtain s1 where s1: "session_do w t e s = Inr s1" "serving ctl w s1 (D @ event_input e)" "hs_calls w s s1"
  proof (cases e)
    case (Readable ds ws)
    then show thesis
      using session_readable_ok [OF assms(1,2) Cons.prems(1), of ds ws t] ev(1) v that by auto
  next
    case (Writable ws)
    then obtain s' k where "session_do w t e s = Inr s'" "serving ctl w s' D"
        "session_abs s' = drain (w\<lparr>completes := k\<rparr>) (session_abs s)" "message_buffer (tcp s') = message_buffer (tcp s)"
      using session_writable_ok [OF assms(1) Cons.prems(1), of ws t] ev(1) by auto
    with Writable show thesis using hs_calls_drained that by simp
  qed
  from Cons.IH [OF s1(2) ev(2), unfolded in', OF Cons.prems(3)] obtain s' where
      "session_run w t es s1 = Inr s'" "serving ctl w s' (D @ input (e # es))" "hs_calls w s1 s'" by blast
  with s1(1,3) show ?case using hs_calls_trans by auto
qed

lemma session_run_append:
  "session_run w t (es @ fs) s = (case session_run w t es s of Inl x \<Rightarrow> Inl x | Inr s' \<Rightarrow> session_run w t fs s')"
  by (induction es arbitrary: s) (simp_all split: sum.splits)

subsection \<open>A packet that is refused\<close>

text \<open>The callback closes the connection, and lets go of its last owner when it returns.\<close>

lemma session_message_short:
  assumes "hs_state (hs s) = kHandShakeWaitC0C1" and "readableBytes (message_buffer (tcp s)) < kRtmpHandShakePacketSize + 1"
  shows "session_message w s t = Inr s"
proof -
  have "kept_alive (tcp (hold s))" by (simp add: kept_alive_def hold_def)
  moreover have "unhold (hold s) = s" by (simp add: hold_def unhold_def)
  ultimately show ?thesis
    using assms by (simp add: session_message_def session_handshake_def Let_def)
qed

lemma session_message_refused:
  assumes "epoll_laws ctl" and "srv_ok ctl s" and "has_received w s D" and "hs_state (hs s) = kHandShakeWaitC0C1"
    and "kRtmpHandShakePacketSize + 1 \<le> length D" and "\<not> valid_C0C1 w (take (kRtmpHandShakePacketSize + 1) D)"
    and "close_cb (tcp s)" and "holders (tcp s) = 0" and "t = owner (lp (tcp s))"
  shows "\<exists>s'. session_message w s t = Inr s' \<and> \<not> kept_alive (tcp s')"
proof -
  let ?n = "kRtmpHandShakePacketSize + 1" and ?b = "message_buffer (tcp s)"
  note ok = srv_okD [OF assms(2)]
  note so = session_okD [OF ok(1)]
  have D: "content ?b = D" and st: "session_abs s = start w (new_RtmpHandShake False)"
    using assms(3,4) by (simp_all add: has_received_def consumed_def)
  have rd: "\<not> readableBytes ?b < ?n" using length_content [of ?b] ok(2) D assms(5) by simp
  obtain x where "peek ?b = D @ x" using content_peek [OF ok(2)] D by blast
  then have pk: "peek ?b = take ?n D @ (drop ?n D @ x)" by simp
  have "is_complex_handshake (hs s)" "\<not> is_client (hs s)"
    using arg_cong [OF st, of is_complex_handshake] ok(3) server_started(4)
    by (simp_all add: session_abs_def server_ok_def)
  then have "fst (checkC1S1 w (hs s) (take ?n D) ?n) < 0"
    using assms(6) checkC1S1_new [of "hs s" w "take ?n D" ?n] by (simp add: valid_C0C1_def)
  moreover have "checkC1S1 w (hs s) (peek ?b) ?n = checkC1S1 w (hs s) (take ?n D) ?n"
    using checkC1S1_prefix [of "take ?n D" w "hs s" "drop ?n D @ x" ?n] assms(5) pk by simp
  ultimately obtain off h1 where c: "checkC1S1 w (hs s) (peek ?b) ?n = (off, h1)" "off < 0"
    by (cases "checkC1S1 w (hs s) (peek ?b) ?n") simp
  let ?s1 = "(hold s)\<lparr>hs := h1\<rparr>"
  have h: "session_handshake w (hold s) = Some (-1, ?s1)"
    using c rd assms(4) by (simp add: session_handshake_def kept_alive_def Let_def) (simp add: hold_def)
  have r: "reg_inv ctl (lp (tcp s))" "registered (lp (tcp s)) (event_id (tcp s))"
    using so(1) by (simp_all add: queued_watched_def)
  note f = forget_event [OF assms(1) r]
  let ?c = "tcp ?s1"
  have fc: "forceClose ?c t (0, 0) = Inr (?c\<lparr>in_server := False, destroyed_cb := Suc (destroyed_cb ?c), closed := True,
      lp := close_event (removeEvent (lp ?c) (event_id ?c)) (event_id ?c)\<rparr>)"
    using onClose_held [of ?c t] so(2) assms(7,9) by (simp add: forceClose_def isInLoopThread_def hold_def)
  have "\<not> registered (close_event (removeEvent (lp (tcp s)) (event_id (tcp s))) (event_id (tcp s))) (event_id (tcp s))"
    unfolding registered_def f(2,3) using reg_invD(3) [OF r(1), of "-1" "event_id (tcp s)"] so(4)
    by (auto simp: getFd_def)
  then show ?thesis
    using h fc assms(8)
    by (simp add: session_message_def) (simp add: kept_alive_def unhold_def hold_def)
qed

lemma session_onRead_loop_refused:
  assumes "epoll_laws ctl" and "srv_ok ctl s" and "has_received w s D" and "hs_state (hs s) = kHandShakeWaitC0C1"
    and "length D < kRtmpHandShakePacketSize + 1" and "kRtmpHandShakePacketSize + 1 \<le> length (D @ concat ds)"
    and "\<not> valid_C0C1 w (take (kRtmpHandShakePacketSize + 1) (D @ concat ds))"
    and "reads (tcp s) = map Inr ds" and "[] \<notin> set ds"
    and "close_cb (tcp s)" and "holders (tcp s) = 0" and "t = owner (lp (tcp s))"
  shows "session_onRead_loop w s t = Inl UseAfterFree"
  using assms(2-)
proof (induction "avail (map Inr ds)" arbitrary: s D ds rule: less_induct)
  case less
  let ?n = "kRtmpHandShakePacketSize + 1"
  obtain d ds' where ds: "ds = d # ds'"
    using less.prems(4,5) by (cases ds) auto
  show ?case
  proof (cases rule: session_turn [OF less.prems(1,2) less.prems(7,8) [unfolded ds], where t = t])
    case (1 s2 a ds2)
    note s2 = 1(1-3)
    note d = 1(8-11) [folded ds]
    have st: "hs_state (hs s2) = kHandShakeWaitC0C1" "close_cb (tcp s2)" "holders (tcp s2) = 0" "t = owner (lp (tcp s2))"
      using 1(5,13-15) less.prems(3,9-11) by simp_all
    have all: "(D @ a) @ concat ds2 = D @ concat ds" using d(2) by simp
    show ?thesis
    proof (cases "?n \<le> length (D @ a)")
      case True
      then have "\<not> valid_C0C1 w (take ?n (D @ a))"
        using less.prems(6) unfolding all [symmetric] by (simp add: take_prefix)
      from session_message_refused [OF assms(1) s2(2,3) st(1) True this st(2-4)] s2(1) show ?thesis by auto
    next
      case False
      have "content (message_buffer (tcp s2)) = D @ a"
        using s2(3) st(1) by (simp add: has_received_def consumed_def)
      then have "readableBytes (message_buffer (tcp s2)) < ?n"
        using False length_content [of "message_buffer (tcp s2)"] srv_okD(2) [OF s2(2)] by simp
      then have "session_onRead_loop w s t = session_onRead_loop w s2 t"
        using s2(1) session_message_short [OF st(1)] session_okD(8) [OF srv_okD(1) [OF s2(2)]] by simp
      also have "\<dots> = Inl UseAfterFree"
        using less.hyps [OF d(4) s2(2,3) st(1) _ _ _ d(1,3) st(2-4), unfolded all] less.prems(5,6) False by simp
      finally show ?thesis .
    qed
  qed
qed

subsection \<open>Properties\<close>

definition session_serve ::
    "world \<Rightarrow> event_loop \<Rightarrow> nat \<Rightarrow> nat \<times> int \<Rightarrow> nat \<Rightarrow> int \<Rightarrow> (addr \<Rightarrow> byte) \<Rightarrow> addr \<Rightarrow> addr
       \<Rightarrow> session_event list \<Rightarrow> conn_error + rtmp_session" where
  "session_serve w l t fresh ev f m a1 a2 es =
     (case session_accept w l t fresh ev f m a1 a2 of Inl x \<Rightarrow> Inl x | Inr s \<Rightarrow> session_run w t es s)"

definition sent_bytes :: "rtmp_session \<Rightarrow> bytes" where
  "sent_bytes s = wire (tcp s) @ gather (memory (tcp s)) (io_vec_list (tcp s))"

lemma session_serve_ok:
  assumes "epoll_laws ctl" and "can_accept ctl l t ev f a1 a2" and "\<And>k d. length (hmac w k d) = kDigestLength"
    and "list_all event_ok es"
    and "kRtmpHandShakePacketSize + 1 \<le> length (input es) \<Longrightarrow>
      valid_C0C1 w (take (kRtmpHandShakePacketSize + 1) (input es))"
  shows "\<exists>s. session_serve w l t fresh ev f m a1 a2 es = Inr s \<and> serving ctl w s (input es)
     \<and> (hs_call w)\<^sup>*\<^sup>* (start w (new_RtmpHandShake False), new_MsgBuffer kInitialSize) (session_abs s, message_buffer (tcp s))"
proof -
  obtain s0 where s0: "session_accept w l t fresh ev f m a1 a2 = Inr s0" "serving ctl w s0 []"
      "session_abs s0 = start w (new_RtmpHandShake False)" "message_buffer (tcp s0) = new_MsgBuffer kInitialSize"
    using session_accept_ok [OF assms(1-3), of fresh m] by blast
  with session_run_ok [OF assms(1,3) s0(2) assms(4), of t] assms(5) show ?thesis
    by (auto simp: session_serve_def hs_calls_def)
qed

text \<open>What a session in order has sent, in terms of what it has received.\<close>

lemma serving_sent:
  assumes "serving ctl w s D"
  shows "length D < kRtmpHandShakePacketSize + 1 \<Longrightarrow> hs_state (hs s) = kHandShakeWaitC0C1 \<and> sent_bytes s = []"
    and "kRtmpHandShakePacketSize + 1 \<le> length D \<Longrightarrow>
      sent_bytes s \<in> {first_packet w, first_packet w @ second_packet w (take (kRtmpHandShakePacketSize + 1) D)}
      \<and> (io_vec_list (tcp s) = [] \<longrightarrow> hs_state (hs s) \<in> {kHandShakeWaitC2, kHandShakeDone}
          \<and> wire (tcp s) = first_packet w @ second_packet w (take (kRtmpHandShakePacketSize + 1) D))"
    and "hs_state (hs s) = kHandShakeDone \<Longrightarrow> io_vec_list (tcp s) = []"
proof -
  have sv: "srv_ok ctl s" "has_received w s D"
      "hs_state (hs s) = kHandShakeWaitC0C1 \<longrightarrow> length D < kRtmpHandShakePacketSize + 1"
    using assms by (simp_all add: serving_def)
  note ok = srv_okD(3) [OF sv(1)]
  have out: "sent_bytes s = concat (sent (hs s))" using session_okD(5) [OF srv_okD(1) [OF sv(1)]] by (simp add: sent_bytes_def)
  have long: "kRtmpHandShakePacketSize + 1 \<le> length D" if "hs_state (hs s) \<noteq> kHandShakeWaitC0C1"
    using sv(2) that by (cases "hs_state (hs s)") (simp_all add: has_received_def consumed_def)
  show "hs_state (hs s) = kHandShakeWaitC0C1 \<and> sent_bytes s = []" if "length D < kRtmpHandShakePacketSize + 1"
  proof -
    have "hs_state (hs s) = kHandShakeWaitC0C1" using that long by fastforce
    then show ?thesis using ok by (simp add: out server_ok_def)
  qed
  show "sent_bytes s \<in> {first_packet w, first_packet w @ second_packet w (take (kRtmpHandShakePacketSize + 1) D)}
      \<and> (io_vec_list (tcp s) = [] \<longrightarrow> hs_state (hs s) \<in> {kHandShakeWaitC2, kHandShakeDone}
          \<and> wire (tcp s) = first_packet w @ second_packet w (take (kRtmpHandShakePacketSize + 1) D))"
    if "kRtmpHandShakePacketSize + 1 \<le> length D"
  proof -
    have st: "hs_state (hs s) \<noteq> kHandShakeWaitC0C1" using that sv(3) by auto
    then have pk: "C1S1 (hs s) = first_packet w" "C2S2 (hs s) = second_packet w (take (kRtmpHandShakePacketSize + 1) D)"
      using sv(2) by (simp_all add: has_received_def)
    have "io_vec_list (tcp s) = [] \<Longrightarrow> sent_bytes s = wire (tcp s)" by (simp add: sent_bytes_def)
    then show ?thesis
      using ok st pk out by (cases "hs_state (hs s)") (simp_all add: server_ok_def)
  qed
  show "hs_state (hs s) = kHandShakeDone \<Longrightarrow> io_vec_list (tcp s) = []"
    using ok by (simp add: server_ok_def)
qed

text \<open>
  C6. A server's connection answers the handshake and nothing else. Let the first 1537 bytes of the peer, once they are
  there, be an acceptable C0C1, and let the kernel take at least one byte of each write, never refusing one. Then however the
  peer's bytes are cut and however few bytes the kernel takes of each write: the connection stays open, nothing is sent before
  the 1537 bytes of C0C1 are there, then S0S1 and after it S2 are written or queued, in that order
  and once, and when the queue is empty both are on the wire. The input buffer holds what was received and
  not used.
\<close>

theorem rtmp_server_answers:
  assumes "epoll_laws ctl" and "can_accept ctl l t ev f a1 a2" and "\<And>k d. length (hmac w k d) = kDigestLength"
    and "list_all event_ok es" and "D = input es"
    and "kRtmpHandShakePacketSize + 1 \<le> length D \<Longrightarrow> valid_C0C1 w (take (kRtmpHandShakePacketSize + 1) D)"
  defines "S0S1 \<equiv> first_packet w" and "S2 \<equiv> second_packet w (take (kRtmpHandShakePacketSize + 1) D)"
  shows "\<exists>s. session_serve w l t fresh ev f m a1 a2 es = Inr s \<and> \<not> closed (tcp s)
     \<and> content (message_buffer (tcp s)) = drop (consumed (hs_state (hs s))) D
     \<and> (length D < 1537 \<longrightarrow> hs_state (hs s) = kHandShakeWaitC0C1 \<and> sent_bytes s = [])
     \<and> (1537 \<le> length D \<longrightarrow> sent_bytes s \<in> {S0S1, S0S1 @ S2}
          \<and> (io_vec_list (tcp s) = [] \<longrightarrow> hs_state (hs s) \<in> {kHandShakeWaitC2, kHandShakeDone} \<and> wire (tcp s) = S0S1 @ S2))"
proof -
  have n: "kRtmpHandShakePacketSize + 1 = 1537" by (simp add: kRtmpHandShakePacketSize_def)
  obtain s where s: "session_serve w l t fresh ev f m a1 a2 es = Inr s" "serving ctl w s D"
    using session_serve_ok [OF assms(1-4)] assms(5,6) by blast
  moreover have "\<not> closed (tcp s)" "content (message_buffer (tcp s)) = drop (consumed (hs_state (hs s))) D"
    using s(2) session_okD(2) srv_okD(1) by (auto simp: serving_def has_received_def)
  ultimately show ?thesis
    using serving_sent(1,2) [OF s(2)] unfolding n S0S1_def S2_def by blast
qed

text \<open>A loop that can accept, an acceptable C0C1, and a kernel that takes one byte at a time.\<close>

definition one_by_one :: "io_result list" where
  "one_by_one = replicate 3075 (Wrote 1)"

lemma one_by_one: "takes_some 3075 one_by_one"
  by (simp add: one_by_one_def takes_some_def is_Wrote_def list_all_iff)

lemma sample_can_accept: "can_accept sample_ctl sample_loop 1 0 6 4096 0"
proof -
  have "1536 \<le> unat (4096 + of_nat i - 0 :: 64 word)" if "i < 1537" for i
  proof -
    have "(4096 + of_nat i :: 64 word) = of_nat (4096 + i)" by simp
    then show ?thesis using that by (simp only: unat_of_nat diff_zero) simp
  qed
  then show ?thesis
    by (simp add: can_accept_def sample_loop new_TimingWheel_inv apart_def kRtmpHandShakePacketSize_def)
qed

lemma sample_C0C1: "length sample_C0C1 = 1537" "valid_C0C1 sample_world sample_C0C1" "[] \<noteq> sample_C0C1"
proof -
  have c: "is_complex_handshake (new_RtmpHandShake b)" "is_client (new_RtmpHandShake b) = b" for b
    by (simp_all add: new_RtmpHandShake_def)
  show len: "length sample_C0C1 = 1537"
    using createC1S1_shape(1) [OF c(1) sample_hmac] by (simp add: sample_C0C1_def kRtmpHandShakePacketSize_def)
  show "[] \<noteq> sample_C0C1" using len by (metis list.size(3) zero_neq_numeral)
  show "valid_C0C1 sample_world sample_C0C1"
    using createC1S1_accepted [of "new_RtmpHandShake True" "new_RtmpHandShake False" sample_world sample_world] c sample_hmac
    by (simp add: valid_C0C1_def sample_C0C1_def)
qed

theorem rtmp_server_answers_witness:
  "\<exists>s. session_serve sample_world sample_loop 1 (9, 9) 0 6 ucast 4096 0
      [Readable [take 700 sample_C0C1, drop 700 sample_C0C1] [Wrote 9, Wrote 9], Writable one_by_one] = Inr s
     \<and> \<not> closed (tcp s) \<and> sent_bytes s \<noteq> []"
proof -
  let ?es = "[Readable [take 700 sample_C0C1, drop 700 sample_C0C1] [Wrote 9, Wrote 9], Writable one_by_one]"
  have i: "input ?es = sample_C0C1" by (simp add: input_def)
  have f: "first_packet sample_world \<noteq> []"
    using createC1S1_shape(1) [where w = sample_world and h = "new_RtmpHandShake False", OF _ sample_hmac]
    by (auto simp: first_packet_def new_RtmpHandShake_def)
  have "list_all event_ok ?es" "take 1537 sample_C0C1 = sample_C0C1"
    using sample_C0C1(1) one_by_one by (auto simp: takes_some_def is_Wrote_def)
  with rtmp_server_answers [OF sample_ctl_laws sample_can_accept sample_hmac, of ?es sample_C0C1 "(9, 9)" ucast]
  show ?thesis
    using sample_C0C1 f by (auto simp: i kRtmpHandShakePacketSize_def)
qed

lemma session_serve_append:
  "session_serve w l t fresh ev f m a1 a2 (es @ fs) =
     (case session_serve w l t fresh ev f m a1 a2 es of Inl x \<Rightarrow> Inl x | Inr s \<Rightarrow> session_run w t fs s)"
  by (simp add: session_serve_def session_run_append split: sum.splits)

lemma two_writables:
  assumes "epoll_laws ctl" and "serving ctl w s D" and "kRtmpHandShakePacketSize + 1 \<le> length D"
    and "event_ok (Writable ws1)" and "event_ok (Writable ws2)"
  shows "\<exists>s'. session_run w t [Writable ws1, Writable ws2] s = Inr s' \<and> serving ctl w s' D
     \<and> hs_state (hs s') \<in> {kHandShakeWaitC2, kHandShakeDone}"
proof -
  obtain s1 k1 where s1: "session_do w t (Writable ws1) s = Inr s1" "serving ctl w s1 D"
      "session_abs s1 = drain (w\<lparr>completes := k1\<rparr>) (session_abs s)"
    using session_writable_ok [OF assms(1,2,4)] by blast
  obtain s2 k2 where s2: "session_do w t (Writable ws2) s1 = Inr s2" "serving ctl w s2 D"
      "session_abs s2 = drain (w\<lparr>completes := k2\<rparr>) (session_abs s1)"
    using session_writable_ok [OF assms(1) s1(2) assms(5)] by blast
  have ok: "server_ok (session_abs s)" "server_ok (session_abs s1)"
    using servingD(2) assms(2) s1(2) by blast+
  have "hs_state (hs s) \<noteq> kHandShakeWaitC0C1" using assms(2,3) by (auto simp: serving_def)
  then have "hs_state (session_abs s1) \<in> {kHandShakePostS2, kHandShakeWaitC2, kHandShakeDone}"
    using server_drain(2-4) [OF ok(1), of "w\<lparr>completes := k1\<rparr>", folded s1(3)] ok(1)
    by (cases "hs_state (hs s)") (auto simp: server_ok_def)
  then have "hs_state (session_abs s2) \<in> {kHandShakeWaitC2, kHandShakeDone}"
    using server_drain(2,3) [OF ok(2), of "w\<lparr>completes := k2\<rparr>", folded s2(3)] by auto
  then show ?thesis using s1(1) s2(1,2) by simp
qed

text \<open>
  C5. The handshake ends. When C0C1 has come, whatever else happened, two writable events, in
  which the kernel takes as little as a byte at a time, and one more piece of input with which C2 is complete
  finish it, with S0S1 and S2 written and the rest of the input left in the buffer.
\<close>

theorem rtmp_server_finishes:
  assumes "epoll_laws ctl" and "can_accept ctl l t ev f a1 a2" and "\<And>k d. length (hmac w k d) = kDigestLength"
    and "list_all event_ok (es @ [Writable ws1, Writable ws2, Readable ds ws3])" and "ds \<noteq> []"
    and "kRtmpHandShakePacketSize + 1 \<le> length (input es)" and "D = input es @ concat ds"
    and "2 * kRtmpHandShakePacketSize + 1 \<le> length D" and "valid_C0C1 w (take (kRtmpHandShakePacketSize + 1) D)"
  shows "\<exists>s. session_serve w l t fresh ev f m a1 a2 (es @ [Writable ws1, Writable ws2, Readable ds ws3]) = Inr s
     \<and> hs_state (hs s) = kHandShakeDone \<and> \<not> closed (tcp s) \<and> io_vec_list (tcp s) = []
     \<and> wire (tcp s) = first_packet w @ second_packet w (take (kRtmpHandShakePacketSize + 1) D)
     \<and> content (message_buffer (tcp s)) = drop (2 * kRtmpHandShakePacketSize + 1) D"
proof -
  let ?n = "kRtmpHandShakePacketSize + 1"
  have ev: "list_all event_ok es" "event_ok (Writable ws1)" "event_ok (Writable ws2)" "event_ok (Readable ds ws3)"
    using assms(4) by simp_all
  have v: "valid_C0C1 w (take ?n (input es))" using assms(6,7,9) by (simp add: take_prefix)
  obtain s1 where s1: "session_serve w l t fresh ev f m a1 a2 es = Inr s1" "serving ctl w s1 (input es)"
    using session_serve_ok [OF assms(1-3) ev(1)] v by blast
  obtain s2 where s2: "session_run w t [Writable ws1, Writable ws2] s1 = Inr s2" "serving ctl w s2 (input es)"
      "hs_state (hs s2) \<in> {kHandShakeWaitC2, kHandShakeDone}"
    using two_writables [OF assms(1) s1(2) assms(6) ev(2,3)] by blast
  obtain s3 where s3: "session_do w t (Readable ds ws3) s2 = Inr s3" "serving ctl w s3 D" "hs_state (hs s3) = kHandShakeDone"
    using session_readable_ok [OF assms(1,3) s2(2) ev(4), of t] s2(3) assms(5,7-9) by auto
  have "session_run w t ([Writable ws1, Writable ws2] @ [Readable ds ws3]) s1 = Inr s3"
    unfolding session_run_append s2(1) using s3(1) by simp
  then have r: "session_serve w l t fresh ev f m a1 a2 (es @ [Writable ws1, Writable ws2, Readable ds ws3]) = Inr s3"
    by (simp add: session_serve_append s1(1))
  have q: "io_vec_list (tcp s3) = []" by (rule serving_sent(3) [OF s3(2,3)])
  have "?n \<le> length D" using assms(6,7) by simp
  from serving_sent(2) [OF s3(2) this] q
  have "wire (tcp s3) = first_packet w @ second_packet w (take ?n D)" by blast
  moreover have "content (message_buffer (tcp s3)) = drop (2 * kRtmpHandShakePacketSize + 1) D" "\<not> closed (tcp s3)"
    using s3(2,3) session_okD(2) srv_okD(1) by (auto simp: serving_def has_received_def consumed_def)
  ultimately show ?thesis using r q s3(3) by blast
qed

theorem rtmp_server_finishes_witness:
  "\<exists>s. session_serve sample_world sample_loop 1 (9, 9) 0 6 ucast 4096 0
      ([Readable [sample_C0C1] [Wrote 9, Wrote 9]]
        @ [Writable one_by_one, Writable one_by_one, Readable [replicate 1536 0, [7]] [Wrote 1, Wrote 1]]) = Inr s
     \<and> hs_state (hs s) = kHandShakeDone \<and> content (message_buffer (tcp s)) = [7]"
proof -
  from rtmp_server_finishes [OF sample_ctl_laws sample_can_accept sample_hmac,
      of "[Readable [sample_C0C1] [Wrote 9, Wrote 9]]" one_by_one one_by_one "[replicate 1536 0, [7]]" "[Wrote 1, Wrote 1]"
        "sample_C0C1 @ replicate 1536 0 @ [7]" "(9, 9)" ucast]
  show ?thesis
    using sample_C0C1 one_by_one by (auto simp: input_def takes_some_def is_Wrote_def kRtmpHandShakePacketSize_def)
qed

text \<open>
  C7. The real connection drives the handshake as its own model has it, for a peer whose C0C1 is
  acceptable and a kernel that takes at least one byte of each write: whatever the events, what the
  session does to the handshake and its input buffer is a sequence of calls of \<open>handshake\<close>, each
  after some bytes came in, and of write-complete callbacks, from the state that \<open>start\<close> leaves;
  and the packets the handshake has sent are the bytes written and queued.
\<close>

theorem rtmp_server_refines_handshake:
  assumes "epoll_laws ctl" and "can_accept ctl l t ev f a1 a2" and "\<And>k d. length (hmac w k d) = kDigestLength"
    and "list_all event_ok es"
    and "kRtmpHandShakePacketSize + 1 \<le> length (input es) \<Longrightarrow>
      valid_C0C1 w (take (kRtmpHandShakePacketSize + 1) (input es))"
  shows "\<exists>s. session_serve w l t fresh ev f m a1 a2 es = Inr s \<and> concat (sent (hs s)) = sent_bytes s
     \<and> (hs_call w)\<^sup>*\<^sup>* (start w (new_RtmpHandShake False), new_MsgBuffer kInitialSize)
         ((hs s)\<lparr>alive := True, pending := io_vec_list (tcp s) \<noteq> []\<rparr>, message_buffer (tcp s))"
proof -
  obtain s where s: "session_serve w l t fresh ev f m a1 a2 es = Inr s" "serving ctl w s (input es)"
      "(hs_call w)\<^sup>*\<^sup>* (start w (new_RtmpHandShake False), new_MsgBuffer kInitialSize) (session_abs s, message_buffer (tcp s))"
    using session_serve_ok [OF assms(1-4)] assms(5) by blast
  moreover have "concat (sent (hs s)) = sent_bytes s"
    using session_okD(5) [OF servingD(1) [OF s(2)]] by (simp add: sent_bytes_def)
  ultimately show ?thesis unfolding session_abs_def by blast
qed

theorem rtmp_server_refines_handshake_witness:
  "\<exists>s. session_serve sample_world sample_loop 1 (9, 9) 0 6 ucast 4096 0 [Readable [[3], [1, 2]] [Wrote 9, Wrote 9]] = Inr s
     \<and> concat (sent (hs s)) = sent_bytes s"
proof -
  from rtmp_server_refines_handshake [OF sample_ctl_laws sample_can_accept sample_hmac,
      of "[Readable [[3], [1, 2]] [Wrote 9, Wrote 9]]" "(9, 9)" ucast]
  show ?thesis by (auto simp: input_def takes_some_def is_Wrote_def kRtmpHandShakePacketSize_def)
qed

text \<open>
  C39. A peer that sends anything but a handshake makes the server use freed memory. When 1537 bytes that are
  not an acceptable C0C1 have come, in any pieces, the message callback closes the connection, which takes it out
  of the server and the loop, and the callback's argument was its last owner: \<open>TcpConnection::onRead\<close>
  goes on reading into the destroyed object.
\<close>

theorem refused_peer_uses_freed_object:
  assumes "epoll_laws ctl" and "can_accept ctl l t ev f a1 a2" and "\<And>k d. length (hmac w k d) = kDigestLength"
    and "[] \<notin> set ds" and "kRtmpHandShakePacketSize + 1 \<le> length (concat ds)"
    and "\<not> valid_C0C1 w (take (kRtmpHandShakePacketSize + 1) (concat ds))"
  shows "session_serve w l t fresh ev f m a1 a2 [Readable ds ws] = Inl UseAfterFree"
proof -
  obtain s where s: "session_accept w l t fresh ev f m a1 a2 = Inr s" "serving ctl w s []"
      "close_cb (tcp s)" "holders (tcp s) = 0" "owner (lp (tcp s)) = t"
    using session_accept_ok [OF assms(1-3), of fresh m] by blast
  have sv: "srv_ok ctl s" "has_received w s []" using s(2) by (simp_all add: serving_def)
  have st: "hs_state (hs s) = kHandShakeWaitC0C1" using serving_sent(1) [OF s(2)] by simp
  let ?e = "extend_session (s\<lparr>tcp := (tcp s)\<lparr>reads := map Inr ds, writes := ws\<rparr>\<rparr>)"
  have "\<not> closed (tcp s)" using session_okD(2) [OF srv_okD(1) [OF sv(1)]] .
  moreover have "session_onRead_loop w ?e t = Inl UseAfterFree"
  proof (rule session_onRead_loop_refused [OF assms(1), where D = "[]" and ds = ds])
    show "has_received w ?e []" using has_received_more [OF sv(2), of ?e "[]"] by simp
    show "close_cb (tcp ?e)" "holders (tcp ?e) = 0" "t = owner (lp (tcp ?e))"
      using s(3-5) by (auto simp: extend_session_def extendLife_def split: option.splits)
  qed (use sv(1) st assms(4-6) in simp_all)
  ultimately show ?thesis using s(1) by (simp add: session_serve_def session_onRead_def)
qed

theorem refused_peer_uses_freed_object_witness:
  "session_serve sample_world sample_loop 1 (9, 9) 0 6 ucast 4096 0 [Readable [replicate 1537 0] []] = Inl UseAfterFree"
proof -
  have "take 1537 (replicate 1537 0) = (replicate 1537 0 :: bytes)" by simp
  moreover have "\<not> valid_C0C1 sample_world (replicate 1537 0)"
    by (simp add: valid_C0C1_def checkC1S1_def kRtmpVersion_def kRtmpHandShakePacketSize_def)
  ultimately show ?thesis
    using refused_peer_uses_freed_object [OF sample_ctl_laws sample_can_accept sample_hmac, of "[replicate 1537 0]" "(9, 9)" ucast "[]"]
    by (simp add: kRtmpHandShakePacketSize_def)
qed

text \<open>
  A peer that does not wait is kept waiting: when C0C1 and C2 arrive in one piece, \<open>handshake\<close> is called
  once, for C0C1, and no completed write calls it again. With everything received and sent, the C2 stays
  in the buffer and the handshake never ends by itself.
\<close>

theorem pipelined_C2_not_looked_at:
  assumes "epoll_laws ctl" and "can_accept ctl l t ev f a1 a2" and "\<And>k d. length (hmac w k d) = kDigestLength"
    and "list_all event_ok (Readable [d] ws # map Writable wss)"
    and "2 * kRtmpHandShakePacketSize + 1 \<le> length d" and "length d \<le> 65536"
    and "valid_C0C1 w (take (kRtmpHandShakePacketSize + 1) d)"
  shows "\<exists>s. session_serve w l t fresh ev f m a1 a2 (Readable [d] ws # map Writable wss) = Inr s
     \<and> hs_state (hs s) \<noteq> kHandShakeDone \<and> content (message_buffer (tcp s)) = drop (kRtmpHandShakePacketSize + 1) d
     \<and> kRtmpHandShakePacketSize \<le> readableBytes (message_buffer (tcp s))"
proof -
  have ev: "event_ok (Readable [d] ws)" "list_all (event_ok \<circ> Writable) wss"
    using assms(4) by (simp_all add: list.pred_map)
  obtain s0 where s0: "session_accept w l t fresh ev f m a1 a2 = Inr s0" "serving ctl w s0 []"
    using session_accept_ok [OF assms(1-3), of fresh m] by blast
  have st: "hs_state (hs s0) = kHandShakeWaitC0C1" using serving_sent(1) [OF s0(2)] by simp
  have sp: "length d \<le> readFd_space b" for b
    using assms(6) by (simp add: readFd_space_def extrabuf_size_def)
  obtain s1 where s1: "session_do w t (Readable [d] ws) s0 = Inr s1" "serving ctl w s1 d"
      "hs_state (hs s1) \<noteq> kHandShakeDone"
    using session_readable_ok [OF assms(1,3) s0(2) ev(1), of t] assms(7) st sp by auto
  have "\<exists>s. session_run w t (map Writable wss) s1 = Inr s \<and> serving ctl w s d \<and> hs_state (hs s) \<noteq> kHandShakeDone"
    using s1(2,3) ev(2)
  proof (induction wss arbitrary: s1)
    case (Cons v vs)
    obtain s2 k where s2: "session_do w t (Writable v) s1 = Inr s2" "serving ctl w s2 d"
        "session_abs s2 = drain (w\<lparr>completes := k\<rparr>) (session_abs s1)"
      using session_writable_ok [OF assms(1) Cons.prems(1), of v t] Cons.prems(3) by auto
    note ok = servingD(2) [OF Cons.prems(1)]
    note dr = server_drain [OF ok, of "w\<lparr>completes := k\<rparr>", folded s2(3)]
    have "hs_state (hs s2) \<noteq> kHandShakeDone"
      using dr(2-4) dr(1) [THEN arg_cong, of hs_state] ok Cons.prems(2)
      by (cases "hs_state (hs s1)") (auto simp: server_ok_def)
    with Cons.IH [OF s2(2)] s2(1) Cons.prems(3) show ?case by simp
  qed simp
  then obtain s where s: "session_run w t (map Writable wss) s1 = Inr s" "serving ctl w s d"
      "hs_state (hs s) \<noteq> kHandShakeDone" by blast
  have sv: "has_received w s d" "hs_state (hs s) \<noteq> kHandShakeWaitC0C1" "buf_ok (message_buffer (tcp s))"
    using s(2) assms(5) srv_okD(2) by (auto simp: serving_def)
  have "content (message_buffer (tcp s)) = drop (kRtmpHandShakePacketSize + 1) d"
    using sv(1,2) s(3) by (cases "hs_state (hs s)") (simp_all add: has_received_def consumed_def)
  moreover from this have "kRtmpHandShakePacketSize \<le> readableBytes (message_buffer (tcp s))"
    using length_content [of "message_buffer (tcp s)"] sv(3) assms(5) by simp
  ultimately show ?thesis using s s0(1) s1(1) by (simp add: session_serve_def)
qed

lemma pipelined_C2_not_looked_at_witness:
  "\<exists>s. session_serve sample_world sample_loop 1 (9, 9) 0 6 ucast 4096 0
      (Readable [sample_C0C1 @ replicate 1536 0] [Wrote 9, Wrote 9] # map Writable [one_by_one, one_by_one]) = Inr s
     \<and> hs_state (hs s) \<noteq> kHandShakeDone \<and> content (message_buffer (tcp s)) = replicate 1536 0"
proof -
  from pipelined_C2_not_looked_at [OF sample_ctl_laws sample_can_accept sample_hmac,
      of "sample_C0C1 @ replicate 1536 0" "[Wrote 9, Wrote 9]" "[one_by_one, one_by_one]" "(9, 9)" ucast]
  show ?thesis
    using sample_C0C1(1,2) one_by_one by (auto simp: takes_some_def is_Wrote_def kRtmpHandShakePacketSize_def)
qed

end
