(* ===== verification/ServerLoop.thy ===== *)
theory ServerLoop
  imports TcpServer
begin

text \<open>
  A server under its event loop: the rounds of \<open>EventLoop::loop\<close> with the real handlers behind the
  table, those of the acceptor, of the connections and of the wake-up pipe, the closures other
  threads queued, and the wheel whose entries close idle connections.
\<close>

subsection \<open>Handlers\<close>

text \<open>
  What the user of the server chooses: \<open>on_message\<close> is what the message callback does to the input
  buffer, \<open>keeps\<close> how many shared pointers the callback for new connections stores, \<open>closures\<close>
  what a queued user closure does to a connection. The rest is what the sockets need.
\<close>

record server_program =
  p_lib :: inet_lib
  p_flags :: u32
  p_old4 :: u32
  p_old6 :: "128 word"
  p_fresh :: "nat \<times> int"
  p_memory :: "addr \<Rightarrow> byte"
  on_message :: "msgbuffer \<Rightarrow> msgbuffer"
  keeps :: "nat \<Rightarrow> nat"
  closures :: "nat \<Rightarrow> (nat \<times> closure) option"

text \<open>What the kernel answers to the calls of one handler.\<close>

record answer =
  to_reads :: "(int + bytes) list"
  to_writes :: "io_result list"
  to_accepts :: "(int + int \<times> sockaddr) list"
  to_sockets :: "int list"

definition with_answer :: "answer \<Rightarrow> tcp_connection \<Rightarrow> tcp_connection" where
  "with_answer a c = c\<lparr>reads := to_reads a, writes := to_writes a\<rparr>"

fun conn_event :: "server_program \<Rightarrow> nat \<Rightarrow> answer \<Rightarrow> callback \<Rightarrow> tcp_connection \<Rightarrow> conn_error + tcp_connection" where
  "conn_event p t a OnRead c = onRead (on_message p) (with_answer a c) t"
| "conn_event p t a OnWrite c = onWrite (with_answer a c) t"
| "conn_event p t a OnError c = onError c t"
| "conn_event p t a OnClose c = onClose c t"

definition with_loop :: "tcp_server \<Rightarrow> event_loop \<Rightarrow> tcp_server" where
  "with_loop s l = s\<lparr>listener := (listener s)\<lparr>a_loop := l\<rparr>\<rparr>"

text \<open>\<open>onAccept\<close>, which ends with the callback for new connections storing its pointers.\<close>

definition accept_and_keep ::
    "server_program \<Rightarrow> nat \<Rightarrow> int \<Rightarrow> inet_address \<Rightarrow> event_loop \<times> server_data \<Rightarrow> event_loop \<times> server_data" where
  "accept_and_keep p t sockfd peer x =
     (let (l, d) = server_accept t (p_fresh p) (p_memory p) (\<lambda>_. []) (\<lambda>_. []) sockfd peer x;
          ev = next_object (snd x)
      in (l, d\<lparr>connections := (connections d)(ev :=
            map_option (\<lambda>c. c\<lparr>holders := keeps p ev\<rparr>) (connections d ev))\<rparr>))"

definition with_sockets :: "answer \<Rightarrow> tcp_server \<Rightarrow> tcp_server" where
  "with_sockets a s = s\<lparr>listener := (listener s)\<lparr>a_accepts := to_accepts a, a_sockets := to_sockets a\<rparr>\<rparr>"

fun acceptor_event :: "server_program \<Rightarrow> nat \<Rightarrow> answer \<Rightarrow> callback \<Rightarrow> tcp_server \<Rightarrow> tcp_server" where
  "acceptor_event p t a OnRead s =
     (let s1 = with_sockets a s;
          (acc, d) = acceptor_onRead (p_lib p) (p_flags p) (p_old4 p) (p_old6 p) (accept_and_keep p t)
                       (listener s1, clients s1)
      in \<lparr>listener = acc, clients = d\<rparr>)"
| "acceptor_event p t a OnWrite s = s"
| "acceptor_event p t a OnError s =
     (let s1 = with_sockets a s
      in s1\<lparr>listener := acceptor_onError (p_lib p) (p_flags p) (p_old4 p) (p_old6 p) (listener s1)\<rparr>)"
| "acceptor_event p t a OnClose s =
     (let s1 = with_sockets a s
      in s1\<lparr>listener := acceptor_onClose (p_lib p) (p_flags p) (p_old4 p) (p_old6 p) (listener s1)\<rparr>)"

definition pipe_event :: "callback \<Rightarrow> tcp_server \<Rightarrow> tcp_server" where
  "pipe_event cb s = (if cb = OnRead then with_loop s (pipe_onRead (server_loop s)) else s)"

subsection \<open>Rounds\<close>

text \<open>One entry of what \<open>epoll_wait\<close> reported: the descriptor is looked up when its turn comes.\<close>

definition server_dispatch ::
    "server_program \<Rightarrow> nat \<Rightarrow> tcp_server \<Rightarrow> int \<times> mask \<times> answer \<Rightarrow> conn_error + tcp_server" where
  "server_dispatch p t s = (\<lambda>(f, m, a).
     case events (server_loop s) f of
       None \<Rightarrow> Inr s
     | Some ev \<Rightarrow>
         (case which_callback m of
            None \<Rightarrow> Inr s
          | Some cb \<Rightarrow>
              if ev = a_event (listener s) then Inr (acceptor_event p t a cb s)
              else if pipe (server_loop s) = Some ev then Inr (pipe_event cb s)
              else server_conn s ev (conn_event p t a cb)))"

fun dispatch_ready ::
    "server_program \<Rightarrow> nat \<Rightarrow> (int \<times> mask \<times> answer) list \<Rightarrow> tcp_server \<Rightarrow> conn_error + tcp_server" where
  "dispatch_ready p t [] s = Inr s"
| "dispatch_ready p t (x # xs) s =
     (case server_dispatch p t s x of Inl e \<Rightarrow> Inl e | Inr s1 \<Rightarrow> dispatch_ready p t xs s1)"

text \<open>
  The destructor of an entry that lost its last reference closes the entry's connection.
\<close>

definition expire :: "nat \<Rightarrow> timing_wheel \<Rightarrow> tcp_server \<Rightarrow> nat \<Rightarrow> conn_error + tcp_server" where
  "expire t before s ev =
     (case connections (clients s) ev of
        None \<Rightarrow> Inr s
      | Some c \<Rightarrow>
          (case timeout_entry c of
             None \<Rightarrow> Inr s
           | Some e \<Rightarrow>
               if count_list (fired before) e < count_list (fired (timing (server_loop s))) e
               then server_conn s ev (\<lambda>c. timeout_destructor c t) else Inr s))"

text \<open>A queued closure: what it does to the wheel or to a connection.\<close>

definition server_task :: "server_program \<Rightarrow> tcp_server \<Rightarrow> task \<Rightarrow> conn_error + tcp_server" where
  "server_task p s f =
     (case run_task (server_loop s) f of
        None \<Rightarrow> Inl Diverges
      | Some l \<Rightarrow>
          (case f of
             UserTask n \<Rightarrow> (case closures p n of
                 None \<Rightarrow> Inr (with_loop s l)
               | Some (ev, g) \<Rightarrow> server_conn (with_loop s l) ev (\<lambda>c. run_closure c g))
           | InsertTask d e \<Rightarrow> (case payload e of
                 Idle ev \<Rightarrow> expire (owner l) (timing (server_loop s)) (with_loop s l) ev
               | _ \<Rightarrow> Inr (with_loop s l))
           | _ \<Rightarrow> Inr (with_loop s l)))"

fun server_tasks :: "server_program \<Rightarrow> task list \<Rightarrow> tcp_server \<Rightarrow> conn_error + tcp_server" where
  "server_tasks p [] s = Inr s"
| "server_tasks p (f # fs) s =
     (case server_task p s f of
        Inl e \<Rightarrow> Inl e
      | Inr s1 \<Rightarrow> server_tasks p fs (with_loop s1 ((server_loop s1)\<lparr>queue := tl (queue (server_loop s1))\<rparr>)))"

text \<open>
  The wheel advances. Slots are unordered sets; here the connections go by their numbers.
\<close>

fun expire_all :: "nat \<Rightarrow> timing_wheel \<Rightarrow> nat list \<Rightarrow> tcp_server \<Rightarrow> conn_error + tcp_server" where
  "expire_all t before [] s = Inr s"
| "expire_all t before (ev # evs) s =
     (case expire t before s ev of Inl e \<Rightarrow> Inl e | Inr s1 \<Rightarrow> expire_all t before evs s1)"

definition server_timer :: "nat \<Rightarrow> int \<Rightarrow> tcp_server \<Rightarrow> conn_error + tcp_server" where
  "server_timer t now s =
     (case onTimer (timing (server_loop s)) now of
        None \<Rightarrow> Inl Diverges
      | Some tw \<Rightarrow> expire_all t (timing (server_loop s)) [0..<next_object (clients s)]
          (with_loop s ((server_loop s)\<lparr>timing := tw\<rparr>)))"

definition grow_events :: "nat \<Rightarrow> event_loop \<Rightarrow> event_loop" where
  "grow_events n l = (if n = epoll_events_size l then l\<lparr>epoll_events_size := epoll_events_size l * 2\<rparr> else l)"

definition server_round ::
    "server_program \<Rightarrow> nat \<Rightarrow> (int \<times> mask \<times> answer) list option \<times> int \<Rightarrow> tcp_server \<Rightarrow> conn_error + tcp_server" where
  "server_round p t = (\<lambda>(waited, now) s.
     case waited of
       None \<Rightarrow> Inr s
     | Some ready \<Rightarrow>
         (case dispatch_ready p t ready s of
            Inl e \<Rightarrow> Inl e
          | Inr s1 \<Rightarrow>
              let s2 = with_loop s1 (grow_events (length ready) (server_loop s1))
              in (case server_tasks p (queue (server_loop s2)) s2 of
                    Inl e \<Rightarrow> Inl e
                  | Inr s3 \<Rightarrow> server_timer t now s3)))"

subsection \<open>What a connection's operation may do\<close>

text \<open>
  Two loops with the same table and registered descriptors, whose wheels agree on every entry other
  than \<open>me\<close>: what the operations of the connection with the timeout entry \<open>me\<close> may change.
\<close>

definition same_table ::
    "(kernel \<Rightarrow> syscall \<Rightarrow> kernel) \<Rightarrow> entry option \<Rightarrow> event_loop \<Rightarrow> event_loop \<Rightarrow> bool" where
  "same_table ctl me l l' \<longleftrightarrow> reg_inv ctl l' \<and> tw_inv (timing l') \<and> events l' = events l
     \<and> (\<forall>ev. getFd l' ev = getFd l ev) \<and> pipe l' = pipe l \<and> owner l' = owner l \<and> queue l' = queue l
     \<and> next_id (timing l') = next_id (timing l) \<and> fired (timing l') = fired (timing l)
     \<and> last_ts (timing l') = last_ts (timing l)
     \<and> (\<forall>e w. me \<noteq> Some e \<longrightarrow> occ (timing l') w e = occ (timing l) w e)"

lemma same_tableD:
  assumes "same_table ctl me l l'"
  shows "reg_inv ctl l'" and "tw_inv (timing l')" and "events l' = events l" and "getFd l' ev = getFd l ev"
    and "pipe l' = pipe l" and "owner l' = owner l" and "queue l' = queue l"
    and "next_id (timing l') = next_id (timing l)" and "fired (timing l') = fired (timing l)"
    and "last_ts (timing l') = last_ts (timing l)"
    and "me \<noteq> Some e \<Longrightarrow> occ (timing l') w e = occ (timing l) w e"
    and "registered l' ev = registered l ev"
  using assms by (simp_all add: same_table_def registered_def)

lemma same_table_refl: "reg_inv ctl l \<Longrightarrow> tw_inv (timing l) \<Longrightarrow> same_table ctl me l l"
  by (simp add: same_table_def)

lemma same_table_trans: "same_table ctl me l l1 \<Longrightarrow> same_table ctl me l1 l2 \<Longrightarrow> same_table ctl me l l2"
  by (simp add: same_table_def)

text \<open>A connection that is open and held, or that has just been closed.\<close>

definition conn_good ::
    "(kernel \<Rightarrow> syscall \<Rightarrow> kernel) \<Rightarrow> event_loop \<Rightarrow> nat \<Rightarrow> entry option \<Rightarrow> tcp_connection \<Rightarrow> bool" where
  "conn_good ctl l ev me c \<longleftrightarrow> event_id c = ev \<and> \<not> closed c \<and> in_server c \<and> close_cb c \<and> 0 < holders c
     \<and> buf_ok (message_buffer c) \<and> timeout_entry c = me \<and> registered l ev \<and> same_table ctl me l (lp c)"

definition conn_gone ::
    "(kernel \<Rightarrow> syscall \<Rightarrow> kernel) \<Rightarrow> event_loop \<Rightarrow> nat \<Rightarrow> entry option \<Rightarrow> tcp_connection \<Rightarrow> bool" where
  "conn_gone ctl l ev me c \<longleftrightarrow> \<not> in_server c
     \<and> (\<exists>l2. same_table ctl me l l2 \<and> lp c = close_event (removeEvent l2 ev) ev)"

definition conn_after ::
    "(kernel \<Rightarrow> syscall \<Rightarrow> kernel) \<Rightarrow> event_loop \<Rightarrow> nat \<Rightarrow> entry option \<Rightarrow> conn_error + tcp_connection \<Rightarrow> bool" where
  "conn_after ctl l ev me r \<longleftrightarrow> (\<exists>c. r = Inr c \<and> (conn_good ctl l ev me c \<or> conn_gone ctl l ev me c))"

lemma conn_after_good: "conn_good ctl l ev me c \<Longrightarrow> conn_after ctl l ev me (Inr c)"
  by (simp add: conn_after_def)

lemma conn_goodD:
  assumes "conn_good ctl l ev me c"
  shows "event_id c = ev" and "\<not> closed c" and "in_server c" and "close_cb c" and "0 < holders c"
    and "buf_ok (message_buffer c)" and "timeout_entry c = me" and "registered l ev" and "same_table ctl me l (lp c)"
    and "owner (lp c) = owner l" and "registered (lp c) ev" and "reg_inv ctl (lp c)" and "tw_inv (timing (lp c))"
  using assms same_tableD by (auto simp: conn_good_def)

lemma conn_good_frame [simp]:
  "conn_good ctl l ev me (c\<lparr>reads := rs\<rparr>) = conn_good ctl l ev me c"
  "conn_good ctl l ev me (c\<lparr>writes := ws\<rparr>) = conn_good ctl l ev me c"
  "conn_good ctl l ev me (c\<lparr>errno := e\<rparr>) = conn_good ctl l ev me c"
  "conn_good ctl l ev me (c\<lparr>wire := d\<rparr>) = conn_good ctl l ev me c"
  "conn_good ctl l ev me (c\<lparr>io_vec_list := vs\<rparr>) = conn_good ctl l ev me c"
  "conn_good ctl l ev me (c\<lparr>seen := sn\<rparr>) = conn_good ctl l ev me c"
  "conn_good ctl l ev me (c\<lparr>completions := n\<rparr>) = conn_good ctl l ev me c"
  "conn_good ctl l ev me (c\<lparr>holders := Suc n\<rparr>) \<longleftrightarrow> conn_good ctl l ev me (c\<lparr>holders := 1\<rparr>)"
  by (simp_all add: conn_good_def)

lemma conn_good_buffer:
  "conn_good ctl l ev me c \<Longrightarrow> buf_ok b \<Longrightarrow> conn_good ctl l ev me (c\<lparr>message_buffer := b\<rparr>)"
  by (simp add: conn_good_def)

lemma good_write_complete: "conn_good ctl l ev me c \<Longrightarrow> conn_good ctl l ev me (write_complete_cb c)"
  by (simp add: write_complete_cb_def)

lemma good_onClose:
  assumes "conn_good ctl l ev me c" and "t = owner l"
  shows "conn_after ctl l ev me (onClose c t)"
  using onClose_held [of c t] conn_goodD [OF assms(1)] assms(2)
  by (auto simp: conn_after_def conn_gone_def)

lemma good_extendLife:
  assumes "conn_good ctl l ev me c"
  shows "conn_good ctl l ev me (extendLife c)"
proof (cases "\<exists>e. me = Some e \<and> held (timing (lp c)) e")
  case True
  then obtain e where e: "me = Some e" "held (timing (lp c)) e" by blast
  note g = conn_goodD [OF assms]
  let ?tw = "insertEntry (timing (lp c)) (sint (max_idle_ms c)) e"
  have "tw_inv ?tw" using g(13) e(2) by (intro insertEntry_inv) (auto simp: tw_inv_def)
  then have "same_table ctl me l ((lp c)\<lparr>timing := ?tw\<rparr>)"
    using g(9) e(1) by (auto simp: same_table_def occ_insertEntry_other)
  moreover have "extendLife c = c\<lparr>lp := (lp c)\<lparr>timing := ?tw\<rparr>\<rparr>"
    using g(7) e by (simp add: extendLife_def)
  ultimately show ?thesis using assms by (simp add: conn_good_def)
next
  case False
  then have "extendLife c = c" using conn_goodD(7) [OF assms] by (auto simp: extendLife_def split: option.splits)
  then show ?thesis using assms by simp
qed

lemma good_enableWriting:
  assumes "epoll_laws ctl" and "conn_good ctl l ev me c"
  shows "conn_good ctl l ev me (enableWriting c b)"
proof -
  note g = conn_goodD [OF assms(2)]
  let ?l = "enableEventWriting (lp c) ev b"
  have "reg_inv ctl ?l" using loop_writes.set_ok [of ctl "lp c" ev b] assms(1) g(11,12) by simp
  moreover have "pipe ?l = pipe (lp c)"
    by (auto simp: enableEventWriting_def Let_def setEvents_def syscall_def split: option.splits)
  ultimately have "same_table ctl me (lp c) ?l"
    using g(13) by (simp add: same_table_def enableEventWriting_frame)
  then have "same_table ctl me l ?l" by (rule same_table_trans [OF g(9)])
  then show ?thesis using assms(2) g(1) by (simp add: conn_good_def enableWriting_def)
qed

lemma good_sys_write: "conn_good ctl l ev me c \<Longrightarrow> conn_good ctl l ev me (snd (sys_write c d))"
  by (simp add: sys_write_def split: list.splits io_result.splits)

lemma avail_after_readv:
  "sys_readv rs n = Inr d \<Longrightarrow> 0 < length d \<Longrightarrow> avail (after_readv rs n) < avail rs"
  by (cases rs; cases "hd rs") (auto simp: sys_readv_def after_readv_def avail_def)

lemma good_onRead_loop:
  assumes "\<And>b. buf_ok b \<Longrightarrow> buf_ok (cb b)" and "t = owner l" and "conn_good ctl l ev me c"
  shows "conn_after ctl l ev me (onRead_loop cb c t)"
  using assms(3)
proof (induction "avail (reads c)" arbitrary: c rule: less_induct)
  case less
  let ?b = "message_buffer c"
  let ?rs = "after_readv (reads c) (readFd_space ?b)"
  note g = conn_goodD [OF less.prems]
  show ?case
  proof (cases "sys_readv (reads c) (readFd_space ?b)")
    case (Inl err)
    let ?c1 = "c\<lparr>message_buffer := ?b, reads := ?rs\<rparr>"
    have r: "readFd (sys_readv (reads c)) ?b = Some (-1, Some err, ?b)"
      using readFd_appends [OF g(6), of "sys_readv (reads c)"] Inl by simp
    have "conn_good ctl l ev me ?c1" using less.prems by simp
    then show ?thesis
      using good_onClose [of ctl l ev me ?c1 t] assms(2)
      by (simp add: onRead_loop.simps [of cb c] r conn_after_good Let_def)
  next
    case (Inr d)
    obtain b where b: "readFd (sys_readv (reads c)) ?b = Some (int (length d), None, b)" "buf_ok b"
      using readFd_appends [OF g(6), of "sys_readv (reads c)"] Inr by auto
    let ?c1 = "c\<lparr>message_buffer := b, reads := ?rs\<rparr>"
    let ?c2 = "?c1\<lparr>message_buffer := cb b, seen := seen ?c1 @ [content b]\<rparr>"
    have g1: "conn_good ctl l ev me ?c1" using conn_good_buffer [OF less.prems b(2)] by simp
    have g2: "conn_good ctl l ev me ?c2"
      using conn_good_buffer [OF g1 assms(1) [OF b(2)]] by simp
    show ?thesis
    proof (cases "0 < length d")
      case True
      then have "conn_after ctl l ev me (onRead_loop cb ?c2 t)"
        using avail_after_readv [OF Inr] by (intro less.hyps g2) simp
      then show ?thesis using True by (simp add: onRead_loop.simps [of cb c] b(1) Let_def)
    next
      case False
      then show ?thesis
        using good_onClose [OF g1 assms(2)] by (simp add: onRead_loop.simps [of cb c] b(1) Let_def)
    qed
  qed
qed

lemma good_onRead:
  assumes "\<And>b. buf_ok b \<Longrightarrow> buf_ok (cb b)" and "t = owner l" and "conn_good ctl l ev me c"
  shows "conn_after ctl l ev me (onRead cb c t)"
  using good_onRead_loop [OF assms(1,2) good_extendLife [OF assms(3)]] conn_goodD(2) [OF assms(3)]
  by (simp add: onRead_def)

lemma good_onWrite_loop:
  assumes "epoll_laws ctl" and "t = owner l" and "conn_good ctl l ev me c"
  shows "conn_after ctl l ev me (onWrite_loop c t)"
  using assms(2,3)
proof (induction c t rule: onWrite_loop.induct)
  case (1 c t)
  show ?case
  proof (cases "io_vec_list c = []")
    case True
    then show ?thesis using 1(3) by (simp add: onWrite_loop.simps [of c] conn_after_good)
  next
    case False
    obtain n c1 where c1: "sys_write c (gather (memory c) (io_vec_list c)) = (n, c1)" by (rule prod.exhaust)
    have g1: "conn_good ctl l ev me c1" using good_sys_write [OF 1(3)] c1 by (metis snd_conv)
    let ?c2 = "c1\<lparr>io_vec_list := consume n (io_vec_list c1)\<rparr>"
    have g2: "conn_good ctl l ev me ?c2" using g1 by simp
    have done': "conn_good ctl l ev me (write_complete_cb (enableWriting ?c2 False))"
      by (rule good_write_complete [OF good_enableWriting [OF assms(1) g2]])
    have "conn_after ctl l ev me (onWrite_loop ?c2 t)" if "0 < n" "io_vec_list ?c2 \<noteq> []"
      using 1(1) [OF False c1 [symmetric] refl that(1) refl that(2)] 1(2) g2 by blast
    moreover have "conn_after ctl l ev me (if \<not> retryable (errno c1) then onClose c1 t else Inr c1)"
      using g1 good_onClose [OF g1 1(2)] by (simp add: conn_after_good)
    moreover have "onWrite_loop c t = (if 0 < n then (if io_vec_list ?c2 = []
        then Inr (write_complete_cb (enableWriting ?c2 False)) else onWrite_loop ?c2 t)
      else if \<not> retryable (errno c1) then onClose c1 t else Inr c1)"
      using False c1 by (simp add: onWrite_loop.simps [of c] Let_def)
    ultimately show ?thesis using conn_after_good [OF done'] by presburger
  qed
qed

lemma good_onWrite:
  assumes "epoll_laws ctl" and "t = owner l" and "conn_good ctl l ev me c"
  shows "conn_after ctl l ev me (onWrite c t)"
proof -
  have g: "conn_good ctl l ev me (extendLife c)" by (rule good_extendLife [OF assms(3)])
  show ?thesis
    using good_onWrite_loop [OF assms(1,2) g] good_write_complete [OF good_enableWriting [OF assms(1) g]]
      conn_goodD(2) [OF assms(3)]
    by (simp add: onWrite_def conn_after_good Let_def)
qed

lemma good_sendInLoop:
  assumes "epoll_laws ctl" and "conn_good ctl l ev me c"
  shows "conn_good ctl l ev me (sendInLoop c b n)"
proof -
  obtain k c1 where r: "(if io_vec_list c = [] then sys_write c (read_mem (memory c) b (unat n)) else (0, c)) = (k, c1)"
    by (rule prod.exhaust)
  then have g: "conn_good ctl l ev me c1"
    using assms(2) good_sys_write [OF assms(2)] by (metis snd_conv)
  then have "conn_good ctl l ev me (enableWriting (c1\<lparr>io_vec_list := vs\<rparr>) True)" for vs
    by (intro good_enableWriting [OF assms(1)]) simp
  then show ?thesis
    using assms(2) g good_write_complete [OF g] unfolding sendInLoop_def r by (simp add: Let_def)
qed

lemma good_run_closure:
  assumes "epoll_laws ctl" and "conn_good ctl l ev me c"
  shows "conn_after ctl l ev me (run_closure c f)"
proof (cases f)
  case CloseConnection
  then show ?thesis using good_onClose [OF assms(2) refl] conn_goodD(10) [OF assms(2)] by (simp add: run_closure_def)
next
  case (SendNodes ns)
  have "conn_good ctl l ev me (sendInLoop_nodes c ns)"
    using assms(2) good_enableWriting [OF assms(1)] by (simp add: sendInLoop_nodes_def Let_def)
  then show ?thesis using SendNodes by (simp add: run_closure_def conn_after_good)
qed (simp add: run_closure_def conn_after_good good_sendInLoop [OF assms])

lemma good_timeout:
  assumes "conn_good ctl l ev me c" and "t = owner l"
  shows "conn_after ctl l ev me (timeout_destructor c t)"
proof -
  let ?c = "c\<lparr>holders := Suc (holders c)\<rparr>"
  have "conn_good ctl l ev me ?c" using assms(1) by (simp add: conn_good_def)
  note g = conn_goodD [OF this]
  note o = onClose_held [OF g(2,4,5), of t]
  have "kept_alive c" using conn_goodD(5) [OF assms(1)] by (simp add: kept_alive_def)
  then have "timeout_destructor c t = Inr (?c\<lparr>in_server := False, destroyed_cb := Suc (destroyed_cb ?c), closed := True,
      lp := close_event (removeEvent (lp ?c) (event_id ?c)) (event_id ?c), holders := holders c\<rparr>)"
    using o g(10) assms(2) by (simp add: timeout_destructor_def onTimeout_def)
  then show ?thesis using g(1,9) by (auto simp: conn_after_def conn_gone_def)
qed

subsection \<open>A server whose connections are held\<close>

text \<open>
  The invariant of a server whose user holds every connection: the table is right, the queued closures
  can be carried out, and every connection has a buffer in order and a timeout entry of its own.
\<close>

definition server_good :: "(kernel \<Rightarrow> syscall \<Rightarrow> kernel) \<Rightarrow> tcp_server \<Rightarrow> bool" where
  "server_good ctl s \<longleftrightarrow> server_inv ctl s
     \<and> (\<forall>f \<in> set (queue (server_loop s)). task_ok (next_id (timing (server_loop s))) f)
     \<and> (\<forall>ev c. connections (clients s) ev = Some c \<longrightarrow> 0 < holders c \<and> buf_ok (message_buffer c)
          \<and> (\<forall>e. timeout_entry c = Some e \<longrightarrow> payload e = Idle ev \<and> eid e < next_id (timing (server_loop s))))"

lemma server_goodD:
  assumes "server_good ctl s"
  shows "server_inv ctl s" and "data_inv ctl (a_event (listener s)) (server_loop s) (clients s)"
    and "f \<in> set (queue (server_loop s)) \<Longrightarrow> task_ok (next_id (timing (server_loop s))) f"
    and "connections (clients s) ev = Some c \<Longrightarrow> 0 < holders c \<and> buf_ok (message_buffer c)"
    and "connections (clients s) ev = Some c \<Longrightarrow> timeout_entry c = Some e \<Longrightarrow>
      payload e = Idle ev \<and> eid e < next_id (timing (server_loop s))"
  using assms unfolding server_good_def server_inv_def by blast+

text \<open>What a step that does not concern connection \<open>ev\<close> leaves of it: all, with its descriptor and its timer.\<close>

definition keeps_conn :: "nat \<Rightarrow> tcp_server \<Rightarrow> tcp_server \<Rightarrow> bool" where
  "keeps_conn ev s s' \<longleftrightarrow> connections (clients s') ev = connections (clients s) ev
     \<and> getFd (server_loop s') ev = getFd (server_loop s) ev
     \<and> (\<forall>c e. connections (clients s) ev = Some c \<longrightarrow> timeout_entry c = Some e \<longrightarrow>
          (\<forall>w. occ (timing (server_loop s')) w e = occ (timing (server_loop s)) w e)
        \<and> count_list (fired (timing (server_loop s'))) e = count_list (fired (timing (server_loop s))) e)"

lemma keeps_conn_refl: "keeps_conn ev s s"
  by (simp add: keeps_conn_def)

lemma keeps_conn_trans: "keeps_conn ev s s1 \<Longrightarrow> keeps_conn ev s1 s2 \<Longrightarrow> keeps_conn ev s s2"
  unfolding keeps_conn_def by metis

text \<open>What every step respects: the acceptor and the loop's thread stay, numbers are not given twice.\<close>

definition grows :: "tcp_server \<Rightarrow> tcp_server \<Rightarrow> bool" where
  "grows s s' \<longleftrightarrow> owner (server_loop s') = owner (server_loop s) \<and> a_event (listener s') = a_event (listener s)
     \<and> next_id (timing (server_loop s)) \<le> next_id (timing (server_loop s'))
     \<and> next_object (clients s) \<le> next_object (clients s')
     \<and> (\<forall>ev < next_object (clients s). connections (clients s) ev = None \<longrightarrow> connections (clients s') ev = None)"

lemma grows_refl: "grows s s"
  by (simp add: grows_def)

lemma grows_trans: "grows s s1 \<Longrightarrow> grows s1 s2 \<Longrightarrow> grows s s2"
  by (simp add: grows_def)

lemma growsD:
  assumes "grows s s'"
  shows "owner (server_loop s') = owner (server_loop s)" and "a_event (listener s') = a_event (listener s)"
    and "next_id (timing (server_loop s)) \<le> next_id (timing (server_loop s'))"
    and "next_object (clients s) \<le> next_object (clients s')"
    and "ev < next_object (clients s) \<Longrightarrow> connections (clients s) ev = None \<Longrightarrow> connections (clients s') ev = None"
  using assms by (simp_all add: grows_def)

text \<open>A step that returns, keeps the invariant, and touches at most the connections in \<open>X\<close>.\<close>

definition safe_step ::
    "(kernel \<Rightarrow> syscall \<Rightarrow> kernel) \<Rightarrow> nat set \<Rightarrow> tcp_server \<Rightarrow> conn_error + tcp_server \<Rightarrow> bool" where
  "safe_step ctl X s r \<longleftrightarrow> (\<exists>s'. r = Inr s' \<and> server_good ctl s' \<and> grows s s'
     \<and> last_ts (timing (server_loop s')) = last_ts (timing (server_loop s))
     \<and> set (queue (server_loop s')) \<subseteq> set (queue (server_loop s))
     \<and> (\<forall>ev. ev \<notin> X \<longrightarrow> connections (clients s) ev \<noteq> None \<longrightarrow> keeps_conn ev s s'))"

lemma safe_refl: "server_good ctl s \<Longrightarrow> safe_step ctl X s (Inr s)"
  by (simp add: safe_step_def keeps_conn_refl grows_refl)

lemma safe_mono: "safe_step ctl X s r \<Longrightarrow> X \<subseteq> Y \<Longrightarrow> safe_step ctl Y s r"
  unfolding safe_step_def by blast

lemma safe_bind:
  assumes "safe_step ctl X s r" and "\<And>s'. r = Inr s' \<Longrightarrow> safe_step ctl X s (Inr s') \<Longrightarrow> safe_step ctl X s' (f s')"
  shows "safe_step ctl X s (case r of Inl e \<Rightarrow> Inl e | Inr s' \<Rightarrow> f s')"
proof -
  obtain s1 where r: "r = Inr s1" using assms(1) by (auto simp: safe_step_def)
  note a = assms(1) [unfolded r] and b = assms(2) [OF r assms(1) [unfolded r]]
  obtain s2 where s2: "f s1 = Inr s2" using b by (auto simp: safe_step_def)
  have "keeps_conn ev s s2" if "ev \<notin> X" "connections (clients s) ev \<noteq> None" for ev
  proof -
    have k: "keeps_conn ev s s1" using a that by (simp add: safe_step_def)
    then have "connections (clients s1) ev \<noteq> None" using that(2) by (simp add: keeps_conn_def)
    then have "keeps_conn ev s1 s2" using b that(1) s2 by (simp add: safe_step_def)
    with k show ?thesis by (rule keeps_conn_trans)
  qed
  then show ?thesis
    using a b s2 grows_trans by (fastforce simp: r safe_step_def)
qed

text \<open>A connection of the map, seen by its operations.\<close>

lemma conn_good_of_server:
  assumes "server_good ctl s" and "connections (clients s) ev = Some c"
  shows "conn_good ctl (server_loop s) ev (timeout_entry c) (c\<lparr>lp := server_loop s\<rparr>)"
proof -
  note i = data_invD [OF server_goodD(2) [OF assms(1)]]
  have "open_conn (server_loop s) ev c" using i(7) [OF assms(2)] by simp
  then show ?thesis
    using server_goodD(4) [OF assms] same_table_refl [OF i(1,2)] by (simp add: conn_good_def open_conn_def)
qed

lemma forget_queue: "queue (close_event (removeEvent l ev) ev) = queue l"
  by (simp add: close_event_def removeEvent_def Let_def syscall_def split: option.splits)

lemma server_conn_safe:
  assumes "epoll_laws ctl" and "server_good ctl s"
    and "\<And>c. connections (clients s) ev = Some c \<Longrightarrow>
      conn_after ctl (server_loop s) ev (timeout_entry c) (g (c\<lparr>lp := server_loop s\<rparr>))"
  shows "safe_step ctl {ev} s (server_conn s ev g)"
proof (cases "connections (clients s) ev")
  case None
  then show ?thesis using safe_refl [OF assms(2)] by (simp add: server_conn_def)
next
  case (Some c)
  let ?l = "server_loop s" and ?me = "timeout_entry c"
  note inv = server_goodD(2) [OF assms(2)]
  obtain c1 where c1: "g (c\<lparr>lp := ?l\<rparr>) = Inr c1" "conn_good ctl ?l ev ?me c1 \<or> conn_gone ctl ?l ev ?me c1"
    using assms(3) [OF Some] by (auto simp: conn_after_def)
  define cs where "cs = (connections (clients s))(ev := if in_server c1 then Some c1 else None)"
  define s' where "s' = s\<lparr>listener := (listener s)\<lparr>a_loop := lp c1\<rparr>, clients := (clients s)\<lparr>connections := cs\<rparr>\<rparr>"
  have r: "server_conn s ev g = Inr s'" using Some c1(1) by (simp add: server_conn_def s'_def cs_def)
  obtain l2 where l2: "same_table ctl ?me ?l l2" "timing (lp c1) = timing l2" "queue (lp c1) = queue l2"
      "owner (lp c1) = owner l2" "\<And>e. e \<noteq> ev \<Longrightarrow> getFd (lp c1) e = getFd l2 e"
      "data_inv ctl (a_event (listener s)) (lp c1) (clients s')"
  proof (cases "conn_good ctl ?l ev ?me c1")
    case True
    note g = conn_goodD [OF True]
    note t = same_tableD [OF g(9)]
    have "data_inv ctl (a_event (listener s)) (lp c1) (clients s)"
      by (rule data_inv_same_table [OF inv t(1-5)])
    from data_inv_update [OF this Some g(1-4)] g(3) show thesis
      using that [of "lp c1"] g(9) by (simp add: s'_def cs_def)
  next
    case False
    then obtain l2 where gone: "\<not> in_server c1" "same_table ctl ?me ?l l2"
        "lp c1 = close_event (removeEvent l2 ev) ev" using c1(2) by (auto simp: conn_gone_def)
    note t = same_tableD [OF gone(2)]
    have d: "data_inv ctl (a_event (listener s)) l2 (clients s)" by (rule data_inv_same_table [OF inv t(1-5)])
    have "registered l2 ev" using data_invD(7) [OF inv Some] t(12) by (simp add: open_conn_def)
    note f = forget_event [OF assms(1) t(1) this]
    from data_inv_forget [OF assms(1) d Some] show thesis
      using that [OF gone(2)] f gone(1,3) forget_queue by (simp add: s'_def cs_def)
  qed
  note t = same_tableD [OF l2(1)]
  have good: "0 < holders c' \<and> buf_ok (message_buffer c') \<and> (\<forall>e. timeout_entry c' = Some e \<longrightarrow>
      payload e = Idle ev' \<and> eid e < next_id (timing ?l))" if "cs ev' = Some c'" for ev' c'
  proof (cases "ev' = ev")
    case True
    with that have "c' = c1" "in_server c1" by (auto simp: cs_def split: if_splits)
    then have "conn_good ctl ?l ev ?me c'" using c1(2) by (simp add: conn_gone_def)
    note g = conn_goodD [OF this]
    then show ?thesis using server_goodD(5) [OF assms(2) Some] True by simp
  next
    case False
    with that have "connections (clients s) ev' = Some c'" by (simp add: cs_def)
    then show ?thesis using server_goodD(4,5) [OF assms(2)] by blast
  qed
  have "server_good ctl s'"
    using l2(2,3,6) t(7,8) good server_goodD(3) [OF assms(2)]
    by (simp add: server_good_def server_inv_def s'_def)
  moreover have "keeps_conn ev' s s'" if "ev' \<noteq> ev" for ev'
  proof -
    have "?me \<noteq> Some e" if "connections (clients s) ev' = Some c'" "timeout_entry c' = Some e" for c' e
      using server_goodD(5) [OF assms(2) that] server_goodD(5) [OF assms(2) Some, of e] \<open>ev' \<noteq> ev\<close> by auto
    then show ?thesis
      using that l2(2,5) t(4,9,11) by (simp add: keeps_conn_def s'_def cs_def)
  qed
  ultimately show ?thesis
    using l2(2-4) t(6,7,8,10) Some by (auto simp: r safe_step_def grows_def) (auto simp: s'_def cs_def)
qed

text \<open>
  The contract of an operation on a connection: on an open connection that is held, and with an argument
  that is allowed, it returns, and the connection is still open or has been closed properly.
\<close>

locale connection_operation =
  fixes op :: "'x \<Rightarrow> tcp_connection \<Rightarrow> conn_error + tcp_connection"
    and allowed :: "'x \<Rightarrow> event_loop \<Rightarrow> bool"
  assumes op_after: "epoll_laws ctl \<Longrightarrow> allowed x l \<Longrightarrow> conn_good ctl l ev me c \<Longrightarrow> conn_after ctl l ev me (op x c)"
begin

lemma on_server:
  assumes "epoll_laws ctl" and "server_good ctl s" and "allowed x (server_loop s)"
  shows "safe_step ctl {ev} s (server_conn s ev (op x))"
  using op_after [OF assms(1,3)] conn_good_of_server [OF assms(2)] by (intro server_conn_safe [OF assms(1,2)]) blast

end

text \<open>A message callback that leaves the buffer in order.\<close>

definition program_ok :: "server_program \<Rightarrow> bool" where
  "program_ok p \<longleftrightarrow> (\<forall>b. buf_ok b \<longrightarrow> buf_ok (on_message p b)) \<and> (\<forall>ev. 0 < keeps p ev)"

lemma good_with_answer [simp]: "conn_good ctl l ev me (with_answer a c) = conn_good ctl l ev me c"
  by (simp add: conn_good_def with_answer_def)

interpretation handler_op: connection_operation "\<lambda>(p, t, a, cb). conn_event p t a cb"
    "\<lambda>(p, t, a, cb) l. program_ok p \<and> t = owner l"
proof (unfold_locales, clarsimp)
  fix ctl l ev me c p a and cb :: callback
  assume laws: "epoll_laws ctl" and p: "program_ok p" and g: "conn_good ctl l ev me c"
  have b: "buf_ok b \<Longrightarrow> buf_ok (on_message p b)" for b using p by (simp add: program_ok_def)
  show "conn_after ctl l ev me (conn_event p (owner l) a cb c)"
    using good_onRead [OF b refl] good_onWrite [OF laws refl] good_onClose [OF g refl] g
    by (cases cb) (simp_all add: onError_def)
qed

interpretation closure_op: connection_operation "\<lambda>g c. run_closure c g" "\<lambda>g l. True"
  by unfold_locales (rule good_run_closure)

interpretation timeout_op: connection_operation "\<lambda>t c. timeout_destructor c t" "\<lambda>t l. t = owner l"
  by unfold_locales (rule good_timeout)

subsection \<open>Each step of a round is safe\<close>

lemma with_loop_safe:
  assumes "server_good ctl s" and "reg_inv ctl l" and "tw_inv (timing l)" and "events l = events (server_loop s)"
    and "\<And>ev. getFd l ev = getFd (server_loop s) ev" and "pipe l = pipe (server_loop s)"
    and "set (queue l) \<subseteq> set (queue (server_loop s))"
    and "next_id (timing (server_loop s)) \<le> next_id (timing l)"
  shows "server_good ctl (with_loop s l)"
proof -
  have "data_inv ctl (a_event (listener s)) l (clients s)"
    by (rule data_inv_same_table [OF server_goodD(2) [OF assms(1)] assms(2-6)])
  moreover have "\<forall>f \<in> set (queue l). task_ok (next_id (timing l)) f"
    using server_goodD(3) [OF assms(1)] assms(7,8) task_ok_mono by blast
  moreover have "eid e < next_id (timing l)"
    if "connections (clients s) ev = Some c" "timeout_entry c = Some e" for ev c e
    using server_goodD(5) [OF assms(1) that] assms(8) by simp
  ultimately show ?thesis
    using server_goodD(4,5) [OF assms(1)] by (simp add: server_good_def server_inv_def with_loop_def)
qed

text \<open>The loop changes while no known timer moves, except that of the connections in \<open>X\<close>.\<close>

lemma with_loop_step:
  assumes "server_good ctl s" and "reg_inv ctl l" and "tw_inv (timing l)" and "events l = events (server_loop s)"
    and "\<And>ev. getFd l ev = getFd (server_loop s) ev" and "pipe l = pipe (server_loop s)"
    and "set (queue l) \<subseteq> set (queue (server_loop s))"
    and "next_id (timing (server_loop s)) \<le> next_id (timing l)"
    and "owner l = owner (server_loop s)" and "last_ts (timing l) = last_ts (timing (server_loop s))"
    and "\<And>e w ev. eid e < next_id (timing (server_loop s)) \<Longrightarrow> payload e = Idle ev \<Longrightarrow> ev \<notin> X \<Longrightarrow>
      occ (timing l) w e = occ (timing (server_loop s)) w e
      \<and> count_list (fired (timing l)) e = count_list (fired (timing (server_loop s))) e"
  shows "safe_step ctl X s (Inr (with_loop s l))"
proof -
  have l: "server_loop (with_loop s l) = l" "clients (with_loop s l) = clients s"
      "a_event (listener (with_loop s l)) = a_event (listener s)" by (simp_all add: with_loop_def)
  have "keeps_conn ev s (with_loop s l)" if "ev \<notin> X" for ev
    unfolding keeps_conn_def l
  proof (intro conjI allI impI)
    fix c e w
    assume c: "connections (clients s) ev = Some c" "timeout_entry c = Some e"
    then have "eid e < next_id (timing (server_loop s))" "payload e = Idle ev"
      using server_goodD(5) [OF assms(1) c] by auto
    from assms(11) [OF this that]
    show "occ (timing l) w e = occ (timing (server_loop s)) w e"
      "count_list (fired (timing l)) e = count_list (fired (timing (server_loop s))) e" by blast+
  qed (rule refl, rule assms(5))
  then show ?thesis
    using with_loop_safe [OF assms(1-8)] assms(7-10) by (simp add: safe_step_def grows_def l)
qed

lemma pipe_safe:
  assumes "server_good ctl s"
  shows "safe_step ctl {} s (Inr (pipe_event cb s))"
proof (cases "cb = OnRead")
  case True
  note i = data_invD [OF server_goodD(2) [OF assms]]
  have "reg_inv ctl (pipe_onRead (server_loop s))" using i(1) by (simp add: pipe_onRead_def reg_inv_def)
  then have "safe_step ctl {} s (Inr (with_loop s (pipe_onRead (server_loop s))))"
    using i(2) server_goodD(3) [OF assms]
    by (intro with_loop_step [OF assms]) (simp_all add: pipe_onRead_def getFd_def)
  then show ?thesis using True by (simp add: pipe_event_def)
qed (simp add: pipe_event_def safe_refl [OF assms])

lemma runAfter_keeps:
  assumes "tw_inv s" and "eid e < next_id s"
  shows "\<exists>s'. runAfter s d f = Some s' \<and> last_ts s' = last_ts s \<and> next_id s \<le> next_id s'
     \<and> (\<forall>w. occ s' w e = occ s w e) \<and> count_list (fired s') e = count_list (fired s) e"
proof -
  let ?e = "Entry (next_id s) (Once f)"
  let ?s1 = "insertEntry (s\<lparr>next_id := Suc (next_id s)\<rparr>) d ?e"
  have "e \<noteq> ?e" using assms(2) by auto
  note o = occ_insertEntry_other [OF this, of "s\<lparr>next_id := Suc (next_id s)\<rparr>" d]
  show ?thesis
    using o \<open>e \<noteq> ?e\<close> by (cases "held ?s1 ?e") (simp_all add: runAfter_def release_def fire_def Let_def)
qed

lemma run_task_keeps:
  assumes "loop_ok l" and "task_ok (next_id (timing l)) f"
  shows "\<exists>tw. run_task l f = Some (l\<lparr>timing := tw, ran := ran l @ [f]\<rparr>) \<and> tw_inv tw
     \<and> next_id (timing l) \<le> next_id tw \<and> last_ts tw = last_ts (timing l)
     \<and> (\<forall>e w. eid e < next_id (timing l) \<longrightarrow> (\<forall>d. f \<noteq> InsertTask d e) \<longrightarrow>
          occ tw w e = occ (timing l) w e \<and> count_list (fired tw) e = count_list (fired (timing l)) e)"
proof -
  have inv: "tw_inv (timing l)" using assms(1) by (simp add: loop_ok_def)
  obtain tw where tw: "run_task l f = Some (l\<lparr>timing := tw, ran := ran l @ [f]\<rparr>)" "tw_inv tw"
      "next_id (timing l) \<le> next_id tw" using run_task_ok [OF inv assms(2)] by blast
  have inj: "\<And>x y. l\<lparr>timing := x, ran := ran l @ [f]\<rparr> = l\<lparr>timing := y, ran := ran l @ [f]\<rparr> \<Longrightarrow> x = y"
    by (drule arg_cong [where f = timing]) simp
  have "last_ts tw = last_ts (timing l) \<and> (\<forall>e w. eid e < next_id (timing l) \<longrightarrow> (\<forall>d. f \<noteq> InsertTask d e) \<longrightarrow>
          occ tw w e = occ (timing l) w e \<and> count_list (fired tw) e = count_list (fired (timing l)) e)"
  proof (cases f)
    case (AfterTask d g)
    then have r: "runAfter (timing l) d g = Some tw" using tw(1) inj by (auto simp: run_task_def)
    have "last_ts tw = last_ts (timing l)"
      using r by (auto simp: runAfter_def release_def fire_def Let_def split: if_splits)
    then show ?thesis using runAfter_keeps [OF inv, of _ d g] r by force
  next
    case (EveryTask i g)
    let ?e = "Entry (next_id (timing l)) (Every i g)"
    have "tw = insertEntry ((timing l)\<lparr>next_id := Suc (next_id (timing l))\<rparr>) i ?e"
      using tw(1) inj EveryTask assms(2) inv runEvery_valid [of "timing l" i g]
      by (auto simp: run_task_def tw_inv_def)
    moreover have "e \<noteq> ?e" if "eid e < next_id (timing l)" for e using that by auto
    ultimately show ?thesis by (simp add: occ_insertEntry_other)
  next
    case (InsertTask d g)
    then have r: "release (insertEntry (timing l) d g) g = Some tw" using tw(1) inj by (auto simp: run_task_def)
    have i: "tw_inv (insertEntry (timing l) d g)" "eid g < next_id (timing l)"
        "\<And>i f. payload g = Every i f \<Longrightarrow> valid_delay i"
      using insertEntry_inv [OF inv, of g d] InsertTask assms(2) by auto
    show ?thesis
    proof (cases "held (insertEntry (timing l) d g) g")
      case True
      then show ?thesis using r InsertTask by (auto simp: release_def occ_insertEntry_other)
    next
      case False
      have n: "eid g < next_id (insertEntry (timing l) d g)" using i(2) by simp
      obtain s' where s': "fire (insertEntry (timing l) d g) g = Some s'" "last_ts s' = last_ts (insertEntry (timing l) d g)"
          "fired s' = fired (insertEntry (timing l) d g) @ [g]"
          "\<forall>e' w. eid e' < next_id (insertEntry (timing l) d g) \<longrightarrow>
             occ s' w e' = occ (insertEntry (timing l) d g) w e'"
        using fire_ok [OF i(1) n] i(3) by blast
      from s' show ?thesis using r False InsertTask by (auto simp: release_def occ_insertEntry_other)
    qed
  next
    case (UserTask n)
    then have "tw = timing l" using tw(1) inj by (auto simp: run_task_def)
    then show ?thesis by simp
  qed
  with tw show ?thesis by blast
qed

definition server_at :: "tcp_server \<Rightarrow> event_loop \<times> server_data \<Rightarrow> tcp_server" where
  "server_at s x = s\<lparr>listener := (listener s)\<lparr>a_loop := fst x\<rparr>, clients := snd x\<rparr>"

lemma server_at_simps [simp]:
  "server_loop (server_at s x) = fst x" "clients (server_at s x) = snd x"
  "a_event (listener (server_at s x)) = a_event (listener s)" "server_at (server_at s x) y = server_at s y"
  by (simp_all add: server_at_def)

lemma accept_step:
  fixes p :: server_program and peer :: inet_address and x :: "event_loop \<times> server_data" and s :: tcp_server
    and t :: nat and f :: int
  assumes "epoll_laws ctl" and "program_ok p" and "server_good ctl (server_at s x)" and "t = owner (fst x)"
    and "0 \<le> f" and "events (fst x) f = None"
  defines "y \<equiv> accept_and_keep p t f peer x"
  shows "safe_step ctl {} (server_at s x) (Inr (server_at s y))"
    and "events (fst y) = (events (fst x))(f \<mapsto> next_object (snd x))"
    and "\<exists>c e. connections (snd y) (next_object (snd x)) = Some c \<and> idle_left (c\<lparr>lp := fst y\<rparr>) e 30 30"
    and "getFd (fst y) (next_object (snd x)) = f"
proof -
  obtain l d where x: "x = (l, d)" by (cases x)
  let ?ev = "next_object d" and ?av = "a_event (listener s)"
  let ?e = "Entry (next_id (timing l)) (Idle ?ev)"
  have inv: "data_inv ctl ?av l d" using server_goodD(2) [OF assms(3)] by (simp add: x)
  have free: "events l f = None" and t: "t = owner l" using assms(4,6) by (simp_all add: x)
  note i = data_invD [OF inv]
  obtain c where c: "onAccept l t (p_fresh p) ?ev f (p_memory p) [] [] = Inr c" "idle_left c ?e 30 30"
      "lp c = (addEvent (new_Event l ?ev f) ?ev)\<lparr>timing :=
         insertEntry ((timing l)\<lparr>next_id := Suc (next_id (timing l))\<rparr>) 30 ?e\<rparr>"
      "event_id c = ?ev" "in_server c" "close_cb c" "message_buffer c = new_MsgBuffer kInitialSize"
    using onAccept_ok [OF i(2) free t, of "p_fresh p" ?ev "p_memory p" "[]" "[]"] by blast
  have sa: "server_accept t (p_fresh p) (p_memory p) (\<lambda>_. []) (\<lambda>_. []) f peer (l, d)
      = (lp c, \<lparr>connections = (connections d)(?ev \<mapsto> c), next_object = Suc ?ev, announced = announced d @ [(?ev, peer)]\<rparr>)"
    using c(1) by (simp add: server_accept_def Let_def)
  let ?c = "c\<lparr>holders := keeps p ?ev\<rparr>"
  let ?d = "\<lparr>connections = (connections d)(?ev \<mapsto> ?c), next_object = Suc ?ev, announced = announced d @ [(?ev, peer)]\<rparr>"
  have y: "y = (lp c, ?d)" by (simp add: y_def x accept_and_keep_def sa Let_def)
  note a = server_accept_ok [OF assms(1) inv free assms(5) t, where fresh = "p_fresh p" and m = "p_memory p"
      and ws = "\<lambda>_. []" and rs = "\<lambda>_. []" and peer = peer, unfolded sa, simplified]
  have d': "data_inv ctl ?av (lp c) ?d"
    using data_inv_update [OF a(1), of ?ev c ?c] c(2,4-6) by (simp add: idle_left_def)
  have unused: "\<forall>g. events l g \<noteq> Some ?ev" using events_used [OF inv] by blast
  note al = accept_loop [OF assms(1) i(1) unused free assms(5),
      of "insertEntry ((timing l)\<lparr>next_id := Suc (next_id (timing l))\<rparr>) 30 ?e", folded c(3)]
  show "events (fst y) = (events (fst x))(f \<mapsto> next_object (snd x))" using a(3) by (simp add: y x)
  show "getFd (fst y) (next_object (snd x)) = f" using al(3) [of ?ev] by (simp add: y x)
  have "idle_left (?c\<lparr>lp := lp c\<rparr>) ?e 30 30" using c(2) by (simp add: idle_left_def)
  then show "\<exists>c e. connections (snd y) (next_object (snd x)) = Some c \<and> idle_left (c\<lparr>lp := fst y\<rparr>) e 30 30"
    by (auto simp: y x)
  have tm: "next_id (timing (lp c)) = Suc (next_id (timing l))" "last_ts (timing (lp c)) = last_ts (timing l)"
      "fired (timing (lp c)) = fired (timing l)" "queue (lp c) = queue l"
    by (simp_all add: c(3))
  have oc: "occ (timing (lp c)) w e = occ (timing l) w e" if "eid e < next_id (timing l)" for w e
  proof -
    have "e \<noteq> ?e" using that by auto
    then show ?thesis by (simp add: c(3) occ_insertEntry_other)
  qed
  have te: "timeout_entry c = Some ?e" using c(2) by (simp add: idle_left_def)
  have conns: "0 < holders c' \<and> buf_ok (message_buffer c')
      \<and> (\<forall>e. timeout_entry c' = Some e \<longrightarrow> payload e = Idle ev \<and> eid e < Suc (next_id (timing l)))"
    if "connections ?d ev = Some c'" for ev c'
  proof (cases "ev = ?ev")
    case True
    then show ?thesis using that assms(2) c(7) te by (auto simp: program_ok_def)
  next
    case False
    then have old: "connections d ev = Some c'" using that by simp
    then show ?thesis
      using server_goodD(4,5) [OF assms(3), of ev c'] by (auto simp: x intro: less_SucI)
  qed
  have "\<forall>g \<in> set (queue (lp c)). task_ok (next_id (timing (lp c))) g"
    using server_goodD(3) [OF assms(3)] task_ok_mono by (fastforce simp: tm x)
  then have "server_good ctl (server_at s y)"
    using d' conns by (simp add: server_good_def server_inv_def y tm)
  moreover have "keeps_conn ev (server_at s x) (server_at s y)" if "connections d ev \<noteq> None" for ev
  proof -
    have "ev \<noteq> ?ev" using that i(7) [of ev] by auto
    moreover have "eid e < next_id (timing l)" if "connections d ev = Some c'" "timeout_entry c' = Some e" for c' e
      using server_goodD(5) [OF assms(3), of ev c' e] that by (simp add: x)
    ultimately show ?thesis using al(3) oc by (simp add: keeps_conn_def x y tm(3))
  qed
  ultimately show "safe_step ctl {} (server_at s x) (Inr (server_at s y))"
    using a(2) by (simp add: safe_step_def grows_def x y tm)
qed

text \<open>The server is its loop, the acceptor's object and the clients; the acceptor's scripts and logs are not in it.\<close>

lemma safe_listener:
  assumes "a_loop (listener s1) = a_loop (listener s2)" and "a_event (listener s1) = a_event (listener s2)"
    and "clients s1 = clients s2"
  shows "safe_step ctl X s (Inr s1) = safe_step ctl X s (Inr s2)" and "safe_step ctl X s1 r = safe_step ctl X s2 r"
    and "server_good ctl s1 = server_good ctl s2"
  using assms by (simp_all add: safe_step_def grows_def keeps_conn_def server_good_def server_inv_def)

lemma safe_trans:
  assumes "safe_step ctl X s (Inr s1)" and "safe_step ctl X s1 r"
  shows "safe_step ctl X s r"
  using safe_bind [OF assms(1), of "\<lambda>_. r"] assms(2) by simp

lemma accept_many:
  fixes p :: server_program and x :: "event_loop \<times> server_data" and s :: tcp_server and t :: nat
    and ps :: "(int \<times> sockaddr) list" and lib :: inet_lib
  assumes "epoll_laws ctl" and "program_ok p" and "server_good ctl (server_at s x)" and "t = owner (fst x)"
    and "\<forall>(f, q) \<in> set ps. 0 \<le> f \<and> events (fst x) f = None" and "distinct (map fst ps)"
  defines "y \<equiv> foldl (\<lambda>x (f, q). accept_and_keep p t f (getPeerAddr lib q) x) x ps"
  shows "safe_step ctl {} (server_at s x) (Inr (server_at s y))
     \<and> (\<forall>g. g \<notin> fst ` set ps \<longrightarrow> events (fst y) g = events (fst x) g)"
  using assms(3-6) unfolding y_def
proof (induction ps arbitrary: x)
  case Nil
  then show ?case by (simp add: safe_refl)
next
  case (Cons q ps)
  obtain f r where q: "q = (f, r)" by (cases q)
  define x1 where "x1 = accept_and_keep p t f (getPeerAddr lib r) x"
  have f: "0 \<le> f" "events (fst x) f = None" "f \<notin> fst ` set ps" using Cons.prems(3,4) q by auto
  note a = accept_step [OF assms(1,2) Cons.prems(1,2) f(1,2), of "getPeerAddr lib r", folded x1_def]
  have x1: "server_good ctl (server_at s x1)" "t = owner (fst x1)"
    using a(1) Cons.prems(2) by (simp_all add: safe_step_def grows_def)
  have later: "\<forall>(g, q) \<in> set ps. 0 \<le> g \<and> events (fst x1) g = None"
    using Cons.prems(3) f(3) unfolding a(2) by force
  have "distinct (map fst ps)" using Cons.prems(4) by simp
  note IH = Cons.IH [OF x1 later this]
  have e: "foldl (\<lambda>x (f, q). accept_and_keep p t f (getPeerAddr lib q) x) x (q # ps)
      = foldl (\<lambda>x (f, q). accept_and_keep p t f (getPeerAddr lib q) x) x1 ps" by (simp add: q x1_def)
  show ?case unfolding e using IH a(2) safe_trans [OF a(1)] by (simp add: q)
qed

text \<open>
  What the acceptor needs of the kernel: accepted descriptors are not in use, the calls of \<open>accept\<close>
  end with an error, and after a fatal one \<open>socket()\<close> fails or gives a descriptor that is not in use.
\<close>

definition socket_ok :: "(int \<Rightarrow> nat option) \<Rightarrow> int \<Rightarrow> int list \<Rightarrow> bool" where
  "socket_ok table own socks = (case socks of [] \<Rightarrow> True | f # _ \<Rightarrow> f = -1 \<or> 0 \<le> f \<and> (table f = None \<or> f = own))"

fun accepts_ok :: "(int \<Rightarrow> nat option) \<Rightarrow> int \<Rightarrow> int list \<Rightarrow> (int + int \<times> sockaddr) list \<Rightarrow> bool" where
  "accepts_ok table own socks [] = False"
| "accepts_ok table own socks (Inl e # rest) = (retryable e \<or> socket_ok table own socks)"
| "accepts_ok table own socks (Inr (f, q) # rest) =
     (0 \<le> f \<and> table f = None \<and> f \<noteq> own \<and> accepts_ok (table(f \<mapsto> 0)) own socks rest)"

fun acceptor_ok :: "tcp_server \<Rightarrow> answer \<Rightarrow> callback \<Rightarrow> bool" where
  "acceptor_ok s a OnRead = accepts_ok (events (server_loop s)) (getFd (server_loop s) (a_event (listener s)))
     (to_sockets a) (to_accepts a)"
| "acceptor_ok s a OnWrite = True"
| "acceptor_ok s a OnError = socket_ok (events (server_loop s)) (getFd (server_loop s) (a_event (listener s))) (to_sockets a)"
| "acceptor_ok s a OnClose = socket_ok (events (server_loop s)) (getFd (server_loop s) (a_event (listener s))) (to_sockets a)"

lemma accepts_ok_split:
  assumes "accepts_ok table own socks acc"
  obtains ps e rest where "acc = map Inr ps @ Inl e # rest" and "\<forall>(f, q) \<in> set ps. 0 \<le> f \<and> table f = None"
    and "distinct (map fst ps)" and "own \<notin> fst ` set ps"
    and "retryable e \<or> socket_ok (\<lambda>f. if f \<in> fst ` set ps then Some 0 else table f) own socks"
proof -
  have "\<exists>ps e rest. acc = map Inr ps @ Inl e # rest \<and> (\<forall>(f, q) \<in> set ps. 0 \<le> f \<and> table f = None)
      \<and> distinct (map fst ps) \<and> own \<notin> fst ` set ps
      \<and> (retryable e \<or> socket_ok (\<lambda>f. if f \<in> fst ` set ps then Some 0 else table f) own socks)"
    using assms
  proof (induction table own socks acc rule: accepts_ok.induct)
    case (2 table own socks e rest)
    then show ?case by (intro exI [of _ "[]"] exI [of _ e] exI [of _ rest]) simp
  next
    case (3 table own socks f q rest)
    from 3(2) have "accepts_ok (table(f \<mapsto> 0)) own socks rest" by simp
    from 3(1) [OF this] obtain ps e rest' where IH: "rest = map Inr ps @ Inl e # rest'"
        "\<forall>(g, r) \<in> set ps. 0 \<le> g \<and> (table(f \<mapsto> 0)) g = None" "distinct (map fst ps)" "own \<notin> fst ` set ps"
        "retryable e \<or> socket_ok (\<lambda>g. if g \<in> fst ` set ps then Some 0 else (table(f \<mapsto> 0)) g) own socks"
      by blast
    have "f \<notin> fst ` set ps" "\<forall>(g, r) \<in> set ps. 0 \<le> g \<and> table g = None"
      using IH(2) by (auto split: if_splits)
    moreover have "(\<lambda>g. if g \<in> fst ` set ps then Some 0 else (table(f \<mapsto> 0)) g)
        = (\<lambda>g. if g \<in> fst ` set ((f, q) # ps) then Some 0 else table g)" by auto
    ultimately show ?case
      using IH 3(2) by (intro exI [of _ "(f, q) # ps"] exI [of _ e] exI [of _ rest']) auto
  qed simp
  then show thesis using that by blast
qed

lemma loop_queue [simp]:
  "queue (addEvent l ev) = queue l" "queue (removeEvent l ev) = queue l" "queue (setFd l ev f) = queue l"
  by (simp_all add: addEvent_def removeEvent_def setFd_def setEvents_def syscall_def Let_def split: option.splits)

lemma reopen_queue:
  assumes "next_socket a = f" and "0 \<le> f"
  shows "queue (a_loop (acceptor_onClose lib flags old4 old6 a)) = queue (a_loop a)"
proof -
  have "next_socket (acceptor_stop a) \<noteq> -1" using assms by simp
  from acceptor_open_loop(1) [OF this, of lib flags old4 old6] show ?thesis
    by (simp add: acceptor_onClose_def)
qed

lemma reopen_safe:
  fixes s :: tcp_server and a :: answer
  assumes "epoll_laws ctl" and "server_good ctl s" and "registered (server_loop s) (a_event (listener s))"
    and "socket_ok (events (server_loop s)) (getFd (server_loop s) (a_event (listener s))) (a_sockets (listener s))"
  shows "safe_step ctl {} s (Inr (s\<lparr>listener := acceptor_onClose lib flags old4 old6 (listener s)\<rparr>))"
proof -
  let ?av = "a_event (listener s)" and ?l = "server_loop s"
  let ?a = "acceptor_onClose lib flags old4 old6 (listener s)"
  let ?l' = "a_loop ?a"
  have inv: "data_inv ctl ?av ?l (clients s)" by (rule server_goodD(2) [OF assms(2)])
  note i = data_invD [OF inv]
  obtain f where f: "next_socket (listener s) = f" "f = -1 \<or> 0 \<le> f \<and> (events ?l f = None \<or> f = getFd ?l ?av)"
    using assms(4) by (auto simp: socket_ok_def next_socket_def split: list.splits)
  have "reg_inv ctl ?l' \<and> timing ?l' = timing ?l \<and> owner ?l' = owner ?l \<and> pipe ?l' = pipe ?l \<and> a_event ?a = ?av
      \<and> queue ?l' = queue ?l \<and> (\<forall>e. e \<noteq> ?av \<longrightarrow> getFd ?l' e = getFd ?l e) \<and> data_inv ctl ?av ?l' (clients s)"
  proof (cases "f = -1")
    case True
    note o = reopen_fails [OF assms(1) i(1) assms(3) f(1) [unfolded True], of lib flags old4 old6]
    have "data_inv ctl ?av ?l' (clients s)"
      using o by (intro data_inv_acceptor [OF inv assms(3) o(1), where f = "getFd ?l ?av"]) auto
    then show ?thesis using o by simp
  next
    case False
    then have g: "0 \<le> f" "events ?l f = None \<or> f = getFd ?l ?av" using f(2) by auto
    note o = reopen_registers [OF assms(1) i(1) assms(3) f(1) g, of lib flags old4 old6]
    have "data_inv ctl ?av ?l' (clients s)"
      using o(5-7,9) g(2) by (intro data_inv_acceptor [OF inv assms(3) o(1), where f = f]) auto
    then show ?thesis using o reopen_queue [OF f(1) g(1), of lib flags old4 old6] by simp
  qed
  then have o: "timing ?l' = timing ?l" "owner ?l' = owner ?l" "a_event ?a = ?av" "queue ?l' = queue ?l"
      "data_inv ctl ?av ?l' (clients s)" and k: "\<And>e. e \<noteq> ?av \<Longrightarrow> getFd ?l' e = getFd ?l e" by simp_all
  have "server_good ctl (s\<lparr>listener := ?a\<rparr>)"
    using o server_goodD(3-5) [OF assms(2)] by (simp add: server_good_def server_inv_def)
  moreover have "keeps_conn ev s (s\<lparr>listener := ?a\<rparr>)" if "connections (clients s) ev \<noteq> None" for ev
  proof -
    have "ev \<noteq> ?av" using that i(4) by auto
    then show ?thesis using o(1) k by (simp add: keeps_conn_def)
  qed
  ultimately show ?thesis using o by (simp add: safe_step_def grows_def)
qed

lemma acceptor_safe:
  fixes s :: tcp_server and a :: answer
  assumes "epoll_laws ctl" and "program_ok p" and "server_good ctl s" and "t = owner (server_loop s)"
    and "registered (server_loop s) (a_event (listener s))" and "acceptor_ok s a cb"
  shows "safe_step ctl {} s (Inr (acceptor_event p t a cb s))"
proof -
  let ?s1 = "with_sockets a s"
  have s1: "a_loop (listener ?s1) = a_loop (listener s)" "a_event (listener ?s1) = a_event (listener s)"
      "clients ?s1 = clients s" by (simp_all add: with_sockets_def)
  note l = safe_listener [OF s1]
  have reopen: "safe_step ctl {} s (Inr (?s1\<lparr>listener := acceptor_onClose (p_lib p) (p_flags p) (p_old4 p) (p_old6 p) (listener ?s1)\<rparr>))"
    if "socket_ok (events (server_loop s)) (getFd (server_loop s) (a_event (listener s))) (to_sockets a)"
    using reopen_safe [OF assms(1), of ?s1 "p_lib p" "p_flags p" "p_old4 p" "p_old6 p"] that assms(3,5) s1
    unfolding l(2,3) by (simp add: with_sockets_def)
  show ?thesis
  proof (cases cb)
    case OnRead
    then have ok: "accepts_ok (events (server_loop s)) (getFd (server_loop s) (a_event (listener s)))
        (to_sockets a) (to_accepts a)" using assms(6) by simp
    obtain ps e rest where acc: "to_accepts a = map Inr ps @ Inl e # rest"
        "\<forall>(f, q) \<in> set ps. 0 \<le> f \<and> events (server_loop s) f = None" "distinct (map fst ps)"
        "getFd (server_loop s) (a_event (listener s)) \<notin> fst ` set ps"
        "retryable e \<or> socket_ok (\<lambda>f. if f \<in> fst ` set ps then Some 0 else events (server_loop s) f)
           (getFd (server_loop s) (a_event (listener s))) (to_sockets a)"
      by (rule accepts_ok_split [OF ok])
    define x where "x = (server_loop s, clients s)"
    define y where "y = foldl (\<lambda>x (f, q). accept_and_keep p t f (getPeerAddr (p_lib p) q) x) x ps"
    have x: "server_at s x = s" "events (fst x) = events (server_loop s)" by (simp_all add: server_at_def x_def)
    have ys: "safe_step ctl {} s (Inr (server_at s y))"
      and ye: "g \<notin> fst ` set ps \<Longrightarrow> events (fst y) g = events (server_loop s) g" for g
      using accept_many [OF assms(1,2), of s x t ps "p_lib p"] acc(2,3) assms(3,4) unfolding x y_def
      by (simp_all add: x_def)
    define a' where "a' = (listener ?s1)\<lparr>a_accepts := rest,
      a_accepted := a_accepted (listener ?s1) @ map (\<lambda>(fd, q). (fd, getPeerAddr (p_lib p) q)) ps, a_loop := fst y\<rparr>"
    have c: "a_accepts (listener ?s1) = map Inr ps @ Inl e # rest" "\<forall>(f, q) \<in> set ps. 0 \<le> f"
      using acc(1,2) by (auto simp: with_sockets_def)
    have r: "acceptor_event p t a OnRead s = \<lparr>listener = (if retryable e then a' else
        acceptor_onClose (p_lib p) (p_flags p) (p_old4 p) (p_old6 p) a'), clients = snd y\<rparr>"
      using accepts_all_pending [OF c, of "p_lib p" "p_flags p" "p_old4 p" "p_old6 p" "accept_and_keep p t" "clients s"]
      by (simp add: a'_def y_def x_def s1 Let_def)
    let ?s2 = "\<lparr>listener = a', clients = snd y\<rparr>"
    have s2: "a_loop (listener ?s2) = a_loop (listener (server_at s y))"
        "a_event (listener ?s2) = a_event (listener (server_at s y))" "clients ?s2 = clients (server_at s y)"
      by (simp_all add: a'_def s1)
    have y2: "safe_step ctl {} s (Inr ?s2)" using ys unfolding safe_listener(1) [OF s2] .
    show ?thesis
    proof (cases "retryable e")
      case True
      then show ?thesis using y2 OnRead r by simp
    next
      case False
      let ?av = "a_event (listener s)" and ?own = "getFd (server_loop s) (a_event (listener s))"
      have good: "server_good ctl ?s2" using y2 by (simp add: safe_step_def)
      have own: "events (fst y) ?own = Some ?av" using ye [OF acc(4)] assms(5) by (simp add: registered_def)
      have "reg_inv ctl (fst y)" using data_invD(1) [OF server_goodD(2) [OF good]] by (simp add: a'_def)
      then have fd: "getFd (fst y) ?av = ?own" using reg_invD(3) own by (simp add: getFd_def)
      have "socket_ok (events (fst y)) ?own (to_sockets a)"
        using acc(5) False ye by (auto simp: socket_ok_def split: list.splits if_splits)
      then have "safe_step ctl {} ?s2 (Inr (?s2\<lparr>listener := acceptor_onClose (p_lib p) (p_flags p) (p_old4 p) (p_old6 p) a'\<rparr>))"
        using reopen_safe [OF assms(1) good, of "p_lib p" "p_flags p" "p_old4 p" "p_old6 p"] own fd
        by (simp add: a'_def s1 registered_def) (simp add: with_sockets_def)
      from safe_trans [OF y2 this] show ?thesis using False OnRead r by simp
    qed
  qed (use reopen assms(3,6) in \<open>simp_all add: safe_refl acceptor_onError_def Let_def\<close>)
qed

end
