(* ===== verification/ServerRounds.thy ===== *)
theory ServerRounds
  imports ServerLoop
begin

text \<open>
  Whole runs of a server under its event loop: every round returns and keeps the invariant, and
  a connection on which nothing happens is closed by the wheel when its time is up, whatever happens to
  the others.
\<close>

subsection \<open>The parts of a round\<close>

lemma dispatch_safe:
  fixes s :: tcp_server and a :: answer
  assumes "epoll_laws ctl" and "program_ok p" and "server_good ctl s" and "t = owner (server_loop s)"
    and "\<And>cb. events (server_loop s) f = Some (a_event (listener s)) \<Longrightarrow> which_callback m = Some cb \<Longrightarrow> acceptor_ok s a cb"
  shows "safe_step ctl {ev. events (server_loop s) f = Some ev} s (server_dispatch p t s (f, m, a))"
proof -
  note i = data_invD [OF server_goodD(2) [OF assms(3)]]
  have own: "registered (server_loop s) (a_event (listener s))" if "events (server_loop s) f = Some (a_event (listener s))"
    using reg_invD(3) [OF i(1) that] that by (simp add: registered_def getFd_def)
  have conn: "safe_step ctl {ev} s (server_conn s ev (conn_event p t a cb))" for ev cb
    using handler_op.on_server [OF assms(1,3), of "(p, t, a, cb)" ev] assms(2,4) by simp
  show ?thesis
    using acceptor_safe [OF assms(1-4) own assms(5)] pipe_safe [OF assms(3)] conn
    by (auto simp: server_dispatch_def safe_refl [OF assms(3)] split: option.splits intro: safe_mono)
qed

text \<open>What the handlers need along a round: the acceptor's answers are in order when its turn comes.\<close>

fun dispatch_ok :: "server_program \<Rightarrow> nat \<Rightarrow> (int \<times> mask \<times> answer) list \<Rightarrow> tcp_server \<Rightarrow> bool" where
  "dispatch_ok p t [] s = True"
| "dispatch_ok p t ((f, m, a) # xs) s =
     ((events (server_loop s) f = Some (a_event (listener s)) \<longrightarrow>
         (case which_callback m of None \<Rightarrow> True | Some cb \<Rightarrow> acceptor_ok s a cb))
      \<and> (case server_dispatch p t s (f, m, a) of Inl _ \<Rightarrow> True | Inr s1 \<Rightarrow> dispatch_ok p t xs s1))"

text \<open>The connections in \<open>Z\<close> exist and no descriptor in \<open>fs\<close> is theirs.\<close>

definition quiet_fds :: "nat set \<Rightarrow> int set \<Rightarrow> tcp_server \<Rightarrow> bool" where
  "quiet_fds Z fs s \<longleftrightarrow> (\<forall>ev \<in> Z. connections (clients s) ev \<noteq> None \<and> getFd (server_loop s) ev \<notin> fs)"

lemma quiet_fds_safe:
  assumes "quiet_fds Z fs s" and "safe_step ctl (- Z) s (Inr s1)"
  shows "quiet_fds Z fs s1"
  using assms by (simp add: quiet_fds_def safe_step_def keeps_conn_def)

lemma dispatch_ready_safe:
  assumes "epoll_laws ctl" and "program_ok p" and "server_good ctl s" and "t = owner (server_loop s)"
    and "dispatch_ok p t xs s" and "quiet_fds Z (fst ` set xs) s"
  shows "safe_step ctl (- Z) s (dispatch_ready p t xs s)"
  using assms(3-6)
proof (induction xs arbitrary: s)
  case Nil
  then show ?case by (simp add: safe_refl)
next
  case (Cons x xs)
  obtain f m a where x: "x = (f, m, a)" by (cases x)
  note i = data_invD [OF server_goodD(2) [OF Cons.prems(1)]]
  have "safe_step ctl {ev. events (server_loop s) f = Some ev} s (server_dispatch p t s (f, m, a))"
    using Cons.prems(3) by (intro dispatch_safe [OF assms(1,2) Cons.prems(1,2)]) (simp add: x)
  moreover have "{ev. events (server_loop s) f = Some ev} \<subseteq> - Z"
    using same_fd_same_event [OF i(1)] i(7) Cons.prems(4) by (fastforce simp: quiet_fds_def open_conn_def x)
  ultimately have "safe_step ctl (- Z) s (server_dispatch p t s (f, m, a))" by (rule safe_mono)
  then have "safe_step ctl (- Z) s (case server_dispatch p t s (f, m, a) of Inl e \<Rightarrow> Inl e
      | Inr s1 \<Rightarrow> dispatch_ready p t xs s1)"
  proof (rule safe_bind)
    fix s1
    assume s1: "server_dispatch p t s (f, m, a) = Inr s1" "safe_step ctl (- Z) s (Inr s1)"
    have "server_good ctl s1" "t = owner (server_loop s1)"
      using s1(2) Cons.prems(2) by (simp_all add: safe_step_def grows_def)
    moreover have "dispatch_ok p t xs s1" using Cons.prems(3) s1(1) by (simp add: x)
    moreover have "quiet_fds Z (fst ` set xs) s1"
      using quiet_fds_safe [OF Cons.prems(4) s1(2)] by (simp add: quiet_fds_def)
    ultimately show "safe_step ctl (- Z) s1 (dispatch_ready p t xs s1)" by (rule Cons.IH)
  qed
  then show ?case by (simp add: x)
qed

text \<open>The connections in \<open>Z\<close> are there and the wheel has not dropped their entries since \<open>before\<close>.\<close>

definition unfired :: "nat set \<Rightarrow> timing_wheel \<Rightarrow> tcp_server \<Rightarrow> bool" where
  "unfired Z before s \<longleftrightarrow> (\<forall>ev \<in> Z. \<exists>c. connections (clients s) ev = Some c
     \<and> (\<forall>e. timeout_entry c = Some e \<longrightarrow>
          count_list (fired (timing (server_loop s))) e \<le> count_list (fired before) e))"

lemma expire_safe:
  assumes "epoll_laws ctl" and "server_good ctl s" and "t = owner (server_loop s)" and "unfired ({ev} - X) before s"
  shows "safe_step ctl X s (expire t before s ev)"
proof (cases "ev \<in> X")
  case True
  have "safe_step ctl {ev} s (server_conn s ev (\<lambda>c. timeout_destructor c t))"
    using timeout_op.on_server [OF assms(1,2), of t ev] assms(3) by simp
  with True have "safe_step ctl X s (server_conn s ev (\<lambda>c. timeout_destructor c t))" by (auto intro: safe_mono)
  then show ?thesis using safe_refl [OF assms(2)] by (simp add: expire_def split: option.splits)
next
  case False
  then obtain c where "connections (clients s) ev = Some c" "\<forall>e. timeout_entry c = Some e \<longrightarrow>
      count_list (fired (timing (server_loop s))) e \<le> count_list (fired before) e"
    using assms(4) by (auto simp: unfired_def)
  then have "expire t before s ev = Inr s" by (auto simp: expire_def split: option.splits dest: leD)
  then show ?thesis by (simp add: safe_refl [OF assms(2)])
qed

text \<open>The queued closure does nothing to the connections in \<open>Z\<close>.\<close>

fun task_quiet :: "server_program \<Rightarrow> nat set \<Rightarrow> task \<Rightarrow> bool" where
  "task_quiet p Z (UserTask n) = (case closures p n of None \<Rightarrow> True | Some (ev, g) \<Rightarrow> ev \<notin> Z)"
| "task_quiet p Z (InsertTask d e) = (\<forall>ev \<in> Z. payload e \<noteq> Idle ev)"
| "task_quiet p Z _ = True"

lemma task_safe:
  fixes s :: tcp_server
  assumes "epoll_laws ctl" and "server_good ctl s" and "task_ok (next_id (timing (server_loop s))) f"
    and "task_quiet p Z f"
  shows "safe_step ctl (- Z) s (server_task p s f)"
proof -
  let ?l = "server_loop s"
  note i = data_invD [OF server_goodD(2) [OF assms(2)]]
  have "loop_ok ?l" using i(2) server_goodD(3) [OF assms(2)] by (simp add: loop_ok_def)
  from run_task_keeps [OF this assms(3)] obtain tw where tw: "run_task ?l f = Some (?l\<lparr>timing := tw, ran := ran ?l @ [f]\<rparr>)"
      "tw_inv tw" "next_id (timing ?l) \<le> next_id tw" "last_ts tw = last_ts (timing ?l)"
      "\<And>e w. eid e < next_id (timing ?l) \<Longrightarrow> (\<forall>d. f \<noteq> InsertTask d e) \<Longrightarrow>
          occ tw w e = occ (timing ?l) w e \<and> count_list (fired tw) e = count_list (fired (timing ?l)) e"
    by blast
  let ?l1 = "?l\<lparr>timing := tw, ran := ran ?l @ [f]\<rparr>"
  have r: "reg_inv ctl ?l1" using i(1) by (simp add: reg_inv_def watched_def)
  have keep: "occ tw w e = occ (timing ?l) w e \<and> count_list (fired tw) e = count_list (fired (timing ?l)) e"
    if "eid e < next_id (timing ?l)" "payload e = Idle ev" "ev \<notin> - Z" for e w ev
  proof -
    have "\<forall>d. f \<noteq> InsertTask d e" using that assms(4) by auto
    then show ?thesis using tw(5) that(1) by blast
  qed
  have l1: "safe_step ctl (- Z) s (Inr (with_loop s ?l1))"
    using tw(2-4) keep by (intro with_loop_step [OF assms(2) r]) (simp_all add: getFd_def)
  show ?thesis
  proof (cases "\<exists>n ev g. f = UserTask n \<and> closures p n = Some (ev, g)")
    case True
    then obtain n ev g where n: "f = UserTask n" "closures p n = Some (ev, g)" by blast
    have "server_good ctl (with_loop s ?l1)" using l1 by (simp add: safe_step_def)
    from closure_op.on_server [OF assms(1) this, where x = g and ev = ev]
    have "safe_step ctl (- Z) (with_loop s ?l1) (server_conn (with_loop s ?l1) ev (\<lambda>c. run_closure c g))"
      using assms(4) n by (auto intro: safe_mono)
    from safe_trans [OF l1 this] show ?thesis using tw(1) n by (simp add: server_task_def)
  next
    case False
    show ?thesis
    proof (cases "\<exists>d e ev. f = InsertTask d e \<and> payload e = Idle ev")
      case True
      then obtain d e ev where n: "f = InsertTask d e" "payload e = Idle ev" by blast
      have "server_good ctl (with_loop s ?l1)" using l1 by (simp add: safe_step_def)
      then have "safe_step ctl (- Z) (with_loop s ?l1) (expire (owner ?l) (timing ?l) (with_loop s ?l1) ev)"
        using assms(4) n by (intro expire_safe [OF assms(1)]) (auto simp: unfired_def with_loop_def)
      from safe_trans [OF l1 this] show ?thesis using tw(1) n by (simp add: server_task_def)
    next
      case False
      with l1 tw(1) \<open>\<nexists>n ev g. f = UserTask n \<and> closures p n = Some (ev, g)\<close> show ?thesis
        by (cases f) (auto simp: server_task_def split: option.splits payload.splits)
    qed
  qed
qed

lemma pop_safe:
  assumes "server_good ctl s"
  shows "safe_step ctl X s (Inr (with_loop s ((server_loop s)\<lparr>queue := tl (queue (server_loop s))\<rparr>)))"
proof -
  note i = data_invD [OF server_goodD(2) [OF assms]]
  have "reg_inv ctl ((server_loop s)\<lparr>queue := tl (queue (server_loop s))\<rparr>)" using i(1) by (simp add: reg_inv_def watched_def)
  moreover have "set (tl (queue (server_loop s))) \<subseteq> set (queue (server_loop s))" by (cases "queue (server_loop s)") auto
  ultimately show ?thesis using i(2) by (intro with_loop_step [OF assms]) (simp_all add: getFd_def)
qed

lemma tasks_safe:
  fixes s :: tcp_server
  assumes "epoll_laws ctl" and "server_good ctl s" and "\<forall>f \<in> set fs. task_ok (next_id (timing (server_loop s))) f"
    and "\<forall>f \<in> set fs. task_quiet p Z f"
  shows "safe_step ctl (- Z) s (server_tasks p fs s)"
  using assms(2-4)
proof (induction fs arbitrary: s)
  case Nil
  then show ?case by (simp add: safe_refl)
next
  case (Cons f fs)
  have "safe_step ctl (- Z) s (server_task p s f)" using Cons.prems by (intro task_safe [OF assms(1)]) simp_all
  then have "safe_step ctl (- Z) s (case server_task p s f of Inl e \<Rightarrow> Inl e
      | Inr s1 \<Rightarrow> server_tasks p fs (with_loop s1 ((server_loop s1)\<lparr>queue := tl (queue (server_loop s1))\<rparr>)))"
  proof (rule safe_bind)
    fix s1
    assume s1: "safe_step ctl (- Z) s (Inr s1)"
    let ?s2 = "with_loop s1 ((server_loop s1)\<lparr>queue := tl (queue (server_loop s1))\<rparr>)"
    have p: "safe_step ctl (- Z) s1 (Inr ?s2)" using s1 by (intro pop_safe) (simp add: safe_step_def)
    have "next_id (timing (server_loop s)) \<le> next_id (timing (server_loop ?s2))"
      using safe_trans [OF s1 p] by (simp add: safe_step_def grows_def)
    then have "safe_step ctl (- Z) ?s2 (server_tasks p fs ?s2)"
      using p Cons.prems task_ok_mono by (intro Cons.IH) (fastforce simp: safe_step_def)+
    from safe_trans [OF p this] show "safe_step ctl (- Z) s1 (server_tasks p fs ?s2)" .
  qed
  then show ?case by simp
qed

lemma grow_safe:
  assumes "server_good ctl s"
  shows "safe_step ctl X s (Inr (with_loop s (grow_events n (server_loop s))))"
proof -
  note i = data_invD [OF server_goodD(2) [OF assms]]
  have "reg_inv ctl (grow_events n (server_loop s))" using i(1) by (simp add: grow_events_def reg_inv_def watched_def)
  then show ?thesis
    using i(2) by (intro with_loop_step [OF assms]) (simp_all add: grow_events_def getFd_def)
qed

subsection \<open>The timer\<close>

text \<open>\<open>onTimer\<close> takes the first time it is told as its start; it ticks once a second has passed since the last tick.\<close>

definition ticked :: "int \<Rightarrow> int \<Rightarrow> bool" where
  "ticked ts now \<longleftrightarrow> ts \<noteq> 0 \<and> 1000 \<le> now - ts"

definition next_ts :: "int \<Rightarrow> int \<Rightarrow> int" where
  "next_ts ts now = (if ts = 0 \<or> 1000 \<le> now - ts then now else ts)"

lemma onTimer_ticks:
  assumes "tw_inv tw"
  shows "\<exists>tw'. onTimer tw now = Some tw' \<and> tw_inv tw' \<and> next_id tw \<le> next_id tw'
     \<and> last_ts tw' = next_ts (last_ts tw) now
     \<and> (if ticked (last_ts tw) now then advance (tw\<lparr>last_ts := now\<rparr>) = Some tw'
        else fired tw' = fired tw \<and> (\<forall>w e. occ tw' w e = occ tw w e))"
proof (cases "ticked (last_ts tw) now")
  case True
  obtain tw' where tw': "advance (tw\<lparr>last_ts := now\<rparr>) = Some tw'" "last_ts tw' = now" "tw_inv tw'" "next_id tw \<le> next_id tw'"
    using advance_ok [OF tick_inv(2) [OF assms], of now] by (auto simp: evolves_def)
  then show ?thesis using True by (simp add: onTimer_def ticked_def next_ts_def)
next
  case False
  then show ?thesis
    using assms tick_inv(2) [OF assms, of now] by (auto simp: onTimer_def ticked_def next_ts_def)
qed

lemma expire_all_safe:
  assumes "epoll_laws ctl" and "server_good ctl s" and "t = owner (server_loop s)" and "unfired (set evs - X) before s"
  shows "safe_step ctl X s (expire_all t before evs s)"
  using assms(2-4)
proof (induction evs arbitrary: s)
  case Nil
  then show ?case by (simp add: safe_refl)
next
  case (Cons ev evs)
  have "unfired ({ev} - X) before s" using Cons.prems(3) by (auto simp: unfired_def)
  from expire_safe [OF assms(1) Cons.prems(1,2) this]
  have "safe_step ctl X s (case expire t before s ev of Inl e \<Rightarrow> Inl e | Inr s1 \<Rightarrow> expire_all t before evs s1)"
  proof (rule safe_bind)
    fix s1
    assume s1: "safe_step ctl X s (Inr s1)"
    then have "unfired (set evs - X) before s1"
      using Cons.prems(3) by (fastforce simp: unfired_def safe_step_def keeps_conn_def)
    then show "safe_step ctl X s1 (expire_all t before evs s1)"
      using s1 Cons.prems(2) by (intro Cons.IH) (simp_all add: safe_step_def grows_def)
  qed
  then show ?case by simp
qed

lemma expire_all_append:
  "expire_all t before (xs @ ys) s = (case expire_all t before xs s of Inl e \<Rightarrow> Inl e | Inr s1 \<Rightarrow> expire_all t before ys s1)"
  by (induction xs arbitrary: s) (simp_all split: sum.splits)

text \<open>The expired entry's connection is closed.\<close>

lemma expire_closes:
  assumes "epoll_laws ctl" and "server_good ctl s" and "t = owner (server_loop s)"
    and "connections (clients s) ev = Some c" and "timeout_entry c = Some e"
    and "count_list (fired before) e < count_list (fired (timing (server_loop s))) e"
  shows "\<exists>s'. expire t before s ev = Inr s' \<and> safe_step ctl {ev} s (Inr s') \<and> connections (clients s') ev = None"
proof -
  note g = conn_good_of_server [OF assms(2,4)]
  have safe: "safe_step ctl {ev} s (server_conn s ev (\<lambda>c. timeout_destructor c t))"
    using timeout_op.on_server [OF assms(1,2), of t ev] assms(3) by simp
  obtain c1 where c1: "timeout_destructor (c\<lparr>lp := server_loop s\<rparr>) t = Inr c1"
    using good_timeout [OF g assms(3)] by (auto simp: conn_after_def)
  have "\<not> in_server c1" using timeout_cases [OF _ _ _ c1] conn_goodD(1,2,4,8) [OF g] by simp
  with safe c1 show ?thesis using assms(4-6) by (simp add: expire_def server_conn_def)
qed

lemma expire_all_closes:
  assumes "epoll_laws ctl" and "server_good ctl s" and "t = owner (server_loop s)"
    and "connections (clients s) ev = Some c" and "timeout_entry c = Some e"
    and "count_list (fired before) e < count_list (fired (timing (server_loop s))) e" and "ev \<in> set evs"
    and "ev < next_object (clients s)"
  shows "\<exists>s'. expire_all t before evs s = Inr s' \<and> connections (clients s') ev = None"
proof -
  obtain xs ys where evs: "evs = xs @ ev # ys" "ev \<notin> set xs" using split_list_first [OF assms(7)] by blast
  have "safe_step ctl (set xs) s (expire_all t before xs s)"
    using expire_all_safe [OF assms(1-3)] by (simp add: unfired_def)
  then obtain s1 where s1: "expire_all t before xs s = Inr s1" "server_good ctl s1" "grows s s1" "keeps_conn ev s s1"
    using assms(4) evs(2) by (auto simp: safe_step_def)
  have "connections (clients s1) ev = Some c" "count_list (fired before) e < count_list (fired (timing (server_loop s1))) e"
    using s1(4) assms(4-6) by (simp_all add: keeps_conn_def)
  moreover have t: "t = owner (server_loop s1)" using growsD(1) [OF s1(3)] assms(3) by simp
  ultimately obtain s2 where s2: "expire t before s1 ev = Inr s2" "safe_step ctl {ev} s1 (Inr s2)"
      "connections (clients s2) ev = None"
    using expire_closes [OF assms(1) s1(2) _ _ assms(5)] by blast
  have g: "server_good ctl s2" "grows s s2" "t = owner (server_loop s2)"
    using s2(2) grows_trans [OF s1(3)] t growsD(1) by (auto simp: safe_step_def)
  have "safe_step ctl (set ys) s2 (expire_all t before ys s2)"
    using expire_all_safe [OF assms(1) g(1,3)] by (simp add: unfired_def)
  then obtain s3 where s3: "expire_all t before ys s2 = Inr s3" "grows s2 s3" by (auto simp: safe_step_def)
  have "connections (clients s3) ev = None"
    using growsD(5) [OF s3(2) _ s2(3)] growsD(4) [OF g(2)] assms(8) by simp
  then show ?thesis using s1(1) s2(1) s3(1) by (simp add: evs(1) expire_all_append)
qed

text \<open>Connection \<open>ev\<close>, with the limit \<open>d\<close>, is open and closes after \<open>k\<close> ticks, unless something happens on it.\<close>

definition idles :: "tcp_server \<Rightarrow> nat \<Rightarrow> nat \<Rightarrow> nat \<Rightarrow> bool" where
  "idles s ev d k \<longleftrightarrow> (\<exists>c e. connections (clients s) ev = Some c \<and> idle_left (c\<lparr>lp := server_loop s\<rparr>) e d k)"

lemma idle_left_moved:
  assumes "idle_left (c\<lparr>lp := l\<rparr>) e d k" and "tw_inv (timing l')" and "next_id (timing l) \<le> next_id (timing l')"
    and "\<And>w. occ (timing l') w e = occ (timing l) w e" and "registered l' (event_id c)"
  shows "idle_left (c\<lparr>lp := l'\<rparr>) e d k"
  using assms by (simp add: idle_left_def short_lived_def)

lemma conn_registered:
  assumes "server_good ctl s" and "connections (clients s) ev = Some c"
  shows "event_id c = ev" and "registered (server_loop s) ev" and "ev < next_object (clients s)"
    and "tw_inv (timing (server_loop s))"
  using data_invD(2,7) [OF server_goodD(2) [OF assms(1)]] assms(2) by (auto simp: open_conn_def)

lemma idles_keeps:
  assumes "idles s ev d k" and "keeps_conn ev s s'" and "grows s s'" and "server_good ctl s" and "server_good ctl s'"
  shows "idles s' ev d k" and "getFd (server_loop s') ev = getFd (server_loop s) ev"
proof -
  obtain c e where c: "connections (clients s) ev = Some c" "idle_left (c\<lparr>lp := server_loop s\<rparr>) e d k"
    using assms(1) by (auto simp: idles_def)
  have c': "connections (clients s') ev = Some c" using assms(2) c(1) by (simp add: keeps_conn_def)
  have "timeout_entry c = Some e" using c(2) by (simp add: idle_left_def)
  then have "occ (timing (server_loop s')) w e = occ (timing (server_loop s)) w e" for w
    using assms(2) c(1) by (simp add: keeps_conn_def)
  then have "idle_left (c\<lparr>lp := server_loop s'\<rparr>) e d k"
    using idle_left_moved [OF c(2)] growsD(3) [OF assms(3)] conn_registered [OF assms(5) c'] by simp
  then show "idles s' ev d k" using c' by (auto simp: idles_def)
  show "getFd (server_loop s') ev = getFd (server_loop s) ev" using assms(2) by (simp add: keeps_conn_def)
qed

lemma idles_safe:
  assumes "idles s ev d k" and "safe_step ctl X s (Inr s')" and "ev \<notin> X" and "server_good ctl s"
  shows "idles s' ev d k" and "getFd (server_loop s') ev = getFd (server_loop s) ev"
proof -
  have "keeps_conn ev s s'" "grows s s'" "server_good ctl s'"
    using assms(1-3) by (auto simp: safe_step_def idles_def)
  from idles_keeps [OF assms(1) this(1,2) assms(4) this(3)]
  show "idles s' ev d k" "getFd (server_loop s') ev = getFd (server_loop s) ev" .
qed

text \<open>One call of the timer: it returns, and takes one tick off every idle connection or closes it.\<close>

lemma timer_loop:
  assumes "server_good ctl s" and "onTimer (timing (server_loop s)) now = Some tw" and "tw_inv tw"
    and "next_id (timing (server_loop s)) \<le> next_id tw"
  defines "s1 \<equiv> with_loop s ((server_loop s)\<lparr>timing := tw\<rparr>)"
  shows "server_good ctl s1" and "grows s s1" and "clients s1 = clients s"
    and "server_loop s1 = (server_loop s)\<lparr>timing := tw\<rparr>"
proof -
  note i = data_invD [OF server_goodD(2) [OF assms(1)]]
  show "server_good ctl s1"
    using assms(3,4) i(1) unfolding s1_def by (intro with_loop_safe [OF assms(1)]) simp_all
  show "grows s s1" "clients s1 = clients s" "server_loop s1 = (server_loop s)\<lparr>timing := tw\<rparr>"
    using assms(4) by (simp_all add: grows_def s1_def with_loop_def)
qed

lemma timer_step:
  assumes "epoll_laws ctl" and "server_good ctl s" and "t = owner (server_loop s)"
  shows "\<exists>s'. server_timer t now s = Inr s' \<and> server_good ctl s' \<and> grows s s'
     \<and> set (queue (server_loop s')) \<subseteq> set (queue (server_loop s))
     \<and> last_ts (timing (server_loop s')) = next_ts (last_ts (timing (server_loop s))) now
     \<and> (\<forall>ev d k. idles s ev d k \<longrightarrow>
          (if ticked (last_ts (timing (server_loop s))) now \<and> k = 1 then connections (clients s') ev = None
           else idles s' ev d (if ticked (last_ts (timing (server_loop s))) now then k - 1 else k)
             \<and> getFd (server_loop s') ev = getFd (server_loop s) ev))"
proof -
  let ?l = "server_loop s"
  note i = data_invD [OF server_goodD(2) [OF assms(2)]]
  obtain tw where tw: "onTimer (timing ?l) now = Some tw" "tw_inv tw" "next_id (timing ?l) \<le> next_id tw"
      "last_ts tw = next_ts (last_ts (timing ?l)) now"
      "if ticked (last_ts (timing ?l)) now then advance ((timing ?l)\<lparr>last_ts := now\<rparr>) = Some tw
       else fired tw = fired (timing ?l) \<and> (\<forall>w e. occ tw w e = occ (timing ?l) w e)"
    using onTimer_ticks [OF i(2)] by blast
  define s1 where "s1 = with_loop s (?l\<lparr>timing := tw\<rparr>)"
  note s1 = timer_loop [OF assms(2) tw(1-3), folded s1_def]
  have t: "t = owner (server_loop s1)" using assms(3) by (simp add: s1(4))
  let ?evs = "[0..<next_object (clients s)]"
  have r: "server_timer t now s = expire_all t (timing ?l) ?evs s1"
    using tw(1) by (simp add: server_timer_def s1_def)
  have "safe_step ctl UNIV s1 (expire_all t (timing ?l) ?evs s1)"
    using expire_all_safe [OF assms(1) s1(1) t] by (simp add: unfired_def)
  then obtain s2 where s2: "expire_all t (timing ?l) ?evs s1 = Inr s2" "server_good ctl s2" "grows s1 s2"
      "last_ts (timing (server_loop s2)) = last_ts tw" "set (queue (server_loop s2)) \<subseteq> set (queue ?l)"
    by (auto simp: safe_step_def s1(4))
  have stays: "idles s2 ev d j \<and> getFd (server_loop s2) ev = getFd ?l ev"
    if "idles s1 ev d j" "connections (clients s) ev = Some c" "timeout_entry c = Some e"
      "count_list (fired tw) e \<le> count_list (fired (timing ?l)) e" for ev d j c e
  proof -
    have "unfired (set ?evs - (- {ev})) (timing ?l) s1" using that by (auto simp: unfired_def s1(3,4))
    from expire_all_safe [OF assms(1) s1(1) t this] idles_safe [OF that(1), of ctl "- {ev}" s2] s1(1) s2(1)
    show ?thesis by (simp add: s1(4))
  qed
  have "if ticked (last_ts (timing ?l)) now \<and> k = 1 then connections (clients s2) ev = None
      else idles s2 ev d (if ticked (last_ts (timing ?l)) now then k - 1 else k) \<and> getFd (server_loop s2) ev = getFd ?l ev"
    if id: "idles s ev d k" for ev d k
  proof -
    obtain c e where c: "connections (clients s) ev = Some c" "idle_left (c\<lparr>lp := ?l\<rparr>) e d k"
      using id by (auto simp: idles_def)
    note cr = conn_registered [OF assms(2) c(1)]
    have reg: "registered (?l\<lparr>timing := x\<rparr>) ev" for x using cr(2) by (simp add: registered_def)
    have te: "timeout_entry c = Some e" using c(2) by (simp add: idle_left_def)
    show ?thesis
    proof (cases "ticked (last_ts (timing ?l)) now")
      case False
      then have "idle_left (c\<lparr>lp := ?l\<lparr>timing := tw\<rparr>\<rparr>) e d k"
        using tw(2,3,5) reg cr(1) by (intro idle_left_moved [OF c(2)]) simp_all
      then have "idles s1 ev d k" using c(1) by (auto simp: idles_def s1(3,4))
      from stays [OF this c(1) te] False tw(5) show ?thesis by simp
    next
      case True
      let ?later = "?l\<lparr>timing := (timing ?l)\<lparr>last_ts := now\<rparr>\<rparr>"
      have "idle_left (c\<lparr>lp := ?later\<rparr>) e d k"
        using tick_inv(2) [OF i(2)] reg cr(1) by (intro idle_left_moved [OF c(2)]) simp_all
      moreover obtain j where k: "k = Suc j" using c(2) by (cases k) (simp_all add: idle_left_def)
      ultimately have adv: "short_lived tw e" "occ tw kTimingTypeSecond e = {i. Suc i \<in> occ (timing ?l) kTimingTypeSecond e}"
          "count_list (fired (timing ?l)) e < count_list (fired tw) e \<longleftrightarrow> j = 0"
        using idle_left_tick [of "c\<lparr>lp := ?later\<rparr>" e d j] tw(5) True by auto
      show ?thesis
      proof (cases j)
        case 0
        then have "count_list (fired (timing ?l)) e < count_list (fired (timing (server_loop s1))) e"
          using adv(3) by (simp add: s1(4))
        from expire_all_closes [OF assms(1) s1(1) t _ te, where before = "timing ?l" and ev = ev and evs = ?evs, OF _ this]
          c(1) cr(3) s2(1)
        show ?thesis using 0 k True by (simp add: s1(3))
      next
        case (Suc m)
        have "idle_left (c\<lparr>lp := ?l\<lparr>timing := tw\<rparr>\<rparr>) e d j"
          using c(2) adv(1,2) tw(2) reg cr(1) Suc by (auto simp: idle_left_def k)
        then have "idles s1 ev d j" using c(1) by (auto simp: idles_def s1(3,4))
        from stays [OF this c(1) te] adv(3) show ?thesis using Suc k True by simp
      qed
    qed
  qed
  then show ?thesis using r s2 grows_trans [OF s1(2) s2(3)] tw(4) by auto
qed

subsection \<open>Rounds\<close>

text \<open>Nothing in the round concerns the connections in \<open>Z\<close>: not the descriptors reported, not the closures queued.\<close>

definition round_quiet :: "server_program \<Rightarrow> nat set \<Rightarrow> int set \<Rightarrow> tcp_server \<Rightarrow> bool" where
  "round_quiet p Z fs s \<longleftrightarrow> quiet_fds Z fs s \<and> (\<forall>f \<in> set (queue (server_loop s)). task_quiet p Z f)"

lemma task_quiet_none [simp]: "task_quiet p {} f"
  by (cases f) (simp_all split: option.splits)

lemma round_quiet_none: "round_quiet p {} fs s"
  by (simp add: round_quiet_def quiet_fds_def)

text \<open>The round up to the timer.\<close>

definition round_work ::
    "server_program \<Rightarrow> nat \<Rightarrow> (int \<times> mask \<times> answer) list \<Rightarrow> tcp_server \<Rightarrow> conn_error + tcp_server" where
  "round_work p t ready s =
     (case dispatch_ready p t ready s of
        Inl e \<Rightarrow> Inl e
      | Inr s1 \<Rightarrow>
          let s2 = with_loop s1 (grow_events (length ready) (server_loop s1))
          in server_tasks p (queue (server_loop s2)) s2)"

lemma server_round_work:
  "server_round p t (Some ready, now) s
     = (case round_work p t ready s of Inl e \<Rightarrow> Inl e | Inr s3 \<Rightarrow> server_timer t now s3)"
  by (simp add: server_round_def round_work_def Let_def split: sum.splits)

lemma after_dispatch_safe:
  fixes s :: tcp_server and n :: nat
  assumes "epoll_laws ctl" and "server_good ctl s" and "\<forall>f \<in> set (queue (server_loop s)). task_quiet p Z f"
  defines "s2 \<equiv> with_loop s (grow_events n (server_loop s))"
  shows "safe_step ctl (- Z) s (server_tasks p (queue (server_loop s2)) s2)"
proof -
  have g: "safe_step ctl (- Z) s (Inr s2)" unfolding s2_def by (rule grow_safe [OF assms(2)])
  then have "set (queue (server_loop s2)) \<subseteq> set (queue (server_loop s))" and good: "server_good ctl s2"
    by (simp_all add: safe_step_def)
  then have "\<forall>f \<in> set (queue (server_loop s2)). task_quiet p Z f" using assms(3) by auto
  then have "safe_step ctl (- Z) s2 (server_tasks p (queue (server_loop s2)) s2)"
    using server_goodD(3) [OF good] by (intro tasks_safe [OF assms(1) good]) auto
  from safe_trans [OF g this] show ?thesis .
qed

lemma work_safe:
  fixes s :: tcp_server
  assumes "epoll_laws ctl" and "program_ok p" and "server_good ctl s" and "t = owner (server_loop s)"
    and "dispatch_ok p t ready s" and "round_quiet p Z (fst ` set ready) s"
  shows "safe_step ctl (- Z) s (round_work p t ready s)"
proof -
  have "quiet_fds Z (fst ` set ready) s" using assms(6) by (simp add: round_quiet_def)
  from dispatch_ready_safe [OF assms(1-5) this] show ?thesis
    unfolding round_work_def
  proof (rule safe_bind)
    fix s1
    assume "safe_step ctl (- Z) s (Inr s1)"
    then have "server_good ctl s1" "\<forall>f \<in> set (queue (server_loop s1)). task_quiet p Z f"
      using assms(6) by (auto simp: round_quiet_def safe_step_def)
    from after_dispatch_safe [OF assms(1) this]
    show "safe_step ctl (- Z) s1 (let s2 = with_loop s1 (grow_events (length ready) (server_loop s1))
        in server_tasks p (queue (server_loop s2)) s2)" by (simp add: Let_def)
  qed
qed

lemma round_step:
  fixes s :: tcp_server
  assumes "epoll_laws ctl" and "program_ok p" and "server_good ctl s" and "t = owner (server_loop s)"
    and "dispatch_ok p t ready s"
  shows "\<exists>s'. server_round p t (Some ready, now) s = Inr s' \<and> server_good ctl s' \<and> grows s s'
     \<and> set (queue (server_loop s')) \<subseteq> set (queue (server_loop s))
     \<and> last_ts (timing (server_loop s')) = next_ts (last_ts (timing (server_loop s))) now
     \<and> (\<forall>ev d k. idles s ev d k \<and> round_quiet p {ev} (fst ` set ready) s \<longrightarrow>
          (if ticked (last_ts (timing (server_loop s))) now \<and> k = 1 then connections (clients s') ev = None
           else idles s' ev d (if ticked (last_ts (timing (server_loop s))) now then k - 1 else k)
             \<and> getFd (server_loop s') ev = getFd (server_loop s) ev))"
proof -
  note w = work_safe [OF assms]
  obtain s3 where s3: "round_work p t ready s = Inr s3" "server_good ctl s3" "grows s s3"
      "set (queue (server_loop s3)) \<subseteq> set (queue (server_loop s))"
      "last_ts (timing (server_loop s3)) = last_ts (timing (server_loop s))"
    using w [OF round_quiet_none] by (auto simp: safe_step_def)
  have t: "t = owner (server_loop s3)" using growsD(1) [OF s3(3)] assms(4) by simp
  have id: "idles s3 ev d k \<and> getFd (server_loop s3) ev = getFd (server_loop s) ev"
    if "idles s ev d k" "round_quiet p {ev} (fst ` set ready) s" for ev d k
    using idles_safe [OF that(1), of ctl "- {ev}" s3] w [OF that(2)] s3(1) assms(3) by simp
  obtain s4 where s4: "server_timer t now s3 = Inr s4" "server_good ctl s4" "grows s3 s4"
      "set (queue (server_loop s4)) \<subseteq> set (queue (server_loop s3))"
      "last_ts (timing (server_loop s4)) = next_ts (last_ts (timing (server_loop s3))) now"
    and idle: "\<And>ev d k. idles s3 ev d k \<Longrightarrow>
          (if ticked (last_ts (timing (server_loop s3))) now \<and> k = 1 then connections (clients s4) ev = None
           else idles s4 ev d (if ticked (last_ts (timing (server_loop s3))) now then k - 1 else k)
             \<and> getFd (server_loop s4) ev = getFd (server_loop s3) ev)"
    using timer_step [OF assms(1) s3(2) t, of now] by blast
  have "if ticked (last_ts (timing (server_loop s))) now \<and> k = 1 then connections (clients s4) ev = None
           else idles s4 ev d (if ticked (last_ts (timing (server_loop s))) now then k - 1 else k)
             \<and> getFd (server_loop s4) ev = getFd (server_loop s) ev"
    if "idles s ev d k" "round_quiet p {ev} (fst ` set ready) s" for ev d k
    using idle [of ev d k, unfolded s3(5)] id [OF that] by presburger
  moreover have "server_round p t (Some ready, now) s = Inr s4" using s3(1) s4(1) by (simp add: server_round_work)
  moreover have "last_ts (timing (server_loop s4)) = next_ts (last_ts (timing (server_loop s))) now"
    using s4(5) s3(5) by simp
  ultimately show ?thesis using s4(2) grows_trans [OF s3(3) s4(3)] order.trans [OF s4(4) s3(4)] by blast
qed

subsection \<open>Runs\<close>

text \<open>
  What happens to a running server: another thread queues a closure, \<open>rfd\<close> being the read end of the pipe if
  that is the first wake-up, or the loop makes a round, with what \<open>epoll_wait\<close> returned and the time after it.
\<close>

datatype activity = Post task int | Round "(int \<times> mask \<times> answer) list option" int

definition server_post :: "task \<Rightarrow> int \<Rightarrow> tcp_server \<Rightarrow> tcp_server" where
  "server_post f rfd s =
     s\<lparr>listener := (listener s)\<lparr>a_loop :=
         weakup ((server_loop s)\<lparr>queue := queue (server_loop s) @ [f]\<rparr>) (next_object (clients s)) rfd\<rparr>,
       clients := (clients s)\<lparr>next_object := Suc (next_object (clients s))\<rparr>\<rparr>"

fun server_activity :: "server_program \<Rightarrow> nat \<Rightarrow> activity \<Rightarrow> tcp_server \<Rightarrow> conn_error + tcp_server" where
  "server_activity p t (Post f rfd) s = Inr (server_post f rfd s)"
| "server_activity p t (Round waited now) s = server_round p t (waited, now) s"

fun server_run :: "server_program \<Rightarrow> nat \<Rightarrow> activity list \<Rightarrow> tcp_server \<Rightarrow> conn_error + tcp_server" where
  "server_run p t [] s = Inr s"
| "server_run p t (x # xs) s =
     (case server_activity p t x s of Inl e \<Rightarrow> Inl e | Inr s1 \<Rightarrow> server_run p t xs s1)"

text \<open>What a run needs of its surroundings: descriptors that are new are not in use, and closures the wheel can carry out.\<close>

fun activity_ok :: "server_program \<Rightarrow> nat \<Rightarrow> activity \<Rightarrow> tcp_server \<Rightarrow> bool" where
  "activity_ok p t (Post f rfd) s \<longleftrightarrow> events (server_loop s) rfd = None \<and> 0 \<le> rfd
     \<and> task_ok (next_id (timing (server_loop s))) f"
| "activity_ok p t (Round (Some ready) now) s = dispatch_ok p t ready s"
| "activity_ok p t (Round None now) s = True"

fun run_ok :: "server_program \<Rightarrow> nat \<Rightarrow> activity list \<Rightarrow> tcp_server \<Rightarrow> bool" where
  "run_ok p t [] s = True"
| "run_ok p t (x # xs) s \<longleftrightarrow> activity_ok p t x s
     \<and> (case server_activity p t x s of Inl _ \<Rightarrow> True | Inr s1 \<Rightarrow> run_ok p t xs s1)"

lemma server_post_ok:
  assumes "epoll_laws ctl" and "server_good ctl s" and "events (server_loop s) rfd = None"
    and "task_ok (next_id (timing (server_loop s))) f" and "0 \<le> rfd"
  shows "server_good ctl (server_post f rfd s)" and "grows s (server_post f rfd s)"
    and "queue (server_loop (server_post f rfd s)) = queue (server_loop s) @ [f]"
    and "timing (server_loop (server_post f rfd s)) = timing (server_loop s)"
    and "connections (clients s) ev \<noteq> None \<Longrightarrow> keeps_conn ev s (server_post f rfd s)"
proof -
  let ?l = "server_loop s" and ?s = "server_post f rfd s"
  have inv: "data_inv ctl (a_event (listener s)) ?l (clients s)" by (rule server_goodD(2) [OF assms(2)])
  have d: "data_inv ctl (a_event (listener s)) (server_loop ?s) (clients ?s)"
    using weakup_inv [OF assms(1) inv assms(3,5)] by (simp add: server_post_def)
  show tm: "timing (server_loop ?s) = timing ?l" and q: "queue (server_loop ?s) = queue ?l @ [f]"
    by (simp_all add: server_post_def weakup_def Let_def new_Event_def addEvent_def syscall_def setEvents_def split: option.splits)
  have o: "owner (server_loop ?s) = owner ?l"
    by (simp add: server_post_def weakup_def Let_def new_Event_def addEvent_def syscall_def setEvents_def split: option.splits)
  have fd: "getFd (server_loop ?s) e = getFd ?l e" if "e \<noteq> next_object (clients s)" for e
    using that by (simp add: server_post_def weakup_def Let_def new_Event_def addEvent_def syscall_def setEvents_def getFd_def split: option.splits)
  have cl: "connections (clients ?s) = connections (clients s)" "a_event (listener ?s) = a_event (listener s)"
      "next_object (clients ?s) = Suc (next_object (clients s))" by (simp_all add: server_post_def)
  show "server_good ctl ?s"
    using d server_goodD(3-5) [OF assms(2)] assms(4) by (simp add: server_good_def server_inv_def tm q cl)
  show "grows s ?s" by (simp add: grows_def tm o cl)
  show "keeps_conn ev s ?s" if "connections (clients s) ev \<noteq> None"
  proof -
    have "ev \<noteq> next_object (clients s)" using data_invD(7) [OF inv, of ev] that by auto
    then show ?thesis using fd by (simp add: keeps_conn_def tm cl)
  qed
qed

lemma activity_step:
  assumes "epoll_laws ctl" and "program_ok p" and "server_good ctl s" and "t = owner (server_loop s)"
    and "activity_ok p t x s"
  shows "\<exists>s'. server_activity p t x s = Inr s' \<and> server_good ctl s' \<and> grows s s'"
proof (cases x)
  case (Post f rfd)
  then show ?thesis using server_post_ok(1,2) [OF assms(1,3)] assms(5) by simp
next
  case (Round w now)
  show ?thesis
  proof (cases w)
    case None
    then show ?thesis using Round assms(3) by (simp add: server_round_def grows_refl)
  next
    case (Some ready)
    then have "dispatch_ok p t ready s" using Round assms(5) by simp
    from round_step [OF assms(1-4) this, of now] Round Some show ?thesis by auto
  qed
qed

lemma run_good:
  assumes "epoll_laws ctl" and "program_ok p" and "server_good ctl s" and "t = owner (server_loop s)"
    and "run_ok p t xs s"
  shows "\<exists>s'. server_run p t xs s = Inr s' \<and> server_good ctl s' \<and> grows s s'"
  using assms(3-5)
proof (induction xs arbitrary: s)
  case Nil
  then show ?case by (simp add: grows_refl)
next
  case (Cons x xs)
  obtain s1 where s1: "server_activity p t x s = Inr s1" "server_good ctl s1" "grows s s1"
    using activity_step [OF assms(1,2) Cons.prems(1,2)] Cons.prems(3) by auto
  have "t = owner (server_loop s1)" "run_ok p t xs s1" using growsD(1) [OF s1(3)] Cons.prems(2,3) s1(1) by simp_all
  from Cons.IH [OF s1(2) this] s1(1) grows_trans [OF s1(3)] show ?case by auto
qed

text \<open>The ticks of the wheel in a run that starts with the wheel's clock at \<open>ts\<close>.\<close>

fun ticks :: "int \<Rightarrow> activity list \<Rightarrow> nat" where
  "ticks ts [] = 0"
| "ticks ts (Post f rfd # xs) = ticks ts xs"
| "ticks ts (Round None now # xs) = ticks ts xs"
| "ticks ts (Round (Some ready) now # xs) = (if ticked ts now then 1 else 0) + ticks (next_ts ts now) xs"

text \<open>The activity does not concern connection \<open>ev\<close>, whose descriptor is \<open>f\<close>.\<close>

fun activity_quiet :: "server_program \<Rightarrow> nat \<Rightarrow> int \<Rightarrow> activity \<Rightarrow> bool" where
  "activity_quiet p ev f (Post g rfd) = task_quiet p {ev} g"
| "activity_quiet p ev f (Round (Some ready) now) \<longleftrightarrow> f \<notin> fst ` set ready"
| "activity_quiet p ev f (Round None now) = True"

lemma idle_connection_run:
  assumes "epoll_laws ctl" and "program_ok p" and "server_good ctl s" and "t = owner (server_loop s)"
    and "run_ok p t xs s" and "idles s ev d k" and "\<forall>g \<in> set (queue (server_loop s)). task_quiet p {ev} g"
    and "\<forall>x \<in> set xs. activity_quiet p ev (getFd (server_loop s) ev) x"
  defines "n \<equiv> ticks (last_ts (timing (server_loop s))) xs"
  shows "\<exists>s'. server_run p t xs s = Inr s' \<and> server_good ctl s'
     \<and> (if n < k then idles s' ev d (k - n) \<and> getFd (server_loop s') ev = getFd (server_loop s) ev
        else connections (clients s') ev = None)"
  using assms(3-8) unfolding n_def
proof (induction xs arbitrary: s k)
  case Nil
  moreover have "0 < k" using Nil(4) by (auto simp: idles_def idle_left_def)
  ultimately show ?case by simp
next
  case (Cons x xs)
  let ?f = "getFd (server_loop s) ev" and ?ts = "last_ts (timing (server_loop s))"
  obtain c where c: "connections (clients s) ev = Some c" using Cons.prems(4) by (auto simp: idles_def)
  have ok: "activity_ok p t x s" using Cons.prems(3) by simp
  obtain s1 where s1: "server_activity p t x s = Inr s1" "server_good ctl s1" "grows s s1"
    using activity_step [OF assms(1,2) Cons.prems(1,2) ok] by blast
  have run1: "t = owner (server_loop s1)" "run_ok p t xs s1"
    using growsD(1) [OF s1(3)] Cons.prems(2,3) s1(1) by simp_all
  have rest: "?case" if "idles s1 ev d j" "getFd (server_loop s1) ev = ?f"
      "\<forall>g \<in> set (queue (server_loop s1)). task_quiet p {ev} g"
      "ticks ?ts (x # xs) + j = k + ticks (last_ts (timing (server_loop s1))) xs" "j \<le> k" for j
  proof -
    let ?n = "ticks ?ts (x # xs)" and ?m = "ticks (last_ts (timing (server_loop s1))) xs"
    note fd = that(2) and IH = Cons.IH [OF s1(2) run1 that(1,3)]
    have "?m < j \<longleftrightarrow> ?n < k" "j - ?m = k - ?n" using that(4,5) by linarith+
    moreover obtain s2 where s2: "server_run p t xs s1 = Inr s2" "server_good ctl s2"
        "if ?m < j then idles s2 ev d (j - ?m) \<and> getFd (server_loop s2) ev = getFd (server_loop s1) ev
         else connections (clients s2) ev = None"
      using IH Cons.prems(6) fd by auto
    ultimately have "if ?n < k then idles s2 ev d (k - ?n) \<and> getFd (server_loop s2) ev = ?f
         else connections (clients s2) ev = None"
      using fd by presburger
    then show ?thesis using s1(1) s2(1,2) by (simp del: ticks.simps)
  qed
  show ?case
  proof (cases x)
    case (Post f rfd)
    have o: "events (server_loop s) rfd = None" "task_ok (next_id (timing (server_loop s))) f" "s1 = server_post f rfd s"
        "0 \<le> rfd" using ok s1(1) by (simp_all add: Post)
    note po = server_post_ok [OF assms(1) Cons.prems(1) o(1,2,4), folded o(3)]
    have "keeps_conn ev s s1" using po(5) c by simp
    from idles_keeps [OF Cons.prems(4) this s1(3) Cons.prems(1) s1(2)] show ?thesis
      using Cons.prems(5,6) po(3,4) by (intro rest [of k]) (auto simp: Post)
  next
    case (Round w now)
    show ?thesis
    proof (cases w)
      case None
      then have "s1 = s" using s1(1) Round by (simp add: server_round_def)
      then show ?thesis using Cons.prems(4,5) Round None by (intro rest [of k]) simp_all
    next
      case (Some ready)
      have d: "dispatch_ok p t ready s" using ok by (simp add: Round Some)
      have q: "round_quiet p {ev} (fst ` set ready) s"
        using Cons.prems(5,6) c by (simp add: round_quiet_def quiet_fds_def Round Some)
      have r: "set (queue (server_loop s1)) \<subseteq> set (queue (server_loop s))"
          "last_ts (timing (server_loop s1)) = next_ts ?ts now"
          "if ticked ?ts now \<and> k = 1 then connections (clients s1) ev = None
           else idles s1 ev d (if ticked ?ts now then k - 1 else k) \<and> getFd (server_loop s1) ev = ?f"
        using round_step [OF assms(1,2) Cons.prems(1,2) d, of now] s1(1) Cons.prems(4) q by (auto simp: Round Some)
      show ?thesis
      proof (cases "ticked ?ts now \<and> k = 1")
        case True
        obtain s2 where s2: "server_run p t xs s1 = Inr s2" "server_good ctl s2" "grows s1 s2"
          using run_good [OF assms(1,2) s1(2) run1] by blast
        have "ev < next_object (clients s1)"
          using conn_registered(3) [OF Cons.prems(1) c] growsD(4) [OF s1(3)] by simp
        then have "connections (clients s2) ev = None" using growsD(5) [OF s2(3)] r(3) True by simp
        then show ?thesis using True s1(1) s2(1,2) by (simp add: Round Some)
      next
        case False
        then have id: "idles s1 ev d (if ticked ?ts now then k - 1 else k)" and fd: "getFd (server_loop s1) ev = ?f"
          using r(3) by auto
        then have "0 < (if ticked ?ts now then k - 1 else k)" by (auto simp: idles_def idle_left_def)
        then show ?thesis
          using id fd r(1,2) Cons.prems(5) by (intro rest [OF id fd]) (auto simp: Round Some split: if_splits)
      qed
    qed
  qed
qed

subsection \<open>Properties\<close>

text \<open>
  C2. A server does not fall over: whatever events the kernel reports, in whatever order, however its sockets
  answer, failing to give the acceptor a new socket included, and however the clock runs, every round of its loop returns, provided
  the user of the server holds the connections, the message callback leaves the buffer in order, the closures
  that other threads queue are ones the wheel can carry out (a periodic timer of an interval
  that no wheel covers never returns), the first wake-up can make its pipe, and descriptors that the kernel hands out are not in use. The
  invariant is kept: every connection in the set is open, its buffer is in order, and the kernel watches its descriptor.
\<close>

theorem server_run_returns:
  fixes s :: tcp_server
  assumes "epoll_laws ctl" and "program_ok p" and "server_good ctl s" and "t = owner (server_loop s)"
    and "run_ok p t xs s"
  shows "\<exists>s'. server_run p t xs s = Inr s' \<and> server_good ctl s'
     \<and> (\<forall>ev c. connections (clients s') ev = Some c \<longrightarrow> \<not> closed c \<and> buf_ok (message_buffer c)
          \<and> watched ctl (server_loop s') (getFd (server_loop s') ev) \<noteq> None)"
proof -
  obtain s' where s': "server_run p t xs s = Inr s'" "server_good ctl s'" using run_good [OF assms] by blast
  note i = data_invD [OF server_goodD(2) [OF s'(2)]]
  have "\<not> closed c \<and> buf_ok (message_buffer c) \<and> watched ctl (server_loop s') (getFd (server_loop s') ev) \<noteq> None"
    if "connections (clients s') ev = Some c" for ev c
    using i(7) [OF that] server_goodD(4) [OF s'(2) that] reg_invD(2) [OF i(1)]
    by (auto simp: open_conn_def registered_def)
  with s' show ?thesis by blast
qed

text \<open>
  C3. Silent connections are reaped in time: in a server whose user holds all connections, a connection with a limit
  of less than 60 seconds and \<open>k\<close> ticks left, of whose descriptor the
  kernel reports nothing and that no closure concerns, stays open and watched while the run has fewer than
  \<open>k\<close> ticks, and is out of the server's set from the \<open>k\<close>-th on, whatever the acceptor, the other connections
  and the other timers do meanwhile. A round ticks when a second has passed since the last tick.
\<close>

theorem idle_connection_reaped:
  fixes s :: tcp_server
  assumes "epoll_laws ctl" and "program_ok p" and "server_good ctl s" and "t = owner (server_loop s)"
    and "run_ok p t xs s" and "idles s ev d k" and "\<forall>g \<in> set (queue (server_loop s)). task_quiet p {ev} g"
    and "\<forall>x \<in> set xs. activity_quiet p ev (getFd (server_loop s) ev) x"
  defines "n \<equiv> ticks (last_ts (timing (server_loop s))) xs"
  shows "\<exists>s'. server_run p t xs s = Inr s'
     \<and> (if n < k then (\<exists>c. connections (clients s') ev = Some c \<and> \<not> closed c)
             \<and> watched ctl (server_loop s') (getFd (server_loop s) ev) \<noteq> None
        else connections (clients s') ev = None)"
proof -
  obtain s' where s': "server_run p t xs s = Inr s'" "server_good ctl s'"
      "if n < k then idles s' ev d (k - n) \<and> getFd (server_loop s') ev = getFd (server_loop s) ev
       else connections (clients s') ev = None"
    using idle_connection_run [OF assms(1-8)] unfolding n_def by blast
  note i = data_invD [OF server_goodD(2) [OF s'(2)]]
  have "(\<exists>c. connections (clients s') ev = Some c \<and> \<not> closed c)
      \<and> watched ctl (server_loop s') (getFd (server_loop s) ev) \<noteq> None" if less: "n < k"
  proof -
    obtain c where c: "connections (clients s') ev = Some c" using s'(3) less by (auto simp: idles_def)
    then show ?thesis
      using i(7) [OF c] reg_invD(2) [OF i(1)] s'(3) less by (auto simp: open_conn_def registered_def)
  qed
  then show ?thesis using s'(1,3) by (intro exI [of _ s']) simp
qed

subsection \<open>A server to evaluate on\<close>

text \<open>
  The server listens on descriptor 5; the connection on descriptor 7 becomes object 1, which the user holds.
\<close>

definition sample_program :: server_program where
  "sample_program = \<lparr>p_lib = sample_lib, p_flags = 0, p_old4 = 0, p_old6 = 0, p_fresh = (9, 9), p_memory = ucast,
     on_message = (\<lambda>b. b), keeps = (\<lambda>_. 1), closures = Map.empty\<rparr>"

definition sample_served :: tcp_server where
  "sample_served = server_at sample_server (accept_and_keep sample_program 1 7
     (getPeerAddr sample_lib (SockIn 1 9)) (server_loop sample_server, clients sample_server))"

definition sample_answer :: answer where
  "sample_answer = \<lparr>to_reads = [], to_writes = [], to_accepts = [Inr (8, SockIn 2 9), Inl EAGAIN], to_sockets = []\<rparr>"

lemma sample_program: "program_ok sample_program"
  by (simp add: program_ok_def sample_program_def)

lemma sample_good:
  "server_good sample_ctl sample_server" "owner (server_loop sample_server) = 1"
  "events (server_loop sample_server) = [5 \<mapsto> 0]" "a_event (listener sample_server) = 0"
  "next_object (clients sample_server) = 1" "queue (server_loop sample_server) = []"
  "last_ts (timing (server_loop sample_server)) = 0" "getFd (server_loop sample_server) 0 = 5"
proof -
  show e: "events (server_loop sample_server) = [5 \<mapsto> 0]" "next_object (clients sample_server) = 1"
    using sample_arrivals(3,5) by (simp_all add: sample_arrivals_def)
  show "owner (server_loop sample_server) = 1" using sample_arrivals(2) by (simp add: sample_arrivals_def)
  let ?a = "new_Acceptor sample_loop 0 (new_InetAddress ''0.0.0.0'' 1935 False) [5] []"
  have "getFd (a_loop ?a) 0 = -1" by (simp add: new_Acceptor_def getFd_def) (simp add: new_Event_def)
  then have l: "server_loop sample_server = addEvent (setFd (new_Event sample_loop 0 (-1)) 0 5) 0"
      and cl: "clients sample_server = \<lparr>connections = Map.empty, next_object = 1, announced = []\<rparr>"
      and av: "a_event (listener sample_server) = 0"
    using acceptor_open_loop(1,2) [of ?a sample_lib 0 0 0] sample_loop(2)
    by (simp_all add: sample_server_def server_start_def new_TcpServer_def acceptor_start_def isInLoopThread_def
        new_Acceptor_def next_socket_def)
  show av: "a_event (listener sample_server) = 0" by (rule av)
  show q: "queue (server_loop sample_server) = []" "last_ts (timing (server_loop sample_server)) = 0"
    unfolding l by (simp_all add: new_Event_def sample_loop new_TimingWheel_def addEvent_def setFd_def Let_def)
  have i: "server_inv sample_ctl sample_server"
    using sample_arrivals(1) by (simp add: sample_arrivals_def server_inv_def)
  then show "server_good sample_ctl sample_server" using q by (simp add: server_good_def cl)
  show "getFd (server_loop sample_server) 0 = 5"
    using reg_invD(3) [OF data_invD(1) [OF i [unfolded server_inv_def]], of 5 0] e(1) by (simp add: getFd_def)
qed

lemma sample_served:
  "server_good sample_ctl sample_served" "owner (server_loop sample_served) = 1" "idles sample_served 1 30 30"
  "queue (server_loop sample_served) = []" "last_ts (timing (server_loop sample_served)) = 0"
  "getFd (server_loop sample_served) 1 = 7"
proof -
  let ?x = "(server_loop sample_server, clients sample_server)"
  have x: "server_at sample_server ?x = sample_server" by (simp add: server_at_def)
  note a = accept_step [OF sample_ctl_laws sample_program, of sample_server ?x 1 7 "getPeerAddr sample_lib (SockIn 1 9)",
      unfolded x, folded sample_served_def]
  have h: "0 \<le> (7::int)" "1 = owner (fst ?x)" "events (fst ?x) 7 = None" using sample_good by simp_all
  show "server_good sample_ctl sample_served" "owner (server_loop sample_served) = 1"
    "last_ts (timing (server_loop sample_served)) = 0" "queue (server_loop sample_served) = []"
    using a(1) [OF sample_good(1) h(2,1,3)] sample_good by (simp_all add: safe_step_def grows_def)
  show "getFd (server_loop sample_served) 1 = 7"
    using a(4) [OF sample_good(1) h(2,1,3)] sample_good(5) by (simp add: sample_served_def)
  show "idles sample_served 1 30 30"
    using a(3) [OF sample_good(1) h(2,1,3)] sample_good(5) by (fastforce simp: idles_def sample_served_def)
qed

lemma run_ok_once: "dispatch_ok p t ready s \<Longrightarrow> run_ok p t [Round (Some ready) now] s"
  by (simp split: sum.splits)

lemma dispatch_ok_once:
  "which_callback m = Some cb \<Longrightarrow> acceptor_ok s a cb \<Longrightarrow> dispatch_ok p t [(f, m, a)] s"
  by (simp split: sum.splits)

lemma silent_run_ok: "run_ok p t (map (\<lambda>n. Round (Some []) (now n)) ns) s"
  by (induction ns arbitrary: s) (simp_all split: sum.splits)

theorem server_run_returns_witness:
  "\<exists>s'. server_run sample_program 1 [Round (Some [(5, EPOLLIN, sample_answer)]) 1000] sample_server = Inr s'
     \<and> server_good sample_ctl s'"
proof -
  have "which_callback EPOLLIN = Some OnRead" by (simp add: which_callback_def epoll_consts)
  moreover have "acceptor_ok sample_server sample_answer OnRead"
    using sample_good(3,4,8) by (simp add: sample_answer_def retryable_def)
  ultimately have "run_ok sample_program 1 [Round (Some [(5, EPOLLIN, sample_answer)]) 1000] sample_server"
    by (intro run_ok_once dispatch_ok_once)
  from server_run_returns [OF sample_ctl_laws sample_program sample_good(1) _ this] sample_good(2)
  show ?thesis by auto
qed

text \<open>Thirty-one silent rounds, a second apart: the first starts the clock, the thirtieth tick closes the connection.\<close>

theorem idle_connection_reaped_witness:
  "\<exists>s'. server_run sample_program 1 (map (\<lambda>n. Round (Some []) (1000 * int n)) [1..<32]) sample_served = Inr s'
     \<and> connections (clients s') 1 = None"
proof -
  let ?xs = "map (\<lambda>n. Round (Some []) (1000 * int n)) [1..<32]"
  have q: "\<forall>g \<in> set (queue (server_loop sample_served)). task_quiet sample_program {1} g"
    "\<forall>x \<in> set ?xs. activity_quiet sample_program 1 (getFd (server_loop sample_served) 1) x"
    by (simp_all add: sample_served(4))
  have n: "ticks (last_ts (timing (server_loop sample_served))) ?xs = 30"
    by (simp add: sample_served(5) ticked_def next_ts_def upt_conv_Cons)
  from idle_connection_reaped [OF sample_ctl_laws sample_program sample_served(1) _ silent_run_ok sample_served(3) q]
    sample_served(2) n
  show ?thesis by auto
qed

end
