(* ===== verification/ServerTraffic.thy ===== *)
theory ServerTraffic
  imports ServerRounds
begin

text \<open>
  A connection that receives data in a whole server: each time its descriptor is reported readable its
  time starts anew, so that the wheel does not close it while its peer keeps sending.
\<close>

subsection \<open>Reading without closing\<close>

text \<open>Data, then a call that would block or was interrupted: nothing that closes the connection.\<close>

fun good_reads :: "(int + bytes) list \<Rightarrow> bool" where
  "good_reads [] = True"
| "good_reads (Inl e # rs) = retryable e"
| "good_reads (Inr d # rs) \<longleftrightarrow> d \<noteq> [] \<and> good_reads rs"

lemma good_reads_data: "good_reads rs \<Longrightarrow> sys_readv rs n = Inr d \<Longrightarrow> 0 < n \<Longrightarrow> d \<noteq> [] \<and> good_reads (after_readv rs n)"
  by (cases rs; cases "hd rs") (auto simp: sys_readv_def after_readv_def)

lemma good_reads_end: "good_reads rs \<Longrightarrow> sys_readv rs n = Inl e \<Longrightarrow> retryable e"
  by (cases rs; cases "hd rs") (auto simp: sys_readv_def retryable_def)

lemma onRead_loop_open:
  assumes "\<And>b. buf_ok b \<Longrightarrow> buf_ok (cb b)" and "buf_ok (message_buffer c)" and "good_reads (reads c)"
  shows "\<exists>b rs sn. onRead_loop cb c t = Inr (c\<lparr>message_buffer := b, reads := rs, seen := sn\<rparr>)"
  using assms(2,3)
proof (induction "avail (reads c)" arbitrary: c rule: less_induct)
  case less
  let ?b = "message_buffer c"
  let ?rs = "after_readv (reads c) (readFd_space ?b)"
  have pos: "0 < readFd_space ?b" by (rule readFd_space_pos)
  show ?case
  proof (cases "sys_readv (reads c) (readFd_space ?b)")
    case (Inl err)
    have r: "readFd (sys_readv (reads c)) ?b = Some (-1, Some err, ?b)"
      using readFd_appends [OF less.prems(1), of "sys_readv (reads c)"] Inl by simp
    have "onRead_loop cb c t = Inr (c\<lparr>message_buffer := ?b, reads := ?rs, seen := seen c\<rparr>)"
      using good_reads_end [OF less.prems(2) Inl] by (simp add: onRead_loop.simps [of cb c] r Let_def)
    then show ?thesis by blast
  next
    case (Inr d)
    obtain b where b: "readFd (sys_readv (reads c)) ?b = Some (int (length d), None, b)" "buf_ok b"
      using readFd_appends [OF less.prems(1), of "sys_readv (reads c)"] Inr by auto
    note d = good_reads_data [OF less.prems(2) Inr pos]
    let ?c2 = "c\<lparr>reads := ?rs, message_buffer := cb b, seen := seen c @ [content b]\<rparr>"
    have "avail (reads ?c2) < avail (reads c)" using avail_after_readv [OF Inr] d by simp
    then obtain b' rs' sn' where "onRead_loop cb ?c2 t = Inr (?c2\<lparr>message_buffer := b', reads := rs', seen := sn'\<rparr>)"
      using less.hyps [of ?c2] assms(1) [OF b(2)] d by auto
    moreover have "onRead_loop cb c t = onRead_loop cb ?c2 t"
      using d by (simp add: onRead_loop.simps [of cb c] b(1) Let_def)
    ultimately show ?thesis by auto
  qed
qed

lemma idle_left_frame [simp]:
  "idle_left (c\<lparr>message_buffer := b, reads := rs, seen := sn\<rparr>) e d k = idle_left c e d k"
  "idle_left (with_answer a c) e d k = idle_left c e d k"
  by (simp_all add: idle_left_def with_answer_def)

text \<open>The limit starts anew with every readable event that does not end the connection.\<close>

lemma readable_restarts:
  fixes s :: tcp_server and a :: answer
  assumes "epoll_laws ctl" and "program_ok p" and "server_good ctl s" and "t = owner (server_loop s)"
    and "idles s ev d k" and "f = getFd (server_loop s) ev" and "which_callback m = Some OnRead" and "good_reads (to_reads a)"
  shows "\<exists>s'. server_dispatch p t s (f, m, a) = Inr s' \<and> safe_step ctl {ev} s (Inr s') \<and> idles s' ev d d
     \<and> getFd (server_loop s') ev = f"
proof -
  let ?l = "server_loop s"
  note i = data_invD [OF server_goodD(2) [OF assms(3)]]
  obtain c e where c: "connections (clients s) ev = Some c" "idle_left (c\<lparr>lp := ?l\<rparr>) e d k"
    using assms(5) by (auto simp: idles_def)
  note cr = conn_registered [OF assms(3) c(1)]
  have "ev \<noteq> a_event (listener s)" "pipe ?l \<noteq> Some ev" using i(4,5) c(1) by auto
  then have disp: "server_dispatch p t s (f, m, a) = server_conn s ev (conn_event p t a OnRead)"
    using cr(2) assms(6,7) by (simp add: server_dispatch_def registered_def)
  have safe: "safe_step ctl {ev} s (server_conn s ev (conn_event p t a OnRead))"
    using handler_op.on_server [OF assms(1,3), of "(p, t, a, OnRead)" ev] assms(2,4) by simp
  let ?c = "with_answer a (c\<lparr>lp := ?l\<rparr>)"
  note ext = idle_extend [of ?c e d k, simplified, OF c(2)]
  have op: "\<not> closed c" "in_server c" "buf_ok (message_buffer c)"
    using i(7) [OF c(1)] server_goodD(4) [OF assms(3) c(1)] by (simp_all add: open_conn_def)
  have x: "message_buffer (extendLife ?c) = message_buffer c" "reads (extendLife ?c) = to_reads a"
      "in_server (extendLife ?c) = in_server c" "closed ?c = closed c"
    by (simp_all add: extendLife_def with_answer_def split: option.splits)
  have cb: "buf_ok b \<Longrightarrow> buf_ok (on_message p b)" for b using assms(2) by (simp add: program_ok_def)
  have "buf_ok (message_buffer (extendLife ?c))" "good_reads (reads (extendLife ?c))"
    using op(3) assms(8) x(1,2) by simp_all
  from onRead_loop_open [where cb = "on_message p" and t = t, OF cb this] obtain b rs sn where
    "onRead_loop (on_message p) (extendLife ?c) t = Inr ((extendLife ?c)\<lparr>message_buffer := b, reads := rs, seen := sn\<rparr>)"
    by blast
  then have r: "conn_event p t a OnRead (c\<lparr>lp := ?l\<rparr>)
      = Inr ((extendLife ?c)\<lparr>message_buffer := b, reads := rs, seen := sn\<rparr>)"
    using op(1) x(4) by (simp add: onRead_def)
  obtain s' where s': "server_conn s ev (conn_event p t a OnRead) = Inr s'" using safe by (auto simp: safe_step_def)
  let ?c1 = "(extendLife ?c)\<lparr>message_buffer := b, reads := rs, seen := sn\<rparr>"
  have "connections (clients s') ev = Some ?c1" "server_loop s' = lp ?c1"
    using s' c(1) r x(3) op(2) by (auto simp: server_conn_def)
  moreover have "?c1\<lparr>lp := lp ?c1\<rparr> = ?c1" by simp
  ultimately have "idles s' ev d d" using ext by (auto simp: idles_def)
  moreover have "getFd (server_loop s') ev = f"
    using \<open>server_loop s' = lp ?c1\<close> assms(6) by (simp add: extendLife_def with_answer_def split: option.splits)
  ultimately show ?thesis using disp s' safe by auto
qed

subsection \<open>Rounds\<close>

text \<open>
  What the reports of a round mean for the connection on descriptor \<open>f\<close>: it may be readable with
  good answers, or an event may be reported for which the loop calls nothing.
\<close>

fun reads_only :: "int \<Rightarrow> (int \<times> mask \<times> answer) list \<Rightarrow> bool" where
  "reads_only f [] = True"
| "reads_only f ((g, m, a) # xs) \<longleftrightarrow> reads_only f xs
     \<and> (g = f \<longrightarrow> which_callback m = None \<or> which_callback m = Some OnRead \<and> good_reads (to_reads a))"

fun read_from :: "int \<Rightarrow> (int \<times> mask \<times> answer) list \<Rightarrow> bool" where
  "read_from f [] = False"
| "read_from f ((g, m, a) # xs) \<longleftrightarrow> g = f \<and> which_callback m = Some OnRead \<or> read_from f xs"

lemma dispatch_restarts:
  fixes s :: tcp_server
  assumes "epoll_laws ctl" and "program_ok p" and "server_good ctl s" and "t = owner (server_loop s)"
    and "dispatch_ok p t xs s" and "idles s ev d k" and "f = getFd (server_loop s) ev" and "reads_only f xs"
  shows "\<exists>s'. dispatch_ready p t xs s = Inr s' \<and> safe_step ctl UNIV s (Inr s')
     \<and> idles s' ev d (if read_from f xs then d else k) \<and> getFd (server_loop s') ev = f"
  using assms(3-8)
proof (induction xs arbitrary: s k)
  case Nil
  then show ?case by (simp add: safe_refl)
next
  case (Cons x xs)
  obtain g m a where x: "x = (g, m, a)" by (cases x)
  have ok: "dispatch_ok p t ((g, m, a) # []) s" using Cons.prems(3) by (auto simp: x split: sum.splits)
  let ?k = "if g = f \<and> which_callback m = Some OnRead then d else k"
  have "\<exists>s1. server_dispatch p t s (g, m, a) = Inr s1 \<and> safe_step ctl UNIV s (Inr s1) \<and> idles s1 ev d ?k
      \<and> getFd (server_loop s1) ev = f"
  proof (cases "g = f")
    case True
    then consider "which_callback m = None" | "which_callback m = Some OnRead" "good_reads (to_reads a)"
      using Cons.prems(6) by (auto simp: x)
    then show ?thesis
    proof cases
      case 1
      then have "server_dispatch p t s (g, m, a) = Inr s" by (simp add: server_dispatch_def split: option.splits)
      then show ?thesis using 1 Cons.prems(1,4,5) by (simp add: safe_refl)
    next
      case 2
      then show ?thesis
        using readable_restarts [OF assms(1,2) Cons.prems(1,2,4,5) 2] safe_mono [of ctl "{ev}" s _ UNIV] True by auto
    qed
  next
    case False
    obtain c where c: "connections (clients s) ev = Some c" using Cons.prems(4) by (auto simp: idles_def)
    have "quiet_fds {ev} (fst ` set [(g, m, a)]) s" using False Cons.prems(5) c by (simp add: quiet_fds_def)
    from dispatch_ready_safe [OF assms(1,2) Cons.prems(1,2) ok this]
    have sd: "safe_step ctl (- {ev}) s (server_dispatch p t s (g, m, a))" by (simp split: sum.splits)
    then obtain s1 where s1: "server_dispatch p t s (g, m, a) = Inr s1" by (auto simp: safe_step_def)
    note q = idles_safe [OF Cons.prems(4) sd [unfolded s1] _ Cons.prems(1)]
    show ?thesis using s1 q sd safe_mono [of ctl "- {ev}" s _ UNIV] False Cons.prems(5) by auto
  qed
  then obtain s1 where s1: "server_dispatch p t s (g, m, a) = Inr s1" "safe_step ctl UNIV s (Inr s1)" "idles s1 ev d ?k"
      "getFd (server_loop s1) ev = f" by blast
  have g1: "server_good ctl s1" "t = owner (server_loop s1)"
    using s1(2) Cons.prems(2) by (simp_all add: safe_step_def grows_def)
  have d1: "dispatch_ok p t xs s1" "reads_only f xs" using Cons.prems(3,6) s1(1) by (simp_all add: x)
  obtain s2 where s2: "dispatch_ready p t xs s1 = Inr s2" "safe_step ctl UNIV s1 (Inr s2)"
      "idles s2 ev d (if read_from f xs then d else ?k)" "getFd (server_loop s2) ev = f"
    using Cons.IH [OF g1 d1(1) s1(3) s1(4) [symmetric] d1(2)] by blast
  have "(if read_from f xs then d else ?k) = (if read_from f (x # xs) then d else k)" by (auto simp: x)
  then show ?case using s1(1) s2 safe_trans [OF s1(2) s2(2)] by (simp add: x)
qed

lemma round_restarts:
  fixes s :: tcp_server and f now :: int and ready :: "(int \<times> mask \<times> answer) list" and d k :: nat
  assumes "epoll_laws ctl" and "program_ok p" and "server_good ctl s" and "t = owner (server_loop s)"
    and "dispatch_ok p t ready s" and "idles s ev d k" and "f = getFd (server_loop s) ev" and "reads_only f ready"
    and "\<forall>g \<in> set (queue (server_loop s)). task_quiet p {ev} g"
  defines "j \<equiv> if read_from f ready then d else k" and "beat \<equiv> ticked (last_ts (timing (server_loop s))) now"
  assumes "beat \<longrightarrow> 1 < j"
  shows "\<exists>s'. server_round p t (Some ready, now) s = Inr s' \<and> server_good ctl s' \<and> grows s s'
     \<and> set (queue (server_loop s')) \<subseteq> set (queue (server_loop s))
     \<and> last_ts (timing (server_loop s')) = next_ts (last_ts (timing (server_loop s))) now
     \<and> idles s' ev d (if beat then j - 1 else j) \<and> getFd (server_loop s') ev = f"
proof -
  obtain s1 where s1: "dispatch_ready p t ready s = Inr s1" "safe_step ctl UNIV s (Inr s1)" "idles s1 ev d j"
      "getFd (server_loop s1) ev = f"
    using dispatch_restarts [OF assms(1-8)] unfolding j_def by blast
  have g1: "server_good ctl s1" "grows s s1" "set (queue (server_loop s1)) \<subseteq> set (queue (server_loop s))"
      "last_ts (timing (server_loop s1)) = last_ts (timing (server_loop s))"
    using s1(2) by (simp_all add: safe_step_def)
  then have q: "\<forall>g \<in> set (queue (server_loop s1)). task_quiet p {ev} g" using assms(9) by blast
  let ?s2 = "with_loop s1 (grow_events (length ready) (server_loop s1))"
  have w: "round_work p t ready s = server_tasks p (queue (server_loop ?s2)) ?s2"
    using s1(1) by (simp add: round_work_def Let_def)
  note a = after_dispatch_safe [OF assms(1) g1(1) q, of "length ready", folded w]
  obtain s3 where s3: "round_work p t ready s = Inr s3" using a by (auto simp: safe_step_def)
  have g3: "server_good ctl s3" "grows s1 s3" "set (queue (server_loop s3)) \<subseteq> set (queue (server_loop s))"
      "last_ts (timing (server_loop s3)) = last_ts (timing (server_loop s))"
    using a g1(3,4) by (auto simp: s3 safe_step_def)
  note i3 = idles_safe [OF s1(3) a [unfolded s3] _ g1(1)]
  have t3: "t = owner (server_loop s3)" using growsD(1) [OF g3(2)] growsD(1) [OF g1(2)] assms(4) by simp
  obtain s4 where s4: "server_timer t now s3 = Inr s4" "server_good ctl s4" "grows s3 s4"
      "set (queue (server_loop s4)) \<subseteq> set (queue (server_loop s3))"
      "last_ts (timing (server_loop s4)) = next_ts (last_ts (timing (server_loop s3))) now"
      "if ticked (last_ts (timing (server_loop s3))) now \<and> j = 1 then connections (clients s4) ev = None
       else idles s4 ev d (if ticked (last_ts (timing (server_loop s3))) now then j - 1 else j)
         \<and> getFd (server_loop s4) ev = getFd (server_loop s3) ev"
    using timer_step [OF assms(1) g3(1) t3, of now] i3(1) by blast
  have "\<not> (beat \<and> j = 1)" using assms(12) by auto
  then have "idles s4 ev d (if beat then j - 1 else j) \<and> getFd (server_loop s4) ev = f"
    using s4(6) [unfolded g3(4), folded beat_def] i3(2) s1(4) by simp
  moreover have "grows s s4" using grows_trans [OF g1(2) grows_trans [OF g3(2) s4(3)]] .
  moreover have "server_round p t (Some ready, now) s = Inr s4" using s3 s4(1) by (simp add: server_round_work)
  ultimately show ?thesis using s4(2,4,5) g3(3,4) by auto
qed

subsection \<open>Runs\<close>

text \<open>
  The connection on descriptor \<open>f\<close> with the limit \<open>d\<close> and \<open>k\<close> ticks left is read from often enough in a
  run: whenever the wheel ticks, its time is not over.
\<close>

fun often_read :: "int \<Rightarrow> nat \<Rightarrow> nat \<Rightarrow> int \<Rightarrow> activity list \<Rightarrow> bool" where
  "often_read f d k ts [] = True"
| "often_read f d k ts (Post g rfd # xs) = often_read f d k ts xs"
| "often_read f d k ts (Round None now # xs) = often_read f d k ts xs"
| "often_read f d k ts (Round (Some ready) now # xs) \<longleftrightarrow>
     (let j = (if read_from f ready then d else k)
      in reads_only f ready \<and> (ticked ts now \<longrightarrow> 1 < j)
         \<and> often_read f d (if ticked ts now then j - 1 else j) (next_ts ts now) xs)"

text \<open>No closure of the run concerns connection \<open>ev\<close>.\<close>

fun posts_quiet :: "server_program \<Rightarrow> nat \<Rightarrow> activity list \<Rightarrow> bool" where
  "posts_quiet p ev [] = True"
| "posts_quiet p ev (Post g rfd # xs) \<longleftrightarrow> task_quiet p {ev} g \<and> posts_quiet p ev xs"
| "posts_quiet p ev (Round w now # xs) = posts_quiet p ev xs"

lemma read_run:
  assumes "epoll_laws ctl" and "program_ok p" and "server_good ctl s" and "t = owner (server_loop s)"
    and "run_ok p t xs s" and "idles s ev d k" and "\<forall>g \<in> set (queue (server_loop s)). task_quiet p {ev} g"
    and "posts_quiet p ev xs" and "often_read (getFd (server_loop s) ev) d k (last_ts (timing (server_loop s))) xs"
  shows "\<exists>s' j. server_run p t xs s = Inr s' \<and> server_good ctl s' \<and> idles s' ev d j
     \<and> getFd (server_loop s') ev = getFd (server_loop s) ev"
  using assms(3-9)
proof (induction xs arbitrary: s k)
  case Nil
  then show ?case by auto
next
  case (Cons x xs)
  let ?f = "getFd (server_loop s) ev" and ?ts = "last_ts (timing (server_loop s))"
  have ok: "activity_ok p t x s" using Cons.prems(3) by simp
  have "\<exists>s1 j. server_activity p t x s = Inr s1 \<and> server_good ctl s1 \<and> grows s s1 \<and> idles s1 ev d j
      \<and> getFd (server_loop s1) ev = ?f \<and> (\<forall>g \<in> set (queue (server_loop s1)). task_quiet p {ev} g)
      \<and> posts_quiet p ev xs \<and> often_read ?f d j (last_ts (timing (server_loop s1))) xs"
  proof (cases x)
    case (Post g rfd)
    have o: "events (server_loop s) rfd = None" "task_ok (next_id (timing (server_loop s))) g" "0 \<le> rfd"
      using ok by (simp_all add: Post)
    note po = server_post_ok [OF assms(1) Cons.prems(1) o]
    have "keeps_conn ev s (server_post g rfd s)" using po(5) Cons.prems(4) by (auto simp: idles_def)
    note id = idles_keeps [OF Cons.prems(4) this po(2) Cons.prems(1) po(1)]
    show ?thesis
      using Cons.prems(5-7) po(1-4) id by (intro exI [of _ "server_post g rfd s"] exI [of _ k]) (auto simp: Post)
  next
    case (Round w now)
    show ?thesis
    proof (cases w)
      case None
      then show ?thesis
        using Cons.prems by (intro exI [of _ s] exI [of _ k]) (simp add: Round server_round_def grows_refl)
    next
      case (Some ready)
      have d: "dispatch_ok p t ready s" using ok by (simp add: Round Some)
      let ?j = "if read_from ?f ready then d else k"
      have r: "reads_only ?f ready" "ticked ?ts now \<longrightarrow> 1 < ?j"
          "often_read ?f d (if ticked ?ts now then ?j - 1 else ?j) (next_ts ?ts now) xs" "posts_quiet p ev xs"
        using Cons.prems(6,7) by (simp_all add: Round Some Let_def)
      obtain s1 where s1: "server_round p t (Some ready, now) s = Inr s1" "server_good ctl s1" "grows s s1"
          "set (queue (server_loop s1)) \<subseteq> set (queue (server_loop s))" "last_ts (timing (server_loop s1)) = next_ts ?ts now"
          "idles s1 ev d (if ticked ?ts now then ?j - 1 else ?j)" "getFd (server_loop s1) ev = ?f"
        using round_restarts [OF assms(1,2) Cons.prems(1,2) d Cons.prems(4) refl r(1) Cons.prems(5) r(2)] by blast
      show ?thesis
        using s1 r(3,4) Cons.prems(5)
        by (intro exI [of _ s1] exI [of _ "if ticked ?ts now then ?j - 1 else ?j"]) (auto simp: Round Some)
    qed
  qed
  then obtain s1 j where s1: "server_activity p t x s = Inr s1" "server_good ctl s1" "grows s s1" "idles s1 ev d j"
      "getFd (server_loop s1) ev = ?f" "\<forall>g \<in> set (queue (server_loop s1)). task_quiet p {ev} g"
      "posts_quiet p ev xs" "often_read ?f d j (last_ts (timing (server_loop s1))) xs" by blast
  have "t = owner (server_loop s1)" "run_ok p t xs s1" using growsD(1) [OF s1(3)] Cons.prems(2,3) s1(1) by simp_all
  from Cons.IH [OF s1(2) this s1(4,6,7)] s1(5,8) s1(1) show ?case by auto
qed

subsection \<open>Properties\<close>

text \<open>
  C4. The wheel spares whoever sends: in a server whose user holds all connections, a connection with a limit
  of less than 60 seconds, that no closure of other threads concerns and whose descriptor is reported readable, with data, often enough
  that its limit never runs out between two reports, stays open and watched through the whole
  run, however long that is and whatever the acceptor, the other connections and the other timers do.
\<close>

theorem active_connection_survives:
  fixes s :: tcp_server
  assumes "epoll_laws ctl" and "program_ok p" and "server_good ctl s" and "t = owner (server_loop s)"
    and "run_ok p t xs s" and "idles s ev d k" and "\<forall>g \<in> set (queue (server_loop s)). task_quiet p {ev} g"
    and "posts_quiet p ev xs" and "often_read (getFd (server_loop s) ev) d k (last_ts (timing (server_loop s))) xs"
  shows "\<exists>s' c. server_run p t xs s = Inr s' \<and> connections (clients s') ev = Some c \<and> \<not> closed c
     \<and> watched ctl (server_loop s') (getFd (server_loop s) ev) \<noteq> None"
proof -
  obtain s' j where s': "server_run p t xs s = Inr s'" "server_good ctl s'" "idles s' ev d j"
      "getFd (server_loop s') ev = getFd (server_loop s) ev"
    using read_run [OF assms] by blast
  obtain c where c: "connections (clients s') ev = Some c" using s'(3) by (auto simp: idles_def)
  note i = data_invD [OF server_goodD(2) [OF s'(2)]]
  show ?thesis using s'(1,4) c i(7) [OF c] reg_invD(2) [OF i(1)] by (auto simp: open_conn_def registered_def)
qed

subsection \<open>A client to evaluate on\<close>

text \<open>Thirty-nine ticks, with one byte from the client of \<open>sample_served\<close> after the nineteenth.\<close>

definition sample_chunk :: answer where
  "sample_chunk = \<lparr>to_reads = [Inr [65], Inl EAGAIN], to_writes = [], to_accepts = [Inl EAGAIN], to_sockets = []\<rparr>"

definition sample_round :: "nat \<Rightarrow> activity" where
  "sample_round n = Round (Some (if n = 20 then [(7, EPOLLIN, sample_chunk)] else [])) (1000 * int n)"

lemma EPOLLIN_reads: "which_callback EPOLLIN = Some OnRead"
  by (simp add: which_callback_def epoll_consts)

lemma sample_round_ok: "run_ok p t (map sample_round ns) s"
proof (induction ns arbitrary: s)
  case (Cons n ns)
  have "acceptor_ok s' sample_chunk OnRead" for s' by (simp add: sample_chunk_def retryable_def)
  then have "dispatch_ok p t [(7, EPOLLIN, sample_chunk)] s" by (rule dispatch_ok_once [OF EPOLLIN_reads])
  then show ?case using Cons by (simp add: sample_round_def split: sum.splits)
qed simp

lemma sample_posts: "posts_quiet p ev (map sample_round ns)"
  by (induction ns) (simp_all add: sample_round_def)

lemma silent_stretch:
  "0 < a \<Longrightarrow> a + m < 20 \<or> 20 \<le> a \<Longrightarrow> m < k \<Longrightarrow> often_read 7 30 (k - m) (1000 * int (a + m)) xs \<Longrightarrow>
     often_read 7 30 k (1000 * int a) (map sample_round [Suc a..<Suc a + m] @ xs)"
proof (induction m arbitrary: a k)
  case (Suc m)
  have "often_read 7 30 (k - 1) (1000 * int (Suc a)) (map sample_round [Suc (Suc a)..<Suc (Suc a) + m] @ xs)"
    using Suc.IH [of "Suc a" "k - 1"] Suc.prems by auto
  moreover have "[Suc a..<Suc a + Suc m] = Suc a # [Suc (Suc a)..<Suc (Suc a) + m]" by (simp add: upt_conv_Cons)
  ultimately show ?case 
    using Suc.prems by (auto simp: sample_round_def [of "Suc a"] ticked_def next_ts_def simp del: upt_Suc)
qed simp

lemma sample_often_read: "often_read 7 30 30 0 (map sample_round [1..<41])"
proof -
  have split: "[1..<41] = 1 # [Suc 1..<Suc 1 + 18] @ 20 # [Suc 20..<Suc 20 + 20]"
    by (simp add: upt_rec_numeral upt_conv_Cons)
  have "often_read 7 30 29 (1000 * int 20) (map sample_round [Suc 20..<Suc 20 + 20])"
    using silent_stretch [of 20 20 29 "[]"] by simp
  then have "often_read 7 30 12 (1000 * int (1 + 18)) (map sample_round (20 # [Suc 20..<Suc 20 + 20]))"
    by (simp add: sample_round_def [of 20] EPOLLIN_reads sample_chunk_def retryable_def ticked_def next_ts_def)
  then have "often_read 7 30 30 (1000 * int 1) (map sample_round ([Suc 1..<Suc 1 + 18] @ 20 # [Suc 20..<Suc 20 + 20]))"
    using silent_stretch [of 1 18 30 "map sample_round (20 # [Suc 20..<Suc 20 + 20])"] by simp
  moreover have "often_read 7 30 30 0 (sample_round 1 # ys) \<longleftrightarrow> often_read 7 30 30 (1000 * int 1) ys" for ys
    by (simp add: sample_round_def ticked_def next_ts_def)
  ultimately show ?thesis unfolding split list.map by blast
qed

theorem active_connection_survives_witness:
  "\<exists>s' c. server_run sample_program 1 (map sample_round [1..<41]) sample_served = Inr s'
     \<and> connections (clients s') 1 = Some c \<and> \<not> closed c"
proof -
  have quiet: "\<forall>g \<in> set (queue (server_loop sample_served)). task_quiet sample_program {1} g"
    by (simp add: sample_served(4))
  have often: "often_read (getFd (server_loop sample_served) 1) 30 30 (last_ts (timing (server_loop sample_served)))
      (map sample_round [1..<41])"
    unfolding sample_served(5,6) by (rule sample_often_read)
  note r = active_connection_survives [OF sample_ctl_laws sample_program sample_served(1) sample_served(2) [symmetric]
      sample_round_ok sample_served(3) quiet sample_posts often]
  obtain s' c where "server_run sample_program 1 (map sample_round [1..<41]) sample_served = Inr s'"
      "connections (clients s') 1 = Some c" "\<not> closed c"
    using r by (elim exE conjE) (rule that)
  then show ?thesis by (intro exI conjI)
qed

end
