(* ===== verification/Callbacks.thy ===== *)
theory Callbacks
  imports Prelude
begin

text \<open>
  Which user callback a server calls, and when: the setters of \<open>src/network/TcpServer.cpp\<close>,
  \<open>net/TcpConnection.cpp\<close>, \<open>net/Connection.cpp\<close> and \<open>net/Acceptor.cpp\<close>, what \<open>onAccept\<close> copies into a
  new connection, and the places that read a slot and call it. A callback is a number; \<open>p\<close> says what
  callback \<open>n\<close> does with the connection it gets: call setters or close it. A slot is
  \<open>None\<close> for an empty \<open>std::function\<close>. Both overloads of a setter, by copy and by move, store the same.
  Everything here happens in the thread of the loop. A callback does not overwrite the
  slot it is being called from; sockets and lifetimes are those of \<open>TcpConnection\<close> and \<open>TcpServer\<close>.
\<close>

subsection \<open>Slots and setters\<close>

type_synonym slot = "nat option"

record server_callbacks =
  new_connection_cb :: slot
  server_message_cb :: slot
  server_write_complete_cb :: slot
  server_active_cb :: slot
  destroy_connection_cb :: slot

definition no_server_callbacks :: server_callbacks where
  "no_server_callbacks = \<lparr>new_connection_cb = None, server_message_cb = None, server_write_complete_cb = None,
     server_active_cb = None, destroy_connection_cb = None\<rparr>"

definition setNewConnectionCallback :: "slot \<Rightarrow> server_callbacks \<Rightarrow> server_callbacks" where
  "setNewConnectionCallback cb v = v\<lparr>new_connection_cb := cb\<rparr>"

definition setMessageCallback :: "slot \<Rightarrow> server_callbacks \<Rightarrow> server_callbacks" where
  "setMessageCallback cb v = v\<lparr>server_message_cb := cb\<rparr>"

definition setWriteCompleteCallback :: "slot \<Rightarrow> server_callbacks \<Rightarrow> server_callbacks" where
  "setWriteCompleteCallback cb v = v\<lparr>server_write_complete_cb := cb\<rparr>"

definition setActiveCallback :: "slot \<Rightarrow> server_callbacks \<Rightarrow> server_callbacks" where
  "setActiveCallback cb v = v\<lparr>server_active_cb := cb\<rparr>"

definition setDestroyConnectionCallback :: "slot \<Rightarrow> server_callbacks \<Rightarrow> server_callbacks" where
  "setDestroyConnectionCallback cb v = v\<lparr>destroy_connection_cb := cb\<rparr>"

text \<open>
  The close callback of a connection is the server's \<open>onConnectionClose\<close>, bound by \<open>onAccept\<close>, until the
  user replaces it.
\<close>

datatype close_target = ServersOwn | Users nat

record conn_callbacks =
  close_slot :: "close_target option"
  message_slot :: slot
  write_complete_slot :: slot
  active_slot :: slot
  is_closed :: bool

definition conn_setCloseCallback :: "close_target option \<Rightarrow> conn_callbacks \<Rightarrow> conn_callbacks" where
  "conn_setCloseCallback cb c = c\<lparr>close_slot := cb\<rparr>"

definition conn_setRecvMessageCallback :: "slot \<Rightarrow> conn_callbacks \<Rightarrow> conn_callbacks" where
  "conn_setRecvMessageCallback cb c = c\<lparr>message_slot := cb\<rparr>"

definition conn_setWriteCompleteCallback :: "slot \<Rightarrow> conn_callbacks \<Rightarrow> conn_callbacks" where
  "conn_setWriteCompleteCallback cb c = c\<lparr>write_complete_slot := cb\<rparr>"

definition conn_setActiveCallback :: "slot \<Rightarrow> conn_callbacks \<Rightarrow> conn_callbacks" where
  "conn_setActiveCallback cb c = c\<lparr>active_slot := cb\<rparr>"

text \<open>A connection as \<open>onAccept\<close> sets it up.\<close>

definition wire_connection :: "server_callbacks \<Rightarrow> conn_callbacks" where
  "wire_connection v =
     conn_setActiveCallback (server_active_cb v)
       (conn_setWriteCompleteCallback (server_write_complete_cb v)
         (conn_setRecvMessageCallback (server_message_cb v)
           (conn_setCloseCallback (Some ServersOwn)
             \<lparr>close_slot = None, message_slot = None, write_complete_slot = None, active_slot = None,
              is_closed = False\<rparr>)))"

subsection \<open>Calls\<close>

datatype server_slot = NewConnection | ServerMessage | ServerWriteComplete | ServerActive | DestroyConnection

datatype conn_slot = CloseSlot | MessageSlot | WriteCompleteSlot | ActiveSlot

text \<open>What a callback, or other user code in the loop's thread, does with a connection.\<close>

datatype action = SetServer server_slot slot | SetConn conn_slot slot | ForceClose

text \<open>
  The server, its connections by number, its set of connections, the acceptor's callback and the calls made
  so far: which callback, with which connection.
\<close>

record hub =
  server_cbs :: server_callbacks
  conn_cbs :: "nat \<Rightarrow> conn_callbacks option"
  accept_count :: nat
  members :: "nat set"
  accept_cb :: bool
  made :: "(nat \<times> nat) list"

definition new_hub :: hub where
  "new_hub = \<lparr>server_cbs = no_server_callbacks, conn_cbs = Map.empty, accept_count = 0, members = {}, accept_cb = False,
     made = []\<rparr>"

fun set_server :: "server_slot \<Rightarrow> slot \<Rightarrow> server_callbacks \<Rightarrow> server_callbacks" where
  "set_server NewConnection = setNewConnectionCallback"
| "set_server ServerMessage = setMessageCallback"
| "set_server ServerWriteComplete = setWriteCompleteCallback"
| "set_server ServerActive = setActiveCallback"
| "set_server DestroyConnection = setDestroyConnectionCallback"

fun set_conn :: "conn_slot \<Rightarrow> slot \<Rightarrow> conn_callbacks \<Rightarrow> conn_callbacks" where
  "set_conn CloseSlot cb = conn_setCloseCallback (map_option Users cb)"
| "set_conn MessageSlot cb = conn_setRecvMessageCallback cb"
| "set_conn WriteCompleteSlot cb = conn_setWriteCompleteCallback cb"
| "set_conn ActiveSlot cb = conn_setActiveCallback cb"

definition acceptor_setAcceptCallback :: "bool \<Rightarrow> hub \<Rightarrow> hub" where
  "acceptor_setAcceptCallback b h = h\<lparr>accept_cb := b\<rparr>"

text \<open>
  What is left to do, outermost call last: \<open>Start\<close> is \<open>TcpServer::start\<close>, \<open>Incoming\<close> a descriptor the acceptor
  got; \<open>Deliver\<close>, \<open>WriteCompleted\<close> and \<open>RunActive\<close> the places in \<open>onRead\<close>, \<open>onWrite\<close> and \<open>active\<close> that call a
  slot; \<open>Closing\<close> is \<open>onClose\<close>, \<open>ServerClosed\<close> the server's \<open>onConnectionClose\<close>, \<open>CloseRest\<close> what follows the callback
  in \<open>onClose\<close>; \<open>Do\<close> is a step of user code.
\<close>

datatype frame = Start | Incoming | Accept | Deliver nat | WriteCompleted nat | RunActive nat | Closing nat
  | ServerClosed nat | CloseRest nat | Do nat action

text \<open>Calling a slot: nothing for an empty one.\<close>

definition invoke :: "(nat \<Rightarrow> action list) \<Rightarrow> slot \<Rightarrow> nat \<Rightarrow> hub \<Rightarrow> frame list \<times> hub" where
  "invoke p cb ev h =
     (case cb of None \<Rightarrow> ([], h) | Some n \<Rightarrow> (map (Do ev) (p n), h\<lparr>made := made h @ [(n, ev)]\<rparr>))"

definition update_conn :: "nat \<Rightarrow> (conn_callbacks \<Rightarrow> conn_callbacks) \<Rightarrow> hub \<Rightarrow> hub" where
  "update_conn ev g h = h\<lparr>conn_cbs := (conn_cbs h)(ev := map_option g (conn_cbs h ev))\<rparr>"

text \<open>\<open>TcpServer::onAccept\<close>, \<open>TcpServer::onConnectionClose\<close> and \<open>TcpConnection::onClose\<close> up to the callback.\<close>

definition accept_wired :: "(nat \<Rightarrow> action list) \<Rightarrow> hub \<Rightarrow> frame list \<times> hub" where
  "accept_wired p h =
     (let ev = accept_count h;
          h1 = h\<lparr>conn_cbs := (conn_cbs h)(ev \<mapsto> wire_connection (server_cbs h)), accept_count := Suc ev,
                 members := insert ev (members h)\<rparr>
      in invoke p (new_connection_cb (server_cbs h1)) ev h1)"

definition server_closed :: "(nat \<Rightarrow> action list) \<Rightarrow> nat \<Rightarrow> hub \<Rightarrow> frame list \<times> hub" where
  "server_closed p ev h =
     (let h1 = h\<lparr>members := members h - {ev}\<rparr> in invoke p (destroy_connection_cb (server_cbs h1)) ev h1)"

definition close_wired :: "(nat \<Rightarrow> action list) \<Rightarrow> nat \<Rightarrow> conn_callbacks \<Rightarrow> hub \<Rightarrow> frame list \<times> hub" where
  "close_wired p ev c h =
     (if is_closed c then ([], h)
      else
        let (fs, h1) = (case close_slot c of
                          None \<Rightarrow> ([], h)
                        | Some ServersOwn \<Rightarrow> ([ServerClosed ev], h)
                        | Some (Users n) \<Rightarrow> invoke p (Some n) ev h)
        in (fs @ [CloseRest ev], h1))"

text \<open>\<open>forceClose\<close> in the loop's thread is \<open>onClose\<close>. Steps for a connection that does not exist do nothing.\<close>

fun hub_step :: "(nat \<Rightarrow> action list) \<Rightarrow> frame \<Rightarrow> hub \<Rightarrow> frame list \<times> hub" where
  "hub_step p Start h = ([], acceptor_setAcceptCallback True h)"
| "hub_step p Incoming h = (if accept_cb h then [Accept] else [], h)"
| "hub_step p Accept h = accept_wired p h"
| "hub_step p (Deliver ev) h = (case conn_cbs h ev of None \<Rightarrow> ([], h) | Some c \<Rightarrow> invoke p (message_slot c) ev h)"
| "hub_step p (WriteCompleted ev) h =
     (case conn_cbs h ev of None \<Rightarrow> ([], h) | Some c \<Rightarrow> invoke p (write_complete_slot c) ev h)"
| "hub_step p (RunActive ev) h = (case conn_cbs h ev of None \<Rightarrow> ([], h) | Some c \<Rightarrow> invoke p (active_slot c) ev h)"
| "hub_step p (Closing ev) h = (case conn_cbs h ev of None \<Rightarrow> ([], h) | Some c \<Rightarrow> close_wired p ev c h)"
| "hub_step p (ServerClosed ev) h = server_closed p ev h"
| "hub_step p (CloseRest ev) h = ([], update_conn ev (\<lambda>c. c\<lparr>is_closed := True\<rparr>) h)"
| "hub_step p (Do ev (SetServer s cb)) h = ([], h\<lparr>server_cbs := set_server s cb (server_cbs h)\<rparr>)"
| "hub_step p (Do ev (SetConn s cb)) h = ([], update_conn ev (set_conn s cb) h)"
| "hub_step p (Do ev ForceClose) h = ([Closing ev], h)"

text \<open>Callbacks call each other without bound, so running them may not return.\<close>

partial_function (option) hub_exec :: "(nat \<Rightarrow> action list) \<Rightarrow> frame list \<Rightarrow> hub \<Rightarrow> hub option" where
  "hub_exec p fs h =
     (case fs of [] \<Rightarrow> Some h | f # gs \<Rightarrow> let (new, h1) = hub_step p f h in hub_exec p (new @ gs) h1)"

text \<open>The same, step by step, with the frames executed so far.\<close>

inductive hub_runs :: "(nat \<Rightarrow> action list) \<Rightarrow> frame list \<times> hub \<Rightarrow> frame list \<Rightarrow> frame list \<times> hub \<Rightarrow> bool"
  for p :: "nat \<Rightarrow> action list" and x :: "frame list \<times> hub" where
  hub_runs_refl: "hub_runs p x [] x"
| hub_runs_step: "hub_runs p x tr (f # fs, h) \<Longrightarrow> hub_runs p x (tr @ [f]) (fst (hub_step p f h) @ fs, snd (hub_step p f h))"

lemma hub_exec_Nil [simp]: "hub_exec p [] h = Some h"
  by (simp add: hub_exec.simps)

lemma hub_exec_Cons: "hub_exec p (f # fs) h = hub_exec p (fst (hub_step p f h) @ fs) (snd (hub_step p f h))"
  by (simp add: hub_exec.simps [of p "f # fs"] split_beta)

text \<open>What runs step by step is what runs at once.\<close>

lemma hub_runs_exec: "hub_runs p (fs, h) tr (fs', h') \<Longrightarrow> hub_exec p fs h = hub_exec p fs' h'"
proof (induction tr "(fs', h')" arbitrary: fs' h' rule: hub_runs.induct)
  case (hub_runs_step tr f gs h1)
  then show ?case by (simp add: hub_exec_Cons [of p f gs h1])
qed simp

subsection \<open>Callbacks by history\<close>

text \<open>
  The callback a slot holds after the frames of \<open>h\<close>, latest first: the argument of the last setter of that
  slot; for a connection no setter of which was called since it was accepted, what the server's slot held then.
\<close>

fun read_server :: "server_slot \<Rightarrow> server_callbacks \<Rightarrow> slot" where
  "read_server NewConnection = new_connection_cb"
| "read_server ServerMessage = server_message_cb"
| "read_server ServerWriteComplete = server_write_complete_cb"
| "read_server ServerActive = server_active_cb"
| "read_server DestroyConnection = destroy_connection_cb"

fun read_conn :: "conn_slot \<Rightarrow> conn_callbacks \<Rightarrow> close_target option" where
  "read_conn CloseSlot c = close_slot c"
| "read_conn MessageSlot c = map_option Users (message_slot c)"
| "read_conn WriteCompleteSlot c = map_option Users (write_complete_slot c)"
| "read_conn ActiveSlot c = map_option Users (active_slot c)"

fun bound_server :: "frame list \<Rightarrow> server_slot \<Rightarrow> slot" where
  "bound_server [] s = None"
| "bound_server (Do ev (SetServer r cb) # h) s = (if r = s then cb else bound_server h s)"
| "bound_server (f # h) s = bound_server h s"

fun inherited :: "conn_slot \<Rightarrow> frame list \<Rightarrow> close_target option" where
  "inherited CloseSlot h = Some ServersOwn"
| "inherited MessageSlot h = map_option Users (bound_server h ServerMessage)"
| "inherited WriteCompleteSlot h = map_option Users (bound_server h ServerWriteComplete)"
| "inherited ActiveSlot h = map_option Users (bound_server h ServerActive)"

abbreviation acceptances :: "frame list \<Rightarrow> nat" where
  "acceptances h \<equiv> count_list h Accept"

fun bound_conn :: "frame list \<Rightarrow> nat \<Rightarrow> conn_slot \<Rightarrow> close_target option" where
  "bound_conn [] ev s = None"
| "bound_conn (Accept # h) ev s = (if acceptances h = ev then inherited s h else bound_conn h ev s)"
| "bound_conn (Do e (SetConn r cb) # h) ev s =
     (if e = ev \<and> r = s then map_option Users cb else bound_conn h ev s)"
| "bound_conn (f # h) ev s = bound_conn h ev s"

fun closed_in :: "frame list \<Rightarrow> nat \<Rightarrow> bool" where
  "closed_in [] ev = False"
| "closed_in (Accept # h) ev \<longleftrightarrow> acceptances h \<noteq> ev \<and> closed_in h ev"
| "closed_in (CloseRest e # h) ev \<longleftrightarrow> e = ev \<or> closed_in h ev"
| "closed_in (f # h) ev = closed_in h ev"

fun members_in :: "frame list \<Rightarrow> nat set" where
  "members_in [] = {}"
| "members_in (Accept # h) = insert (acceptances h) (members_in h)"
| "members_in (ServerClosed ev # h) = members_in h - {ev}"
| "members_in (f # h) = members_in h"

text \<open>The calls a history amounts to.\<close>

fun user_call :: "close_target option \<Rightarrow> nat \<Rightarrow> (nat \<times> nat) list" where
  "user_call (Some (Users n)) ev = [(n, ev)]"
| "user_call b ev = []"

definition conn_call :: "frame list \<Rightarrow> nat \<Rightarrow> conn_slot \<Rightarrow> (nat \<times> nat) list" where
  "conn_call h ev s = (if ev < acceptances h then user_call (bound_conn h ev s) ev else [])"

fun calls_of :: "frame list \<Rightarrow> (nat \<times> nat) list" where
  "calls_of [] = []"
| "calls_of (Accept # h) =
     calls_of h @ user_call (map_option Users (bound_server h NewConnection)) (acceptances h)"
| "calls_of (Deliver ev # h) = calls_of h @ conn_call h ev MessageSlot"
| "calls_of (WriteCompleted ev # h) = calls_of h @ conn_call h ev WriteCompleteSlot"
| "calls_of (RunActive ev # h) = calls_of h @ conn_call h ev ActiveSlot"
| "calls_of (Closing ev # h) = calls_of h @ (if closed_in h ev then [] else conn_call h ev CloseSlot)"
| "calls_of (ServerClosed ev # h) =
     calls_of h @ user_call (map_option Users (bound_server h DestroyConnection)) ev"
| "calls_of (f # h) = calls_of h"

text \<open>A state agrees with a history.\<close>

definition explains :: "frame list \<Rightarrow> hub \<Rightarrow> bool" where
  "explains tr h \<longleftrightarrow> accept_count h = acceptances tr \<and> made h = calls_of tr \<and> members h = members_in tr
   \<and> (\<forall>s. read_server s (server_cbs h) = bound_server tr s)
   \<and> (\<forall>ev. if ev < acceptances tr
          then \<exists>c. conn_cbs h ev = Some c \<and> is_closed c = closed_in tr ev \<and> (\<forall>s. read_conn s c = bound_conn tr ev s)
          else conn_cbs h ev = None)"

lemmas setter_defs = setNewConnectionCallback_def setMessageCallback_def setWriteCompleteCallback_def
  setActiveCallback_def setDestroyConnectionCallback_def conn_setCloseCallback_def
  conn_setRecvMessageCallback_def conn_setWriteCompleteCallback_def conn_setActiveCallback_def

lemma read_set_server [simp]: "read_server s (set_server r cb v) = (if r = s then cb else read_server s v)"
  by (cases r; cases s) (simp_all add: setter_defs)

lemma read_set_conn [simp]:
  "read_conn s (set_conn r cb c) = (if r = s then map_option Users cb else read_conn s c)"
  "is_closed (set_conn r cb c) = is_closed c"
  by (cases r; cases s; simp add: setter_defs)+

lemma read_closed [simp]: "read_conn s (c\<lparr>is_closed := b\<rparr>) = read_conn s c"
  by (cases s) simp_all

lemma wired [simp]: "\<not> is_closed (wire_connection v)"
  by (simp add: wire_connection_def setter_defs)

lemma read_wired:
  assumes "\<And>r. read_server r v = bound_server h r"
  shows "read_conn s (wire_connection v) = inherited s h"
  using assms [of ServerMessage] assms [of ServerWriteComplete] assms [of ServerActive]
  by (cases s) (simp_all add: wire_connection_def setter_defs)

lemma invoke_snd [simp]:
  "server_cbs (snd (invoke p cb ev h)) = server_cbs h" "conn_cbs (snd (invoke p cb ev h)) = conn_cbs h"
  "accept_count (snd (invoke p cb ev h)) = accept_count h" "members (snd (invoke p cb ev h)) = members h"
  "made (snd (invoke p cb ev h)) = made h @ user_call (map_option Users cb) ev"
  by (simp_all add: invoke_def split: option.splits)

lemma explainsD:
  assumes "explains tr h"
  shows "accept_count h = acceptances tr" and "made h = calls_of tr" and "members h = members_in tr"
    and "read_server s (server_cbs h) = bound_server tr s"
    and "ev < acceptances tr \<Longrightarrow> \<exists>c. conn_cbs h ev = Some c \<and> is_closed c = closed_in tr ev
           \<and> (\<forall>s. read_conn s c = bound_conn tr ev s)"
    and "\<not> ev < acceptances tr \<Longrightarrow> conn_cbs h ev = None"
proof -
  show "\<not> ev < acceptances tr \<Longrightarrow> conn_cbs h ev = None"
    using assms unfolding explains_def by presburger
  show "ev < acceptances tr \<Longrightarrow> \<exists>c. conn_cbs h ev = Some c \<and> is_closed c = closed_in tr ev
      \<and> (\<forall>s. read_conn s c = bound_conn tr ev s)"
    using assms unfolding explains_def by presburger
qed (use assms in \<open>simp_all add: explains_def\<close>)

text \<open>Reading a slot of a connection gives what the history says.\<close>

lemma slot_called:
  assumes "explains tr h"
  shows "(case conn_cbs h ev of None \<Rightarrow> [] | Some c \<Rightarrow> user_call (read_conn s c) ev) = conn_call tr ev s"
proof (cases "ev < acceptances tr")
  case True
  with explainsD(5) [OF assms True] show ?thesis by (auto simp: conn_call_def)
next
  case False
  with explainsD(6) [OF assms False] show ?thesis by (simp add: conn_call_def)
qed

text \<open>A frame that leaves slots and connections alone.\<close>

lemma explains_call:
  assumes "explains tr h"
    and "bound_server (f # tr) = bound_server tr" and "bound_conn (f # tr) = bound_conn tr" and "closed_in (f # tr) = closed_in tr"
    and "f \<noteq> Accept" and "members_in (f # tr) = members h'" and "made h' = calls_of (f # tr)"
    and "server_cbs h' = server_cbs h" and "conn_cbs h' = conn_cbs h" and "accept_count h' = accept_count h"
  shows "explains (f # tr) h'"
  using assms by (simp add: explains_def)

lemma explains_update:
  assumes "explains tr h" and "f \<noteq> Accept" and "bound_server (f # tr) = bound_server tr" and "members_in (f # tr) = members_in tr"
    and "calls_of (f # tr) = calls_of tr"
    and "\<And>e c. is_closed c = closed_in tr e \<Longrightarrow>
           (if e = ev then is_closed (g c) else is_closed c) = closed_in (f # tr) e"
    and "\<And>e s c. read_conn s c = bound_conn tr e s \<Longrightarrow>
           (if e = ev then read_conn s (g c) else read_conn s c) = bound_conn (f # tr) e s"
  shows "explains (f # tr) (update_conn ev g h)"
  unfolding explains_def
proof (intro conjI allI)
  note d = explainsD [OF assms(1)]
  fix e
  show "if e < acceptances (f # tr)
      then \<exists>c. conn_cbs (update_conn ev g h) e = Some c \<and> is_closed c = closed_in (f # tr) e
        \<and> (\<forall>s. read_conn s c = bound_conn (f # tr) e s)
      else conn_cbs (update_conn ev g h) e = None"
  proof (cases "e < acceptances tr")
    case True
    obtain c where c: "conn_cbs h e = Some c" "is_closed c = closed_in tr e" "\<forall>s. read_conn s c = bound_conn tr e s"
      using d(5) [OF True] by blast
    let ?c = "if e = ev then g c else c"
    have "is_closed ?c = closed_in (f # tr) e" using assms(6) [OF c(2)] by (cases "e = ev") simp_all
    moreover have "read_conn s ?c = bound_conn (f # tr) e s" for s
      using assms(7) [OF spec [OF c(3)]] by (cases "e = ev") simp_all
    moreover have "conn_cbs (update_conn ev g h) e = Some ?c" using c(1) by (cases "e = ev") (auto simp: update_conn_def)
    ultimately show ?thesis using True assms(2) by simp
  next
    case False
    with d(6) [OF False] assms(2) show ?thesis by (cases "e = ev") (auto simp: update_conn_def)
  qed
qed (use explainsD [OF assms(1)] assms(2-5) in \<open>simp_all add: update_conn_def\<close>)

lemma explains_accept:
  assumes "explains tr h"
  shows "explains (Accept # tr) (snd (accept_wired p h))"
  unfolding explains_def
proof (intro conjI allI)
  note d = explainsD [OF assms]
  let ?h = "snd (accept_wired p h)"
  have conns: "conn_cbs ?h = (conn_cbs h)(accept_count h \<mapsto> wire_connection (server_cbs h))"
    by (simp add: accept_wired_def Let_def)
  show "accept_count ?h = acceptances (Accept # tr)" "members ?h = members_in (Accept # tr)"
    using d(1,3) by (simp_all add: accept_wired_def Let_def)
  show "made ?h = calls_of (Accept # tr)"
    using d(1,2) d(4) [of NewConnection] by (simp add: accept_wired_def Let_def)
  show "read_server s (server_cbs ?h) = bound_server (Accept # tr) s" for s
    using d(4) by (simp add: accept_wired_def Let_def)
  show "if e < acceptances (Accept # tr)
      then \<exists>c. conn_cbs ?h e = Some c \<and> is_closed c = closed_in (Accept # tr) e
        \<and> (\<forall>s. read_conn s c = bound_conn (Accept # tr) e s)
      else conn_cbs ?h e = None" for e
  proof (cases "e = acceptances tr")
    case True
    then show ?thesis using d(1) read_wired [of "server_cbs h" tr, OF d(4)] by (simp add: conns)
  next
    case False
    then show ?thesis using d(1) d(5,6) [of e] by (simp add: conns)
  qed
qed

lemma explains_step:
  assumes "explains tr h"
  shows "explains (f # tr) (snd (hub_step p f h))"
proof -
  note d = explainsD [OF assms]
  have call: "explains (f # tr) h'"
    if "server_cbs h' = server_cbs h" "conn_cbs h' = conn_cbs h" "accept_count h' = accept_count h" "members h' = members h"
      "made h' = calls_of (f # tr)"
      "f \<in> {Start, Incoming} \<or> (\<exists>ev. f \<in> {Deliver ev, WriteCompleted ev, RunActive ev, Closing ev, Do ev ForceClose})" for h'
    using that d(3) by (intro explains_call [OF assms]) (auto simp: fun_eq_iff)
  show ?thesis
  proof (cases f)
    case Accept
    then show ?thesis using explains_accept [OF assms] by simp
  next
    case (ServerClosed ev)
    then show ?thesis
      using d(2,3) d(4) [of DestroyConnection]
      by (intro explains_call [OF assms]) (auto simp: server_closed_def Let_def fun_eq_iff)
  next
    case (CloseRest ev)
    then show ?thesis
      by (simp only: hub_step.simps snd_conv) (rule explains_update [OF assms], auto simp: fun_eq_iff)
  next
    case (Do ev a)
    show ?thesis
    proof (cases a)
      case (SetServer s cb)
      then show ?thesis using d by (auto simp: Do explains_def)
    next
      case (SetConn s cb)
      then show ?thesis
        by (simp only: Do hub_step.simps snd_conv) (rule explains_update [OF assms], auto simp: fun_eq_iff)
    next
      case ForceClose
      then show ?thesis using d by (intro call) (auto simp: Do)
    qed
  next
    case (Deliver ev)
    then show ?thesis
      using slot_called [OF assms, where ev = ev and s = MessageSlot] d(2) by (intro call) (auto split: option.splits)
  next
    case (WriteCompleted ev)
    then show ?thesis
      using slot_called [OF assms, where ev = ev and s = WriteCompleteSlot] d(2) by (intro call) (auto split: option.splits)
  next
    case (RunActive ev)
    then show ?thesis
      using slot_called [OF assms, where ev = ev and s = ActiveSlot] d(2) by (intro call) (auto split: option.splits)
  next
    case (Closing ev)
    show ?thesis
    proof (cases "ev < acceptances tr")
      case True
      obtain c where c: "conn_cbs h ev = Some c" "is_closed c = closed_in tr ev" "read_conn CloseSlot c = bound_conn tr ev CloseSlot"
        using d(5) [OF True] by blast
      then show ?thesis
        using d(2) True Closing
        by (intro call) (auto simp: close_wired_def conn_call_def split_beta split: option.splits close_target.splits)
    next
      case False
      then show ?thesis using d(2) d(6) [OF False] Closing by (intro call) (auto simp: conn_call_def)
    qed
  next
    case Start
    then show ?thesis using d(2) by (intro call) (simp_all add: acceptor_setAcceptCallback_def)
  next
    case Incoming
    then show ?thesis using d(2) by (intro call) simp_all
  qed
qed

lemma explains_new: "explains [] new_hub"
proof -
  have "read_server s no_server_callbacks = None" for s by (cases s) (simp_all add: no_server_callbacks_def)
  then show ?thesis by (simp add: explains_def new_hub_def)
qed

lemma runs_explained:
  "hub_runs p (fs, new_hub) tr x \<Longrightarrow> explains (rev tr) (snd x)"
  by (induction rule: hub_runs.induct) (simp_all add: explains_new explains_step del: hub_step.simps)

subsection \<open>Callbacks that return\<close>

text \<open>
  A callback that does not close its connection at once, and user code that makes only such callbacks the
  close callback of a connection or the server's callback for connections that are gone.
\<close>

definition calm :: "(nat \<Rightarrow> action list) \<Rightarrow> nat \<Rightarrow> bool" where
  "calm p n \<longleftrightarrow> ForceClose \<notin> set (p n)"

fun tame :: "(nat \<Rightarrow> action list) \<Rightarrow> action \<Rightarrow> bool" where
  "tame p (SetServer DestroyConnection (Some n)) = calm p n"
| "tame p (SetConn CloseSlot (Some n)) = calm p n"
| "tame p a = True"

fun tame_frame :: "(nat \<Rightarrow> action list) \<Rightarrow> frame \<Rightarrow> bool" where
  "tame_frame p (Do ev a) = tame p a"
| "tame_frame p f = True"

definition hub_calm :: "(nat \<Rightarrow> action list) \<Rightarrow> hub \<Rightarrow> bool" where
  "hub_calm p h \<longleftrightarrow> (\<forall>n. destroy_connection_cb (server_cbs h) = Some n \<longrightarrow> calm p n)
   \<and> (\<forall>ev c n. conn_cbs h ev = Some c \<longrightarrow> close_slot c = Some (Users n) \<longrightarrow> calm p n)"

lemma tame_SetServer: "tame p (SetServer s cb) \<Longrightarrow> s = DestroyConnection \<Longrightarrow> cb = Some n \<Longrightarrow> calm p n"
  by simp

lemma tame_SetConn: "tame p (SetConn s cb) \<Longrightarrow> s = CloseSlot \<Longrightarrow> cb = Some n \<Longrightarrow> calm p n"
  by simp

lemma close_slot_wired [simp]: "close_slot (wire_connection v) = Some ServersOwn"
  by (simp add: wire_connection_def setter_defs)

lemma destroy_set_server [simp]:
  "destroy_connection_cb (set_server s cb v) = (if s = DestroyConnection then cb else destroy_connection_cb v)"
  by (cases s) (simp_all add: setter_defs)

lemma close_set_conn [simp]:
  "close_slot (set_conn s cb c) = (if s = CloseSlot then map_option Users cb else close_slot c)"
  by (cases s) (simp_all add: setter_defs)

lemma hub_calm_step:
  assumes "hub_calm p h" and "tame_frame p f"
  shows "hub_calm p (snd (hub_step p f h))"
proof (cases f)
  case (Do ev a)
  with assms show ?thesis
    by (cases a) (auto simp: hub_calm_def update_conn_def split: if_splits dest: tame_SetServer tame_SetConn)
qed (use assms in \<open>auto simp: hub_calm_def acceptor_setAcceptCallback_def accept_wired_def Let_def server_closed_def
    close_wired_def update_conn_def split_beta split: option.splits close_target.splits\<close>)

text \<open>A list of frames each of which returns, whatever the state, returns.\<close>

definition returns :: "(nat \<Rightarrow> action list) \<Rightarrow> frame list \<Rightarrow> bool" where
  "returns p fs \<longleftrightarrow> (\<forall>h gs. hub_calm p h \<longrightarrow> (\<exists>h'. hub_calm p h' \<and> hub_exec p (fs @ gs) h = hub_exec p gs h'))"

lemma returns_Nil: "returns p []"
  by (auto simp: returns_def)

lemma returns_append: "returns p fs \<Longrightarrow> returns p gs \<Longrightarrow> returns p (fs @ gs)"
  unfolding returns_def by (metis append_assoc)

lemma returns_list: "(\<And>f. f \<in> set fs \<Longrightarrow> returns p [f]) \<Longrightarrow> returns p fs"
  by (induction fs) (auto simp: returns_Nil intro: returns_append [of p "[_]", simplified])

lemma returns_step:
  assumes "tame_frame p f" and "\<And>h. hub_calm p h \<Longrightarrow> returns p (fst (hub_step p f h))"
  shows "returns p [f]"
  unfolding returns_def
proof (intro allI impI)
  fix h gs assume h: "hub_calm p h"
  with assms(2) [OF h] hub_calm_step [OF h assms(1)]
  show "\<exists>h'. hub_calm p h' \<and> hub_exec p ([f] @ gs) h = hub_exec p gs h'"
    unfolding returns_def by (simp add: hub_exec_Cons del: hub_step.simps)
qed

lemma invoke_fst: "fst (invoke p cb ev h) = (case cb of None \<Rightarrow> [] | Some n \<Rightarrow> map (Do ev) (p n))"
  by (simp add: invoke_def split: option.splits)

definition tame_program :: "(nat \<Rightarrow> action list) \<Rightarrow> bool" where
  "tame_program p \<longleftrightarrow> (\<forall>n. \<forall>a \<in> set (p n). tame p a)"

lemma setter_returns: "tame p a \<Longrightarrow> a \<noteq> ForceClose \<Longrightarrow> returns p [Do ev a]"
  by (rule returns_step) (cases a; simp add: returns_Nil)+

lemma calm_returns: "tame_program p \<Longrightarrow> calm p n \<Longrightarrow> returns p (map (Do ev) (p n))"
  by (rule returns_list) (auto simp: calm_def tame_program_def intro!: setter_returns)

lemma CloseRest_returns: "returns p [CloseRest ev]"
  by (rule returns_step) (simp_all add: returns_Nil)

lemma ServerClosed_returns: "tame_program p \<Longrightarrow> returns p [ServerClosed ev]"
  by (rule returns_step)
    (auto simp: server_closed_def Let_def invoke_fst returns_Nil hub_calm_def intro: calm_returns split: option.splits)

lemma Closing_returns:
  assumes "tame_program p"
  shows "returns p [Closing ev]"
proof (rule returns_step)
  fix h assume h: "hub_calm p h"
  have "returns p (fst (close_wired p ev c h))" if "conn_cbs h ev = Some c" for c
    using h that returns_append [OF ServerClosed_returns [OF assms] CloseRest_returns, of ev ev]
      returns_append [OF calm_returns [OF assms] CloseRest_returns]
    by (auto simp: close_wired_def split_beta invoke_fst returns_Nil CloseRest_returns hub_calm_def
        split: option.splits close_target.splits)
  then show "returns p (fst (hub_step p (Closing ev) h))" by (simp add: returns_Nil split: option.splits)
qed simp

lemma Do_returns:
  assumes "tame_program p" and "tame p a"
  shows "returns p [Do ev a]"
proof (cases "a = ForceClose")
  case True
  have "returns p [Do ev ForceClose]" by (rule returns_step) (simp_all add: Closing_returns [OF assms(1)])
  with True show ?thesis by simp
qed (rule setter_returns [OF assms(2)])

lemma callback_returns:
  assumes "tame_program p"
  shows "returns p (fst (invoke p cb ev h))"
proof (cases cb)
  case (Some n)
  have "returns p (map (Do ev) (p n))"
    by (rule returns_list) (use assms in \<open>auto simp: tame_program_def intro: Do_returns [OF assms]\<close>)
  with Some show ?thesis by (simp add: invoke_fst)
qed (simp add: invoke_fst returns_Nil)

lemma Accept_returns: "tame_program p \<Longrightarrow> returns p [Accept]"
  by (rule returns_step) (simp_all add: accept_wired_def Let_def callback_returns)

lemma frame_returns:
  assumes "tame_program p" and "tame_frame p f"
  shows "returns p [f]"
proof (cases f)
  case Incoming
  then show ?thesis using assms(1) by (auto intro!: returns_step simp: returns_Nil Accept_returns)
next
  case (Do ev a)
  then show ?thesis using assms Do_returns by simp
qed (use assms(1) in \<open>auto intro!: returns_step split: option.splits
    simp: returns_Nil callback_returns Accept_returns CloseRest_returns ServerClosed_returns Closing_returns\<close>)

subsection \<open>Callbacks that do not return\<close>

text \<open>A step that changes neither a close callback nor the server's callback for connections that are gone.\<close>

fun harmless :: "action \<Rightarrow> bool" where
  "harmless (SetServer s cb) \<longleftrightarrow> s \<noteq> DestroyConnection"
| "harmless (SetConn s cb) \<longleftrightarrow> s \<noteq> CloseSlot"
| "harmless ForceClose = True"

text \<open>Closing connection \<open>ev\<close> calls callback \<open>n\<close>: as its close callback, or through the server.\<close>

definition told :: "hub \<Rightarrow> nat \<Rightarrow> nat \<Rightarrow> bool" where
  "told h ev n \<longleftrightarrow> (\<exists>c. conn_cbs h ev = Some c \<and> \<not> is_closed c
     \<and> (close_slot c = Some (Users n) \<or> close_slot c = Some ServersOwn \<and> destroy_connection_cb (server_cbs h) = Some n))"

text \<open>The next thing to happen leads to callback \<open>n\<close>, or callback \<open>n\<close> is about to close.\<close>

definition closing_again :: "nat \<Rightarrow> nat \<Rightarrow> frame list \<Rightarrow> hub \<Rightarrow> bool" where
  "closing_again ev n fs h \<longleftrightarrow> told h ev n \<and>
     ((\<exists>gs. fs = Closing ev # gs)
    \<or> (\<exists>gs. fs = ServerClosed ev # gs) \<and> destroy_connection_cb (server_cbs h) = Some n
    \<or> (\<exists>xs gs. fs = map (Do ev) xs @ Do ev ForceClose # gs \<and> (\<forall>a \<in> set xs. harmless a)))"

lemma told_harmless:
  assumes "told h ev n" and "harmless a"
  shows "told (snd (hub_step p (Do ev a) h)) ev n"
  using assms by (cases a) (auto simp: told_def update_conn_def)

lemma told_members [simp]: "told (h\<lparr>members := x, made := y\<rparr>) ev n = told h ev n" "told (h\<lparr>members := x\<rparr>) ev n = told h ev n"
  "told (h\<lparr>made := y\<rparr>) ev n = told h ev n"
  by (simp_all add: told_def)

lemma closing_again_callback:
  assumes "told h ev n" and "ForceClose \<in> set (p n)" and "\<forall>a \<in> set (p n). harmless a"
  shows "closing_again ev n (map (Do ev) (p n) @ gs) h"
proof -
  obtain xs ys where "p n = xs @ ForceClose # ys" using split_list [OF assms(2)] by blast
  with assms(1,3) show ?thesis unfolding closing_again_def by fastforce
qed

lemma closing_again_step:
  assumes "closing_again ev n fs h" and "ForceClose \<in> set (p n)" and "\<forall>a \<in> set (p n). harmless a"
  shows "\<exists>f gs. fs = f # gs \<and> closing_again ev n (fst (hub_step p f h) @ gs) (snd (hub_step p f h))"
proof -
  have t: "told h ev n" using assms(1) by (simp add: closing_again_def)
  consider (closing) gs where "fs = Closing ev # gs"
    | (server) gs where "fs = ServerClosed ev # gs" "destroy_connection_cb (server_cbs h) = Some n"
    | (user) xs gs where "fs = map (Do ev) xs @ Do ev ForceClose # gs" "\<forall>a \<in> set xs. harmless a"
    using assms(1) unfolding closing_again_def by blast
  then show ?thesis
  proof cases
    case closing
    obtain c where c: "conn_cbs h ev = Some c" "\<not> is_closed c"
        "close_slot c = Some (Users n) \<or> close_slot c = Some ServersOwn \<and> destroy_connection_cb (server_cbs h) = Some n"
      using t by (auto simp: told_def)
    show ?thesis
      using c(3)
    proof
      assume "close_slot c = Some (Users n)"
      then show ?thesis
        using c closing closing_again_callback [where p = p, OF _ assms(2,3), of "h\<lparr>made := made h @ [(n, ev)]\<rparr>"] t
        by (simp add: close_wired_def invoke_def)
    next
      assume "close_slot c = Some ServersOwn \<and> destroy_connection_cb (server_cbs h) = Some n"
      then show ?thesis using c closing t by (simp add: close_wired_def closing_again_def)
    qed
  next
    case server
    then show ?thesis
      using closing_again_callback [where p = p, OF _ assms(2,3),
          of "h\<lparr>members := members h - {ev}, made := made h @ [(n, ev)]\<rparr>"] t
      by (simp add: server_closed_def invoke_def Let_def)
  next
    case user
    show ?thesis
    proof (cases xs)
      case Nil
      then show ?thesis using user t by (simp add: closing_again_def)
    next
      case (Cons a ys)
      have "fst (hub_step p (Do ev a) h) = (if a = ForceClose then [Closing ev] else [])" by (cases a) simp_all
      moreover have "told (snd (hub_step p (Do ev a) h)) ev n" using told_harmless [OF t] user(2) Cons by simp
      ultimately show ?thesis using user Cons by (auto simp: closing_again_def)
    qed
  qed
qed

lemma closing_again_diverges:
  assumes "ForceClose \<in> set (p n)" and "\<forall>a \<in> set (p n). harmless a" and "hub_exec p fs h = Some y"
  shows "\<not> closing_again ev n fs h"
proof -
  have "p = p \<longrightarrow> \<not> closing_again ev n fs h"
    using assms(3)
  proof (rule hub_exec.raw_induct [of "\<lambda>q fs h y. q = p \<longrightarrow> \<not> closing_again ev n fs h", rotated])
    fix run :: "(nat \<Rightarrow> action list) \<Rightarrow> frame list \<Rightarrow> hub \<Rightarrow> hub option" and q and fs :: "frame list" and h y
    assume IH: "\<And>q fs h y. run q fs h = Some y \<Longrightarrow> q = p \<longrightarrow> \<not> closing_again ev n fs h"
      and run: "(case fs of [] \<Rightarrow> Some h | f # gs \<Rightarrow> let (new, h1) = hub_step q f h in run q (new @ gs) h1) = Some y"
    show "q = p \<longrightarrow> \<not> closing_again ev n fs h"
    proof (intro impI notI)
      assume q: "q = p" and c: "closing_again ev n fs h"
      obtain f gs where f: "fs = f # gs" "closing_again ev n (fst (hub_step p f h) @ gs) (snd (hub_step p f h))"
        using closing_again_step [of ev n fs h p, OF c assms(1,2)] by blast
      from run f(1) q have "run p (fst (hub_step p f h) @ gs) (snd (hub_step p f h)) = Some y"
        by (simp add: split_beta)
      from IH [OF this] f(2) show False by simp
    qed
  qed
  then show ?thesis by simp
qed

subsection \<open>Datagram sockets\<close>

text \<open>
  The slots of \<open>UdpSocket\<close> and \<open>UdpClient\<close>. Here \<open>closed_\<close> is set before the close callback runs,
  so that closing again does nothing: running user code that sets slots and closes ends, and the close
  callback runs at most once.
\<close>

record udp_callbacks =
  udp_message_cb :: slot
  udp_write_complete_cb :: slot
  udp_close_cb :: slot
  connection_cb :: slot
  udp_is_closed :: bool
  udp_made :: "nat list"

definition udp_setMessageCallback :: "slot \<Rightarrow> udp_callbacks \<Rightarrow> udp_callbacks" where
  "udp_setMessageCallback cb u = u\<lparr>udp_message_cb := cb\<rparr>"

definition udp_setWriteCompleteCallback :: "slot \<Rightarrow> udp_callbacks \<Rightarrow> udp_callbacks" where
  "udp_setWriteCompleteCallback cb u = u\<lparr>udp_write_complete_cb := cb\<rparr>"

definition udp_setCloseCallback :: "slot \<Rightarrow> udp_callbacks \<Rightarrow> udp_callbacks" where
  "udp_setCloseCallback cb u = u\<lparr>udp_close_cb := cb\<rparr>"

definition udp_setConnectionCallback :: "slot \<Rightarrow> udp_callbacks \<Rightarrow> udp_callbacks" where
  "udp_setConnectionCallback cb u = u\<lparr>connection_cb := cb\<rparr>"

datatype udp_slot = UdpMessage | UdpWriteComplete | UdpClose | UdpConnection

datatype udp_action = UdpSet udp_slot slot | UdpForceClose

fun udp_set :: "udp_slot \<Rightarrow> slot \<Rightarrow> udp_callbacks \<Rightarrow> udp_callbacks" where
  "udp_set UdpMessage = udp_setMessageCallback"
| "udp_set UdpWriteComplete = udp_setWriteCompleteCallback"
| "udp_set UdpClose = udp_setCloseCallback"
| "udp_set UdpConnection = udp_setConnectionCallback"

definition udp_close_wired ::
    "(nat \<Rightarrow> udp_action list) \<Rightarrow> udp_callbacks \<Rightarrow> udp_action list \<times> udp_callbacks" where
  "udp_close_wired p u =
     (if udp_is_closed u then ([], u)
      else
        let u1 = u\<lparr>udp_is_closed := True\<rparr>
        in case udp_close_cb u1 of
             None \<Rightarrow> ([], u1)
           | Some n \<Rightarrow> (p n, u1\<lparr>udp_made := udp_made u1 @ [n]\<rparr>))"

lemma udp_set_closed [simp]: "udp_is_closed (udp_set s cb u) = udp_is_closed u" "udp_made (udp_set s cb u) = udp_made u"
  by (cases s; simp add: udp_setMessageCallback_def udp_setWriteCompleteCallback_def udp_setCloseCallback_def
      udp_setConnectionCallback_def)+

lemma udp_close_wired_closes [simp]: "udp_is_closed (snd (udp_close_wired p u))"
  by (simp add: udp_close_wired_def Let_def split: option.splits)

function udp_exec :: "(nat \<Rightarrow> udp_action list) \<Rightarrow> udp_action list \<Rightarrow> udp_callbacks \<Rightarrow> udp_callbacks" where
  "udp_exec p [] u = u"
| "udp_exec p (UdpSet s cb # as) u = udp_exec p as (udp_set s cb u)"
| "udp_exec p (UdpForceClose # as) u =
     udp_exec p (fst (udp_close_wired p u) @ as) (snd (udp_close_wired p u))"
  by pat_completeness auto
termination
  by (relation "(\<lambda>(p, as, u). if udp_is_closed u then 0 else 1) <*mlex*>
      measure (\<lambda>(p, as, u). length as)")
    (auto simp: mlex_iff udp_close_wired_def wf_mlex Let_def split: option.splits)

text \<open>Closing from the close callback is harmless: the socket ends up closed, its close callback ran at most once.\<close>

lemma udp_closes_once:
  "\<exists>xs. udp_made (udp_exec p as u) = udp_made u @ xs \<and> length xs \<le> (if udp_is_closed u then 0 else 1)
     \<and> (udp_is_closed (udp_exec p as u) \<longleftrightarrow> udp_is_closed u \<or> UdpForceClose \<in> set as)"
proof (induction p as u rule: udp_exec.induct)
  case (3 p as u)
  show ?case
  proof (cases "udp_is_closed u")
    case True
    with 3 show ?thesis by (simp add: udp_close_wired_def)
  next
    case False
    obtain ys where "udp_made (snd (udp_close_wired p u)) = udp_made u @ ys" "length ys \<le> 1"
      using False by (cases "udp_close_cb u") (auto simp: udp_close_wired_def Let_def)
    with 3 False show ?thesis by auto
  qed
qed simp_all

subsection \<open>A program to evaluate on\<close>

text \<open>
  The callback for new connections gives the connection a message callback of its own, which closes it; the
  server's set of callbacks changes between two connections.
\<close>

fun sample_callbacks :: "nat \<Rightarrow> action list" where
  "sample_callbacks n = (if n = 1 then [SetConn MessageSlot (Some 5)] else if n = 5 then [ForceClose] else [])"

definition sample_events :: "frame list" where
  "sample_events =
     [Start, Do 0 (SetServer NewConnection (Some 1)), Do 0 (SetServer ServerMessage (Some 2)),
      Do 0 (SetServer DestroyConnection (Some 4)), Incoming, Do 0 (SetServer NewConnection None), Incoming,
      Do 0 (SetServer ServerMessage (Some 3)), Deliver 0, Deliver 1, Closing 0, Closing 1]"

fun hub_trace :: "(nat \<Rightarrow> action list) \<Rightarrow> nat \<Rightarrow> frame list \<times> hub \<Rightarrow> frame list \<times> frame list \<times> hub" where
  "hub_trace p 0 x = ([], x)"
| "hub_trace p (Suc n) x =
     (case hub_trace p n x of
        (tr, [], h) \<Rightarrow> (tr, [], h)
      | (tr, f # fs, h) \<Rightarrow> (tr @ [f], fst (hub_step p f h) @ fs, snd (hub_step p f h)))"

lemma hub_trace_runs: "hub_runs p x (fst (hub_trace p n x)) (snd (hub_trace p n x))"
proof (induction n)
  case 0
  then show ?case by (simp add: hub_runs_refl)
next
  case (Suc n)
  obtain tr fs h where t: "hub_trace p n x = (tr, fs, h)" by (cases "hub_trace p n x")
  show ?case
  proof (cases fs)
    case Nil
    with Suc t show ?thesis by simp
  next
    case (Cons f gs)
    with Suc t hub_runs_step [of p x tr f gs h] show ?thesis by (simp del: hub_step.simps)
  qed
qed

lemma sample_made:
  "made (snd (snd (hub_trace sample_callbacks 30 (sample_events, new_hub)))) = [(1, 0), (5, 0), (4, 0), (2, 1), (4, 1)]"
  by code_simp

lemma sample_tame: "tame_program sample_callbacks" "hub_calm sample_callbacks new_hub"
  "\<forall>f \<in> set sample_events. tame_frame sample_callbacks f"
  by (auto simp: tame_program_def hub_calm_def new_hub_def no_server_callbacks_def sample_events_def calm_def)

subsection \<open>Properties\<close>

text \<open>
  C8. Every call goes to the callback its history names: whatever setters are called, by the user or by
  callbacks, in whatever order with acceptances, closings and data, the calls made are those of the
  history. A connection's message, write-complete and active callbacks are those its own setters set last, else
  those the server had when the connection was accepted, and no later ones; a closed connection is not
  closed again; the server's set holds what was accepted and did not close through the server.
\<close>

theorem calls_follow_history:
  assumes "hub_runs p (fs, new_hub) tr (gs, h)"
  shows "made h = calls_of (rev tr) \<and> members h = members_in (rev tr) \<and> accept_count h = acceptances (rev tr)
     \<and> (\<forall>ev < accept_count h. \<exists>c. conn_cbs h ev = Some c \<and> (\<forall>s. read_conn s c = bound_conn (rev tr) ev s))"
  using runs_explained [OF assms] unfolding explains_def by (auto split: if_splits)

theorem calls_follow_history_witness:
  "\<exists>tr gs h. hub_runs sample_callbacks (sample_events, new_hub) tr (gs, h)
     \<and> made h = [(1, 0), (5, 0), (4, 0), (2, 1), (4, 1)] \<and> calls_of (rev tr) = made h"
proof -
  obtain tr gs h where t: "hub_trace sample_callbacks 30 (sample_events, new_hub) = (tr, gs, h)"
    by (cases "hub_trace sample_callbacks 30 (sample_events, new_hub)")
  have "hub_runs sample_callbacks (sample_events, new_hub) tr (gs, h)"
    using hub_trace_runs [of sample_callbacks "(sample_events, new_hub)" 30] unfolding t by simp
  moreover have "made h = [(1, 0), (5, 0), (4, 0), (2, 1), (4, 1)]" using sample_made unfolding t by simp
  ultimately show ?thesis using calls_follow_history by metis
qed

text \<open>
  C34. Callbacks that do not close their connection at once when they are told of its end return, however setters and
  callbacks follow each other: so does what the loop's thread does with a server in any sequence of
  events, closings by callbacks for data or for new connections included.
\<close>

theorem callbacks_return:
  assumes "tame_program p" and "\<forall>f \<in> set fs. tame_frame p f" and "hub_calm p h"
  shows "\<exists>h'. hub_exec p fs h = Some h'"
proof -
  have "returns p fs" by (rule returns_list) (use assms(1,2) frame_returns in blast)
  then obtain h' where "hub_exec p (fs @ []) h = hub_exec p [] h'" using assms(3) unfolding returns_def by blast
  then show ?thesis by auto
qed

theorem callbacks_return_witness: "\<exists>h'. hub_exec sample_callbacks sample_events new_hub = Some h'"
  by (rule callbacks_return [OF sample_tame(1,3,2)])

text \<open>
  C33. Closing is not guarded against itself: \<open>closed_\<close> is set only after the callback. When the callback that a closing
  connection's end is told to, its close callback or the server's callback for connections that are
  gone, closes the connection again, \<open>onClose\<close> calls itself without end.
\<close>

theorem close_in_close_callback_diverges:
  assumes "told h ev n" and "ForceClose \<in> set (p n)" and "\<forall>a \<in> set (p n). harmless a"
  shows "hub_exec p (Closing ev # gs) h = None"
proof (rule ccontr)
  assume "hub_exec p (Closing ev # gs) h \<noteq> None"
  then obtain y where "hub_exec p (Closing ev # gs) h = Some y" by blast
  from closing_again_diverges [OF assms(2,3) this, of ev] assms(1) show False
    by (simp add: closing_again_def)
qed

theorem close_in_close_callback_diverges_witness:
  "hub_exec (\<lambda>n. [ForceClose])
     [Do 0 (SetServer DestroyConnection (Some 4)), Accept, Closing 0] new_hub = None"
proof -
  let ?p = "\<lambda>n :: nat. [ForceClose]"
  let ?h = "snd (accept_wired ?p (new_hub\<lparr>server_cbs := setDestroyConnectionCallback (Some 4) no_server_callbacks\<rparr>))"
  have "told ?h 0 4"
    by (simp add: told_def accept_wired_def Let_def new_hub_def setDestroyConnectionCallback_def)
  then have "hub_exec ?p (Closing 0 # []) ?h = None"
    by (rule close_in_close_callback_diverges) simp_all
  then show ?thesis
    by (simp add: hub_exec_Cons accept_wired_def Let_def new_hub_def invoke_def no_server_callbacks_def
        setDestroyConnectionCallback_def)
qed

end
