(* ===== verification/Lifetime.thy ===== *)
theory Lifetime
  imports TcpServer TcpClient
begin

text \<open>
  The ends of objects: the destructors of \<open>src/network/net/TimingWheel.h\<close>, \<open>Event.cpp\<close>, \<open>PipeEvent.cpp\<close>,
  \<open>TcpConnection.cpp\<close>, \<open>Acceptor.cpp\<close>, \<open>EventLoop.cpp\<close>, and \<open>network/TcpClient.cpp\<close>, \<open>TcpServer.cpp\<close>. A destructor
  runs when the last shared pointer is gone, so that \<open>shared_from_this\<close> throws in it, and an
  exception that leaves a destructor ends the program.
\<close>

subsection \<open>Timing wheels\<close>

text \<open>
  Destroying the wheel destroys its slots one after the other, and with a slot its references. The entry whose last
  reference that is runs its callback. The callback of a periodic timer then
  inserts into a wheel that is being destroyed, which is undefined: \<open>None\<close>.
\<close>

definition clear_slot :: "timing_wheel \<Rightarrow> timing_type \<Rightarrow> nat \<Rightarrow> timing_wheel" where
  "clear_slot s w i = s\<lparr>wheels := (wheels s)(w := (wheels s w)[i := []])\<rparr>"

definition last_callback :: "timing_wheel \<Rightarrow> entry \<Rightarrow> timing_wheel option" where
  "last_callback s e = (case payload e of Every i f \<Rightarrow> None | _ \<Rightarrow> Some (s\<lparr>fired := fired s @ [e]\<rparr>))"

fun drop_refs :: "timing_wheel \<Rightarrow> entry list \<Rightarrow> timing_wheel option" where
  "drop_refs s [] = Some s"
| "drop_refs s (e # es) =
     (if held s e then drop_refs s es else do { s1 \<leftarrow> last_callback s e; drop_refs s1 es })"

fun destroy_slots :: "timing_wheel \<Rightarrow> (timing_type \<times> nat) list \<Rightarrow> timing_wheel option" where
  "destroy_slots s [] = Some s"
| "destroy_slots s ((w, i) # xs) =
     do { s1 \<leftarrow> drop_refs (clear_slot s w i) (wheels s w ! i); destroy_slots s1 xs }"

text \<open>\<open>order\<close> is the order in which the vector destroys the wheels.\<close>

definition all_slots :: "timing_type list \<Rightarrow> timing_wheel \<Rightarrow> (timing_type \<times> nat) list" where
  "all_slots order s = concat (map (\<lambda>w. map (Pair w) [0..<length (wheels s w)]) order)"

definition destroy_TimingWheel :: "timing_type list \<Rightarrow> timing_wheel \<Rightarrow> timing_wheel option" where
  "destroy_TimingWheel order s = destroy_slots s (all_slots order s)"

definition repeats :: "entry \<Rightarrow> bool" where
  "repeats e \<longleftrightarrow> (case payload e of Every i f \<Rightarrow> True | _ \<Rightarrow> False)"

lemma last_callback_simp: "last_callback s e = (if repeats e then None else Some (s\<lparr>fired := fired s @ [e]\<rparr>))"
  by (simp add: last_callback_def repeats_def split: payload.splits)

lemma held_fired [simp]: "held (s\<lparr>fired := x\<rparr>) = held s"
  by (simp add: held_def fun_eq_iff)

lemma drop_refs_eq:
  "drop_refs s es = (if \<exists>e \<in> set es. \<not> held s e \<and> repeats e then None
     else Some (s\<lparr>fired := fired s @ filter (\<lambda>e. \<not> held s e) es\<rparr>))"
  by (induction es arbitrary: s) (auto simp: last_callback_simp)

lemma clear_slot_frame [simp]:
  "fired (clear_slot s w i) = fired s" "length (wheels (clear_slot s w i) v) = length (wheels s v)"
  by (simp_all add: clear_slot_def)

lemma occ_clear_slot: "occ (clear_slot s w i) v e = occ s v e - (if v = w then {i} else {})"
proof -
  have "e \<in> set (xs[i := []] ! j) \<longleftrightarrow> j \<noteq> i \<and> e \<in> set (xs ! j)" if "j < length xs" for xs :: "entry list list" and j
    using that by (cases "j = i") simp_all
  then show ?thesis by (auto simp: occ_def clear_slot_def)
qed

lemma held_clear_slot:
  assumes "i < length (wheels s w)"
  shows "held s e \<longleftrightarrow> held (clear_slot s w i) e \<or> e \<in> set (wheels s w ! i)"
proof -
  have i: "i \<in> occ s w e \<longleftrightarrow> e \<in> set (wheels s w ! i)" using assms by (simp add: occ_def)
  show ?thesis
  proof
    assume "held s e"
    then obtain v where v: "occ s v e \<noteq> {}" unfolding held_iff by blast
    show "held (clear_slot s w i) e \<or> e \<in> set (wheels s w ! i)"
    proof (cases "e \<in> set (wheels s w ! i)")
      case False
      then have "occ (clear_slot s w i) v e \<noteq> {}" using i v by (auto simp: occ_clear_slot)
      then show ?thesis unfolding held_iff by blast
    qed simp
  next
    assume "held (clear_slot s w i) e \<or> e \<in> set (wheels s w ! i)"
    then show "held s e" unfolding held_iff occ_clear_slot using i by blast
  qed
qed

lemma distinct_clear_slot: "distinct_slots s \<Longrightarrow> distinct_slots (clear_slot s w i)"
  by (auto simp: distinct_slots_def clear_slot_def dest!: set_update_subset_insert [THEN subsetD])

lemma distinct_fired [simp]: "distinct_slots (s\<lparr>fired := x\<rparr>) = distinct_slots s"
  by (simp add: distinct_slots_def)

text \<open>Whatever is held before and no longer afterwards has run its callback once, and nothing else has.\<close>

lemma destroy_slots_fires:
  assumes "distinct_slots s" and "\<forall>(w, i) \<in> set xs. i < length (wheels s w)" and "destroy_slots s xs = Some s'"
  shows "(\<exists>es. fired s' = fired s @ es \<and> distinct es \<and> set es = {e. held s e \<and> \<not> held s' e} \<and> (\<forall>e \<in> set es. \<not> repeats e))
     \<and> (\<forall>e. held s' e \<longrightarrow> held s e) \<and> (\<forall>v e. occ s' v e = occ s v e - {i. (v, i) \<in> set xs})"
  using assms
proof (induction xs arbitrary: s)
  case Nil
  then show ?case by auto
next
  case (Cons x xs)
  obtain w i where x: "x = (w, i)" by (cases x)
  let ?c = "clear_slot s w i" and ?slot = "wheels s w ! i"
  let ?es = "filter (\<lambda>e. \<not> held ?c e) ?slot"
  let ?s1 = "?c\<lparr>fired := fired s @ ?es\<rparr>"
  have i: "i < length (wheels s w)" using Cons.prems(2) by (simp add: x)
  have d: "distinct ?slot" using Cons.prems(1) nth_mem [OF i] unfolding distinct_slots_def by blast
  have st: "destroy_slots ?s1 xs = Some s'" "\<forall>e \<in> set ?es. \<not> repeats e"
    using Cons.prems(3) by (auto simp: x drop_refs_eq split: if_splits)
  have "distinct_slots ?s1" "\<forall>(w, i) \<in> set xs. i < length (wheels ?s1 w)"
    using Cons.prems(1,2) by (auto simp: distinct_clear_slot)
  note ih = Cons.IH [OF this st(1)]
  note h = held_clear_slot [OF i]
  obtain es where es: "fired s' = fired ?s1 @ es" "distinct es" "set es = {e. held ?c e \<and> \<not> held s' e}" "\<forall>e \<in> set es. \<not> repeats e"
    using ih by auto
  have sub: "held s' e \<Longrightarrow> held ?c e" for e using ih by simp
  have "set (?es @ es) = {e. held s e \<and> \<not> held s' e}" using es(3) sub h by auto
  moreover have "distinct (?es @ es)" "\<forall>e \<in> set (?es @ es). \<not> repeats e" using es(2,3,4) d st(2) by auto
  moreover have "fired s' = fired s @ (?es @ es)" using es(1) by simp
  moreover have "occ s' v e = occ s v e - {i. (v, i) \<in> set (x # xs)}" for v e
  proof -
    have "occ s' v e = occ ?s1 v e - {i. (v, i) \<in> set xs}" using ih by blast
    also have "occ ?s1 v e = occ ?c v e" by (simp add: occ_def)
    finally show ?thesis by (auto simp: occ_clear_slot x)
  qed
  ultimately show ?case using sub h by blast
qed

lemma destroy_slots_returns:
  assumes "\<forall>(w, i) \<in> set xs. i < length (wheels s w)" and "\<forall>e. held s e \<longrightarrow> \<not> repeats e"
  shows "\<exists>s'. destroy_slots s xs = Some s'"
  using assms
proof (induction xs arbitrary: s)
  case (Cons x xs)
  obtain w i where x: "x = (w, i)" by (cases x)
  let ?c = "clear_slot s w i"
  have i: "i < length (wheels s w)" using Cons.prems(1) by (simp add: x)
  have r: "\<forall>e \<in> set (wheels s w ! i). \<not> repeats e" using Cons.prems(2) held_clear_slot [OF i] by blast
  have "\<exists>s'. destroy_slots (?c\<lparr>fired := fs\<rparr>) xs = Some s'" for fs
    using Cons.prems held_clear_slot [OF i] by (intro Cons.IH) auto
  then show ?case using r by (auto simp: x drop_refs_eq)
qed simp

subsection \<open>Objects of a loop\<close>

text \<open>
  What ends the program or corrupts it: an exception out of a destructor, \<open>assertInLoopThread\<close>, and a callback
  bound to a destroyed server.
\<close>

datatype end_error = BadWeakPtr | ExitProcess | DanglingCallback

definition shared_from_this :: "nat \<Rightarrow> end_error + unit" where
  "shared_from_this owners = (if owners = 0 then Inl BadWeakPtr else Inr ())"

definition destroy_Event :: "event_loop \<Rightarrow> nat \<Rightarrow> event_loop" where
  "destroy_Event l ev = close_event l ev"

definition destroy_TcpConnection :: "event_loop \<Rightarrow> nat \<Rightarrow> event_loop" where
  "destroy_TcpConnection l ev = destroy_Event (close_event l ev) ev"

text \<open>\<open>wfd\<close> is the pipe's write end, which is closed even when the pipe could not be made.\<close>

definition destroy_PipeEvent :: "event_loop \<Rightarrow> nat \<Rightarrow> int \<Rightarrow> event_loop" where
  "destroy_PipeEvent l ev wfd = destroy_Event (syscall l (Close wfd)) ev"

text \<open>The pipe: \<open>r\<close> is what \<open>pipe\<close> gave, \<open>None\<close> for a failure; the result is the loop and the write end.\<close>

definition new_PipeEvent :: "event_loop \<Rightarrow> nat \<Rightarrow> (int \<times> int) option \<Rightarrow> event_loop \<times> int" where
  "new_PipeEvent l ev r = (case r of None \<Rightarrow> (new_Event l ev (-1), -1) | Some (rfd, wfd) \<Rightarrow> (new_Event l ev rfd, wfd))"

definition destroy_Acceptor :: "event_loop \<Rightarrow> nat \<Rightarrow> end_error + event_loop" where
  "destroy_Acceptor l ev =
     (case shared_from_this 0 of Inl e \<Rightarrow> Inl e | Inr _ \<Rightarrow> Inr (destroy_Event (removeEvent l ev) ev))"

text \<open>The client's destructor calls its \<open>onClose\<close>, then those of its base classes run.\<close>

definition destroy_TcpClient :: "tcp_client \<Rightarrow> nat \<Rightarrow> end_error + tcp_client" where
  "destroy_TcpClient c t =
     (let k = conn c
      in if \<not> isInLoopThread (lp k) t then Inl ExitProcess
         else
           case (if \<not> closed k \<and> close_told c then shared_from_this 0 else Inr ()) of
             Inl e \<Rightarrow> Inl e
           | Inr _ \<Rightarrow>
               let l = (if closed k then lp k else close_event (lp k) (event_id k))
               in Inr (c\<lparr>status := kTcpConnStatusDisconnected,
                    conn := k\<lparr>closed := True, lp := destroy_TcpConnection l (event_id k)\<rparr>\<rparr>))"

text \<open>The classes of the objects whose last owner is the loop's table.\<close>

datatype event_class = AnAcceptor | AConnection | APipe int

fun destroy_object :: "event_loop \<Rightarrow> event_class \<times> nat \<Rightarrow> end_error + event_loop" where
  "destroy_object l (AnAcceptor, ev) = destroy_Acceptor l ev"
| "destroy_object l (AConnection, ev) = Inr (destroy_TcpConnection l ev)"
| "destroy_object l (APipe wfd, ev) = Inr (destroy_PipeEvent l ev wfd)"

fun destroy_objects :: "event_loop \<Rightarrow> (event_class \<times> nat) list \<Rightarrow> end_error + event_loop" where
  "destroy_objects l [] = Inr l"
| "destroy_objects l (x # xs) = (case destroy_object l x of Inl e \<Rightarrow> Inl e | Inr l1 \<Rightarrow> destroy_objects l1 xs)"

text \<open>
  The destructor of a loop: \<open>quit\<close>, then the members, last first: the wheel, whose callbacks may be \<open>None\<close>, and the
  table, with the objects \<open>last_owned\<close>. \<open>quit\<close> closes the epoll descriptor, whether it was closed before or not.
  The thread's pointer to its loop, which the constructor sets to the loop \<open>self\<close>, stays.
\<close>

definition destroy_EventLoop ::
    "timing_type list \<Rightarrow> (event_class \<times> nat) list \<Rightarrow> event_loop \<Rightarrow> (end_error + event_loop) option" where
  "destroy_EventLoop order last_owned l =
     map_option (\<lambda>tw. destroy_objects ((quit l)\<lparr>timing := tw\<rparr>) last_owned) (destroy_TimingWheel order (timing l))"

definition construct_EventLoop :: "nat option \<Rightarrow> nat \<Rightarrow> nat \<Rightarrow> int \<Rightarrow> (event_loop \<times> nat option) option" where
  "construct_EventLoop t_event_loop self thread epfd =
     map_option (\<lambda>l. (l, Some self)) (new_EventLoop thread (t_event_loop \<noteq> None) epfd)"

subsection \<open>Servers\<close>

text \<open>
  Destroying a server drops its pointers: those to its connections, then that to its acceptor. What
  the loop's table or a user still holds lives on, with callbacks that point to the server.
\<close>

definition drop_connections :: "event_loop \<Rightarrow> server_data \<Rightarrow> event_loop" where
  "drop_connections l d =
     fold (\<lambda>ev l. case connections d ev of
                   None \<Rightarrow> l
                 | Some c \<Rightarrow> if registered l ev \<or> 0 < holders c then l else destroy_TcpConnection l ev)
       [0..<next_object d] l"

definition destroy_TcpServer :: "tcp_server \<Rightarrow> end_error + tcp_server" where
  "destroy_TcpServer s =
     (let l = drop_connections (server_loop s) (clients s); ev = a_event (listener s)
      in case (if registered l ev then Inr l else destroy_Acceptor l ev) of
           Inl e \<Rightarrow> Inl e
         | Inr l1 \<Rightarrow> Inr (s\<lparr>listener := (listener s)\<lparr>a_loop := l1\<rparr>\<rparr>))"

text \<open>The acceptor and the connections of a destroyed server: their callbacks are its member functions.\<close>

definition orphan_onRead ::
    "inet_lib \<Rightarrow> u32 \<Rightarrow> u32 \<Rightarrow> 128 word \<Rightarrow> acceptor \<Rightarrow> end_error + acceptor" where
  "orphan_onRead lib flags old4 old6 a =
     (let (a1, called) = acceptor_onRead lib flags old4 old6 (\<lambda>_ _ (l, _). (l, True)) (a, False)
      in if called then Inl DanglingCallback else Inr a1)"

definition orphan_onClose :: "tcp_connection \<Rightarrow> nat \<Rightarrow> end_error + tcp_connection" where
  "orphan_onClose c t =
     (if \<not> isInLoopThread (lp c) t then Inl ExitProcess
      else if closed c then Inr c
      else if close_cb c then Inl DanglingCallback
      else Inr (c\<lparr>closed := True, lp := close_event (lp c) (event_id c)\<rparr>))"

subsection \<open>Lemmas\<close>

lemma set_all_slots: "(w, i) \<in> set (all_slots order s) \<longleftrightarrow> w \<in> set order \<and> i < length (wheels s w)"
  by (auto simp: all_slots_def image_iff)

text \<open>A connection's descriptor is closed once, although two destructors close it.\<close>

lemma connection_descriptor_closed_once:
  "calls (destroy_TcpConnection l ev) = calls l @ (if getFd l ev = -1 then [] else [Close (getFd l ev)])"
  "getFd (destroy_TcpConnection l ev) ev = -1"
  by (auto simp: destroy_TcpConnection_def destroy_Event_def close_event_def Let_def getFd_def syscall_def)

text \<open>Both ends of a pipe are closed; one that could not be made has its -1 closed.\<close>

lemma pipe_ends_closed:
  assumes "new_PipeEvent l ev r = (l1, wfd)"
  shows "calls (destroy_PipeEvent l1 ev wfd) =
     calls l @ (case r of None \<Rightarrow> [Close (-1)] | Some (x, y) \<Rightarrow> Close y # (if x = -1 then [] else [Close x]))"
  using assms
  by (auto simp: new_PipeEvent_def destroy_PipeEvent_def destroy_Event_def close_event_def Let_def getFd_def syscall_def
      new_Event_def split: option.splits)

text \<open>A destroyed acceptor ends the program.\<close>

lemma destroyed_acceptor_throws: "destroy_Acceptor l ev = Inl BadWeakPtr"
  by (simp add: destroy_Acceptor_def shared_from_this_def)

text \<open>So does an open client with a close callback; any other client is closed and its descriptor with it.\<close>

lemma destroyed_client:
  assumes "t = owner (lp (conn c))"
  shows "close_told c \<Longrightarrow> \<not> closed (conn c) \<Longrightarrow> destroy_TcpClient c t = Inl BadWeakPtr"
    and "\<not> close_told c \<or> closed (conn c) \<Longrightarrow>
           \<exists>c1. destroy_TcpClient c t = Inr c1 \<and> getFd (lp (conn c1)) (event_id (conn c1)) = -1
             \<and> status c1 = kTcpConnStatusDisconnected"
  using assms
  by (auto simp: destroy_TcpClient_def Let_def isInLoopThread_def shared_from_this_def
      connection_descriptor_closed_once)

text \<open>A thread that had a loop cannot have another one, not even when the first has been destroyed.\<close>

lemma second_loop_exits:
  assumes "construct_EventLoop p self thread epfd = Some (l, p')"
  shows "construct_EventLoop p' self' thread' epfd' = None"
  using assms by (auto simp: construct_EventLoop_def new_EventLoop_def)

text \<open>The epoll descriptor of a loop that was asked to quit is closed again by the destructor.\<close>

lemma epoll_closed_twice:
  assumes "destroy_TimingWheel order (timing l) = Some tw"
  shows "\<exists>l'. destroy_EventLoop order [] (quit l) = Some (Inr l') \<and> calls l' = calls l @ [Close (epoll l), Close (epoll l)]"
  using assms by (simp add: destroy_EventLoop_def quit_def syscall_def)

lemma drop_connections_held:
  assumes "\<And>ev c. connections d ev = Some c \<Longrightarrow> registered l ev \<or> 0 < holders c"
  shows "drop_connections l d = l"
proof -
  have "fold (\<lambda>ev l. case connections d ev of None \<Rightarrow> l
      | Some c \<Rightarrow> if registered l ev \<or> 0 < holders c then l else destroy_TcpConnection l ev) xs l = l" for xs
    by (induction xs) (use assms in \<open>auto split: option.splits\<close>)
  then show ?thesis by (simp add: drop_connections_def)
qed

text \<open>A callback that records that it was called, called once, stays recorded.\<close>

lemma called_stays: "snd (acceptor_onRead lib flags old4 old6 (\<lambda>_ _ (l, _). (l, True)) (a, True))"
proof (induction "length (a_accepts a)" arbitrary: a rule: less_induct)
  case less
  show ?case
  proof (cases "a_accepts a")
    case Nil
    then show ?thesis by (simp add: acceptor_onRead.simps [of _ _ _ _ _ a] sock_accept_def Let_def)
  next
    case (Cons r rs)
    then show ?thesis
      using less [of "a\<lparr>a_accepts := rs, a_accepted := x\<rparr>" for x]
      by (auto simp: acceptor_onRead.simps [of _ _ _ _ _ a] Let_def split_beta)
  qed
qed

lemma open_conn_kept:
  assumes "data_inv ctl av l d" and "connections d ev = Some c"
  shows "registered l ev" and "\<not> closed c" and "close_cb c"
    and "registered l av \<Longrightarrow> registered (removeEvent l av) ev"
proof -
  have o: "open_conn l ev c" "ev \<noteq> av" using data_invD(4,7) [OF assms(1)] assms(2) by auto
  then show r: "registered l ev" "\<not> closed c" "close_cb c" by (simp_all add: open_conn_def)
  show "registered (removeEvent l av) ev" if "registered l av"
  proof -
    have "getFd l ev \<noteq> getFd l av" using o(2) r(1) that by (auto simp: registered_def)
    then show ?thesis using r(1) removeEvent_frame(5) [OF that] by (simp add: registered_def removeEvent_frame(1))
  qed
qed

subsection \<open>Properties\<close>

text \<open>
  C13. Destroying a timing wheel does not cancel its timers, it fires them: each timer pending runs its callback
  once, however much of its time is left, and no other does. With a periodic timer pending
  the destruction is undefined, and only then. The callbacks leave the wheel alone.
\<close>

theorem destroyed_wheel_fires_all:
  assumes "tw_inv s" and "set order = UNIV"
  shows "(destroy_TimingWheel order s = None \<longleftrightarrow> (\<exists>e. held s e \<and> repeats e))
     \<and> (\<forall>s'. destroy_TimingWheel order s = Some s' \<longrightarrow>
          (\<exists>es. fired s' = fired s @ es \<and> distinct es \<and> set es = {e. held s e}) \<and> (\<forall>e. \<not> held s' e))"
proof -
  let ?xs = "all_slots order s"
  have d: "distinct_slots s" "\<forall>(w, i) \<in> set ?xs. i < length (wheels s w)"
    using assms(1) by (auto simp: tw_inv_def set_all_slots)
  have all: "(\<exists>es. fired s' = fired s @ es \<and> distinct es \<and> set es = {e. held s e} \<and> (\<forall>e \<in> set es. \<not> repeats e))
      \<and> (\<forall>e. \<not> held s' e)" if s': "destroy_TimingWheel order s = Some s'" for s'
  proof -
    note f = destroy_slots_fires [OF d s' [unfolded destroy_TimingWheel_def]]
    have "occ s v e \<subseteq> {i. (v, i) \<in> set ?xs}" for v e
      using assms(2) by (auto simp: set_all_slots occ_def)
    then have "occ s' v e = {}" for v e using f by blast
    then have "\<not> held s' e" for e by (simp add: held_iff)
    then show ?thesis using f by auto
  qed
  have some: "\<exists>s'. destroy_TimingWheel order s = Some s'" if "\<forall>e. held s e \<longrightarrow> \<not> repeats e"
    using destroy_slots_returns [OF d(2) that] by (simp add: destroy_TimingWheel_def)
  have none: "destroy_TimingWheel order s = None" if "held s e" "repeats e" for e
    using all that by (cases "destroy_TimingWheel order s") auto
  show ?thesis
  proof (intro conjI allI impI)
    show "destroy_TimingWheel order s = None \<longleftrightarrow> (\<exists>e. held s e \<and> repeats e)" using some none by fastforce
  qed (use all in \<open>simp_all, blast\<close>)
qed

definition sample_timers :: timing_wheel where
  "sample_timers = insertEntry (new_TimingWheel\<lparr>next_id := 1\<rparr>) 3600 (Entry 0 (Once 7))"

theorem destroyed_wheel_fires_all_witness:
  "\<exists>s'. destroy_TimingWheel [kTimingTypeDay, kTimingTypeMinute, kTimingTypeHour, kTimingTypeSecond] sample_timers = Some s'
     \<and> fired s' = [Entry 0 (Once 7)]"
proof -
  let ?order = "[kTimingTypeDay, kTimingTypeMinute, kTimingTypeHour, kTimingTypeSecond]"
  have "tw_inv (new_TimingWheel\<lparr>next_id := 1\<rparr>)"
    using alloc_inv [OF new_TimingWheel_inv] by (simp add: new_TimingWheel_def)
  then have i: "tw_inv sample_timers" unfolding sample_timers_def by (rule insertEntry_inv) auto
  have o: "set ?order = UNIV" using timing_type.exhaust by auto
  have "slots 3600 = [(kTimingTypeHour, 0)]" by (simp add: slots.simps)
  then have h: "held sample_timers e \<longleftrightarrow> e = Entry 0 (Once 7)" for e
    by (auto simp: sample_timers_def insertEntry_slots held_iff occ_slot_insert ex_timing_type)
      (auto simp: occ_def new_TimingWheel_def split: if_splits)
  note f = destroyed_wheel_fires_all [OF i o]
  have "\<not> repeats (Entry 0 (Once 7))" by (simp add: repeats_def)
  then obtain s' where s': "destroy_TimingWheel ?order sample_timers = Some s'"
    using f h by (cases "destroy_TimingWheel ?order sample_timers") auto
  obtain es where es: "fired s' = fired sample_timers @ es" "distinct es" "set es = {Entry 0 (Once 7)}"
    using f s' h by auto
  have "es = [Entry 0 (Once 7)]" using es(2,3) by (cases es) (auto simp: subset_singleton_iff)
  moreover have "fired sample_timers = []"
    by (simp add: sample_timers_def insertEntry_slots new_TimingWheel_def)
  ultimately show ?thesis using s' es(1) by simp
qed

text \<open>
  C9. There is no safe way to destroy a \<open>TcpServer\<close>. After \<open>stop\<close> its pointer is the acceptor's last, and the acceptor's destructor
  ends the program. Without \<open>stop\<close> acceptor and connections live on in the loop with callbacks
  into the destroyed server: the next connection accepted, and the end of any connection,
  calls one.
\<close>

theorem server_has_no_safe_end:
  assumes "server_inv ctl s" and "registered (server_loop s) (a_event (listener s))"
  shows "destroy_TcpServer (server_stop s) = Inl BadWeakPtr
     \<and> destroy_TcpServer s = Inr s
     \<and> (0 \<le> f \<longrightarrow> orphan_onRead lib flags old4 old6 ((listener s)\<lparr>a_accepts := Inr (f, peer) # rest\<rparr>) = Inl DanglingCallback)
     \<and> (connections (clients s) ev = Some c \<longrightarrow>
          orphan_onClose (c\<lparr>lp := server_loop s\<rparr>) (owner (server_loop s)) = Inl DanglingCallback)"
proof (intro conjI impI)
  let ?l = "server_loop s" and ?av = "a_event (listener s)"
  note inv = assms(1) [unfolded server_inv_def]
  note kept = open_conn_kept [OF inv]
  have "drop_connections ?l (clients s) = ?l" by (rule drop_connections_held) (use kept(1) in blast)
  then show "destroy_TcpServer s = Inr s" using assms(2) by (simp add: destroy_TcpServer_def Let_def)
  have "drop_connections (removeEvent ?l ?av) (clients s) = removeEvent ?l ?av"
    by (rule drop_connections_held) (use kept(4) assms(2) in blast)
  moreover have "\<not> registered (removeEvent ?l ?av) ?av"
    using removeEvent_frame(5) [OF assms(2)] by (simp add: registered_def removeEvent_frame)
  ultimately show "destroy_TcpServer (server_stop s) = Inl BadWeakPtr"
    by (simp add: destroy_TcpServer_def server_stop_def Let_def destroyed_acceptor_throws)
  show "orphan_onRead lib flags old4 old6 ((listener s)\<lparr>a_accepts := Inr (f, peer) # rest\<rparr>) = Inl DanglingCallback"
    if "0 \<le> f"
    using that called_stays
    by (simp add: orphan_onRead_def split_beta acceptor_onRead.simps [of _ _ _ _ _ "_\<lparr>a_accepts := _\<rparr>"] sock_accept_def Let_def)
  show "orphan_onClose (c\<lparr>lp := ?l\<rparr>) (owner ?l) = Inl DanglingCallback" if "connections (clients s) ev = Some c"
    using kept(2,3) [OF that] by (simp add: orphan_onClose_def isInLoopThread_def)
qed

theorem server_has_no_safe_end_witness:
  "\<exists>s c. destroy_TcpServer (server_stop s) = Inl BadWeakPtr \<and> destroy_TcpServer s = Inr s
     \<and> orphan_onRead sample_lib 0 0 0 ((listener s)\<lparr>a_accepts := [Inr (8, SockIn 2 9)]\<rparr>) = Inl DanglingCallback
     \<and> connections (clients s) 1 = Some c
     \<and> orphan_onClose (c\<lparr>lp := server_loop s\<rparr>) (owner (server_loop s)) = Inl DanglingCallback"
proof -
  have l: "tw_inv (timing sample_loop)" "events sample_loop = Map.empty" "pipe sample_loop = None" "(1::nat) = owner sample_loop"
    using new_TimingWheel_inv by (simp_all add: sample_loop)
  note r = server_ready [OF sample_ctl_laws sample_loop(9) l(1-3) _ l(4), where f = 5 and lib = sample_lib and flags = 0
      and ?old4.0 = 0 and ?old6.0 = 0 and ev = 0 and addr = "new_InetAddress ''0.0.0.0'' 1935 False"
      and socks = "[]" and fresh = "(9, 9)", folded sample_server_def, simplified]
  let ?x = "server_accept 1 (9, 9) ucast (\<lambda>_. []) (\<lambda>_. []) 7 default_InetAddress
      (server_loop sample_server, clients sample_server)"
  let ?s = "sample_server\<lparr>listener := (listener sample_server)\<lparr>a_loop := fst ?x\<rparr>, clients := snd ?x\<rparr>"
  have d: "data_inv sample_ctl 0 (server_loop sample_server) (clients sample_server)"
    using r(1,3) by (simp add: server_inv_def)
  have f: "events (server_loop sample_server) 7 = None" "(0::int) \<le> 7" "1 = owner (server_loop sample_server)"
    using r(2,5) l(4) by simp_all
  note a = server_accept_ok [OF sample_ctl_laws d f, where fresh = "(9, 9)" and m = ucast and ws = "\<lambda>_. []" and rs = "\<lambda>_. []"
      and peer = default_InetAddress]
  have i: "server_inv sample_ctl ?s" using a(1) r(3) by (simp add: server_inv_def)
  have "events (fst ?x) 5 = Some 0" using a(3) r(5,6) by simp
  moreover from this have "getFd (fst ?x) 0 = 5"
    using reg_invD(3) [OF data_invD(1) [OF a(1)], of 5 0] by (simp add: getFd_def)
  ultimately have g: "registered (server_loop ?s) (a_event (listener ?s))" using r(3) by (simp add: registered_def)
  obtain c where c: "connections (clients ?s) 1 = Some c" using a(6) r(6) by auto
  note e = server_has_no_safe_end [OF i g, where f = 8 and peer = "SockIn 2 9" and rest = "[]" and lib = sample_lib
      and flags = 0 and ?old4.0 = 0 and ?old6.0 = 0 and ev = 1 and c = c]
  show ?thesis using e c by (intro exI [of _ ?s] exI [of _ c]) simp
qed

end
