(* ===== verification/Singleton.thy ===== *)
theory Singleton
  imports Prelude
begin

text \<open>
  The class template \<open>base/Singleton.h\<close>: one static pointer per type and one \<open>pthread_once\<close>
  flag that guards its first initialisation. Objects are numbered in the order \<open>new\<close> makes them.
  \<open>pthread_once\<close> lets one caller run \<open>init\<close> and the others wait for it, so a call is one step.
\<close>

subsection \<open>State and operations\<close>

record singleton =
  once_ran :: bool
  the_instance :: "nat option"
  constructed :: nat

definition static_Singleton :: singleton where
  "static_Singleton = \<lparr>once_ran = False, the_instance = None, constructed = 0\<rparr>"

definition init_Singleton :: "singleton \<Rightarrow> singleton" where
  "init_Singleton s =
     (if the_instance s = None
      then s\<lparr>the_instance := Some (constructed s), constructed := Suc (constructed s)\<rparr> else s)"

definition getInstance :: "singleton \<Rightarrow> nat option \<times> singleton" where
  "getInstance s =
     (let s1 = (if once_ran s then s else init_Singleton (s\<lparr>once_ran := True\<rparr>))
      in (the_instance s1, s1))"

text \<open>\<open>getInstance\<close> returns a reference to the pointer, which its callers can assign.\<close>

definition assign_instance :: "nat option \<Rightarrow> singleton \<Rightarrow> singleton" where
  "assign_instance p s = (snd (getInstance s))\<lparr>the_instance := p\<rparr>"

primrec getInstances :: "nat \<Rightarrow> singleton \<Rightarrow> nat option list \<times> singleton" where
  "getInstances 0 s = ([], s)"
| "getInstances (Suc n) s =
     (let (p, s1) = getInstance s; (ps, s2) = getInstances n s1 in (p # ps, s2))"

subsection \<open>Lemmas\<close>

lemma getInstance_again: "once_ran s \<Longrightarrow> getInstance s = (the_instance s, s)"
  by (simp add: getInstance_def)

lemma getInstances_ran: "once_ran s \<Longrightarrow> getInstances n s = (replicate n (the_instance s), s)"
  by (induction n) (simp_all add: getInstance_again)

text \<open>However often it is called, the object is constructed once and every caller gets it.\<close>

lemma one_instance:
  assumes "0 < n"
  shows "fst (getInstances n static_Singleton) = replicate n (Some 0)"
    and "constructed (snd (getInstances n static_Singleton)) = 1"
proof -
  obtain m where n: "n = Suc m" using assms by (cases n) auto
  have "getInstance static_Singleton = (Some 0, \<lparr>once_ran = True, the_instance = Some 0, constructed = 1\<rparr>)"
    by (simp add: getInstance_def init_Singleton_def static_Singleton_def)
  then show "fst (getInstances n static_Singleton) = replicate n (Some 0)"
    "constructed (snd (getInstances n static_Singleton)) = 1"
    by (simp_all add: n getInstances_ran)
qed

text \<open>A caller that clears the pointer through the reference leaves every later call without an object.\<close>

lemma cleared_instance_stays_null:
  "fst (getInstances n (assign_instance None s)) = replicate n None"
proof -
  have "once_ran (assign_instance None s)"
    by (simp add: assign_instance_def getInstance_def init_Singleton_def Let_def)
  then show ?thesis by (simp add: getInstances_ran) (simp add: assign_instance_def)
qed

end
