(* ===== verification/Spec2Isabelle.thy ===== *)
theory Spec2Isabelle
  imports Prelude StringUtils MsgBuffer TimingWheel RtmpHandshake EventLoop TcpConnection TcpClient TextNumbers InetAddress FileLogMgr
    SocketOpt UdpSocket UdpClient LoopThread LoopThreadPool Acceptor TcpServer DnsService Packet Connection Logger RtmpServer
    ServerRounds ServerTraffic Callbacks Lifetime Singleton
begin

text \<open>
  A verification library for the multimedia server in \<open>src/src\<close>: its network layer
  (\<open>network/\<close>), the RTMP handshake and media packets on top of it (\<open>mmedia/\<close>), and the
  utilities both use (\<open>base/\<close>).

  \<^bold>\<open>How the program works.\<close> An event loop (\<open>EventLoop\<close>) waits for descriptors with epoll and
  calls the virtual handlers of the objects registered for them (\<open>Event\<close> and the classes derived
  from it): listening sockets (\<open>Acceptor\<close>), connections (\<open>TcpConnection\<close>, \<open>TcpClient\<close>), datagram
  sockets (\<open>UdpSocket\<close>, \<open>UdpServer\<close>, \<open>UdpClient\<close>) and the loop's own wake-up pipe. After the handlers it runs
  the closures other threads queued and lets the timing wheel advance. A server creates a
  connection for each accepted descriptor and has the wheel close it when it stays idle. What is
  read goes through a \<open>MsgBuffer\<close> to the user, for RTMP to the handshake. Loops run in threads
  of their own, grouped in a pool.

  \<^bold>\<open>Theories and sources.\<close> Paths are below \<open>src/src\<close>; operations keep the names of the
  code, with a prefix where several classes share a name.

    \<^item> \<open>Prelude\<close>: words, byte lists, searching and the generic lemmas.
    \<^item> \<open>StringUtils\<close>: \<open>base/StringUtils.cpp\<close>, each function on lists of characters.
    \<^item> \<open>TextNumbers\<close>: \<open>std::to_string\<close>, \<open>std::stoi\<close>, \<open>atoi\<close> and zero padding, as the sources use them.
    \<^item> \<open>MsgBuffer\<close>: \<open>network/base/MsgBuffer.h\<close> and \<open>.cpp\<close>; the vector and both indices, \<open>None\<close> for
      a failed assertion. The locale \<open>byte_queue\<close> states the queue a buffer promises to be and is
      interpreted on it as \<open>mb\<close>.
    \<^item> \<open>TimingWheel\<close>: \<open>network/net/TimingWheel.cpp\<close>; four wheels of slots holding reference-counted
      entries whose destructor is the timer. The locale \<open>countdown\<close> (an entry in the second wheel
      moves one slot per tick) is interpreted as \<open>second_wheel\<close>.
    \<^item> \<open>EventLoop\<close>: \<open>EventLoop.cpp\<close>, \<open>Event.cpp\<close>, \<open>PipeEvent.cpp\<close>; a record of the registered
      events, the objects, the queue, the wheel and the log of system calls. What the kernel
      watches is computed from that log. The locale \<open>write_interest\<close> is interpreted as
      \<open>loop_writes\<close>.
    \<^item> \<open>TcpConnection\<close>: \<open>TcpConnection.cpp\<close> and the functions of \<open>network/TcpServer.cpp\<close> that deal with one
      connection; \<open>TcpServer\<close>: that class together with its acceptor and its set of connections;
      \<open>TcpClient\<close>: \<open>network/TcpClient.cpp\<close>.
    \<^item> \<open>ServerLoop\<close>, \<open>ServerRounds\<close>, \<open>ServerTraffic\<close>: such a server under \<open>EventLoop::loop\<close>, with the handlers of the
      acceptor, the connections and the pipe behind the loop's table, queued closures and the timer. The locale
      \<open>connection_operation\<close> (an operation on an open connection returns, and leaves it open or properly
      closed) is interpreted for handlers, closures and timeouts as \<open>handler_op\<close>, \<open>closure_op\<close>, \<open>timeout_op\<close>.
      \<open>ServerRounds\<close> has its runs, \<open>ServerTraffic\<close> what becomes of a connection that is read from.
    \<^item> \<open>Callbacks\<close>: the callback slots of server, connection, acceptor and datagram socket, their setters and the places that
      call them, as a machine over callbacks that may set slots and close connections themselves.
    \<^item> \<open>Lifetime\<close>: the destructors of wheel, events, loop, client and server.
    \<^item> \<open>InetAddress\<close>, \<open>SocketOpt\<close>: addresses, their socket form, the socket calls.
    \<^item> \<open>Acceptor\<close>, \<open>Connection\<close>, \<open>LoopThread\<close>, \<open>LoopThreadPool\<close>: the files of
      \<open>network/net\<close> with these names (the last two: \<open>EventLoopThread.cpp\<close>, \<open>EventLoopThreadPool.cpp\<close>).
    \<^item> \<open>UdpSocket\<close>, \<open>UdpClient\<close>: \<open>network/UdpSocket.cpp\<close>, \<open>UdpServer.cpp\<close>, \<open>UdpClient.cpp\<close>. The derived
      classes are extensions of the record of the base class.
    \<^item> \<open>DnsService\<close>: \<open>network/DndService.cpp\<close>.
    \<^item> \<open>RtmpHandshake\<close>, \<open>Packet\<close>: \<open>mmedia/rtmp/RtmpHandshake.cpp\<close>, \<open>mmedia/base/Packet.cpp\<close>.
    \<^item> \<open>RtmpSession\<close>, \<open>RtmpServer\<close>: the handshake on a real connection, as \<open>mmedia/tests/RtmpServer.cpp\<close> puts
      them together: its arrays lie in the memory that the output queue points into, its sends
      are the connection's, and readable and writable events drive it.
    \<^item> \<open>FileLogMgr\<close>, \<open>Logger\<close>: \<open>base/FileLog.cpp\<close>, \<open>FileLogMgr.cpp\<close>, \<open>Logger.cpp\<close>, \<open>LogStream.cpp\<close>,
      \<open>TTime.cpp\<close>; \<open>Singleton\<close>: \<open>base/Singleton.h\<close>.

  \<^bold>\<open>What is a parameter.\<close> HMAC-SHA256, random bytes and the clock of the handshake (\<open>world\<close>); how
  system calls change epoll's set (\<open>epoll_laws\<close>, the documented behaviour of \<open>epoll_ctl\<close>
  and \<open>close\<close>); \<open>inet_pton\<close> and \<open>inet_ntop\<close> (\<open>inet_laws\<close>: what is printed is read back); the resolver;
  the clock. What the kernel answers to reads, writes, \<open>accept\<close>, \<open>socket\<close> and \<open>epoll_wait\<close> is a script in
  the state or an argument, so that the theorems hold for every behaviour of the kernel the
  hypotheses allow. User callbacks are arguments or are logged.

  \<^bold>\<open>Errors and loops.\<close> A failed assertion, an exception or undefined behaviour that ends the
  program is \<open>None\<close> or a value of \<open>conn_error\<close>; \<open>UseAfterFree\<close> is an access to an object whose last
  shared pointer is gone. Loops that end are functions with a measure (what the kernel still has
  to deliver, or the length of the queue). Loops that may not end are \<open>partial_function\<close>s or
  return \<open>None\<close> (\<open>split\<close>, \<open>runEvery\<close>, \<open>udp_onWrite_loop\<close>, \<open>hub_exec\<close>), and the properties say when they do return. No fuel is used.

  \<^bold>\<open>What the lemmas show.\<close> Invariants: the buffer's indices, the wheels' sizes and slots, the
  agreement of the loop's table with the kernel's set, the handshake's order of sending, the start
  protocol of a loop's thread, the table of a server's connections. Functional correctness: appending, reading and
  extracting; timers and idle supervision to the tick; streams and datagrams in order; accepting;
  the refresh of host names; log lines. Progress: the server's handshake completes, a loop's
  rounds return, those of a whole server included, silent connections are closed in time and busy ones are not, queued
  closures run, callbacks that do not close again return, \<open>run\<close> returns. Where the code goes wrong the lemmas say
  how: refused writes, closing a connection nobody holds, a client's handshake without S2, an
  empty datagram, a quit that comes too early, closing in a close callback, destroying a wheel or a server, and others.
  Which callback is called is characterised by the history of setters and acceptances alone.

  \<^bold>\<open>Not modelled.\<close> The setter of the connection callback of \<open>TcpClient\<close>, which only stores it; log messages of the network
  layer; \<open>NonCopyable.h\<close> and \<open>main.cpp\<close>, which have no behaviour of their
  own; the programs under \<open>test\<close> and \<open>tests\<close> other than
  \<open>RtmpServer.cpp\<close>. Data races on fields that the code reads without a lock
  (\<open>running_\<close> of \<open>DnsService\<close>, \<open>loop_\<close> of \<open>EventLoopThread\<close>) are treated as atomic accesses, and the parameters of
  \<open>DnsService\<close> stay the same during a round. The wake-up pipe never is full, so that \<open>weakup\<close> does not block;
  \<open>wakeups_pile_up\<close> says how a real one fills. Only the destructor of \<open>EventLoopThread\<close> asks its loop to quit. The
  message callback of \<open>TcpConnection\<close> and \<open>UdpSocket\<close> is a function on the input buffer; one that sends and closes is
  modelled in \<open>RtmpSession\<close>, ones that set callbacks and close in \<open>Callbacks\<close>. Callbacks of timers leave the wheel alone.
\<close>

end
